(* ===== verification/Cosix_Prelude.thy ===== *)
theory Cosix_Prelude
  imports Main "HOL-Library.Word" "HOL-Library.Monad_Syntax" "HOL-Library.Multiset"
begin

text \<open>
  What every theory of the development shares: the names of the machine types, the error
  numbers of \<^verbatim>\<open>oslibc/error.h\<close>, the kernel's \<^verbatim>\<open>assert\<close> and a few lemmas on lists, options
  and words.

  Conventions. A kernel routine that can fail an assertion, call \<^verbatim>\<open>kernel_panic()\<close>, touch
  memory it does not own or run forever has a result of type \<^typ>\<open>'a option\<close>, and \<^term>\<open>None\<close> is
  that failure. An error number is an ordinary value of type \<open>errno\<close>, as in the
  code, where it is returned to the caller or left in the \<^verbatim>\<open>error\<close> member of an object.
\<close>

unbundle bit_operations_syntax

type_synonym u8 = "8 word"
type_synonym u16 = "16 word"
type_synonym u32 = "32 word"
type_synonym u64 = "64 word"

text \<open>
  The error numbers of \<^verbatim>\<open>oslibc/error.h\<close> that the modelled code returns; \<open>ESUCCESS\<close> is the
  value 0 and \<open>EOTHER\<close> any number without a name here. The code only ever compares them with each other, so their numeric values,
  which come from the CloudABI headers, are left out.
\<close>

datatype (plugins only: code size) errno =
    ESUCCESS | EADDRINUSE | EAGAIN | EBADF | ECANCELED | ECONNREFUSED | ECONNRESET
  | EDESTADDRREQ | EEXIST | EFAULT | EINVAL | EIO | EISDIR | ELOOP | EMSGSIZE | ENAMETOOLONG
  | ENOENT | ENOEXEC | ENOMEM | ENOSPC | ENOSYS | ENOTCONN | ENOTDIR | ENOTEMPTY | ENOTSOCK
  | ENOTSUP | EOVERFLOW | EPERM | EPIPE | EROFS | ETIMEDOUT | ENOTCAPABLE | EXDEV | EOTHER

text \<open>\<^verbatim>\<open>assert(x)\<close> of \<^verbatim>\<open>oslibc/assert.hpp\<close> in a debug build: a false condition halts the kernel.\<close>

definition kassert :: "bool \<Rightarrow> unit option" where
  "kassert b = (if b then Some () else None)"

lemma kassert_simps [simp]:
  "kassert True = Some ()"
  "kassert False = None"
  by (simp_all add: kassert_def)

lemma kassert_eq_Some [simp]: "kassert b = Some u \<longleftrightarrow> b"
  by (simp add: kassert_def)

lemma kassert_eq_None [simp]: "kassert b = None \<longleftrightarrow> \<not> b"
  by (simp add: kassert_def)

lemma bind_kassert [simp]: "Option.bind (kassert b) f = (if b then f () else None)"
  by (simp add: kassert_def)

lemma bind_eq_Some_iff: "Option.bind m f = Some y \<longleftrightarrow> (\<exists>x. m = Some x \<and> f x = Some y)"
  by (cases m) simp_all

text \<open>The signed reading of a 64-bit word.\<close>

lemma sint_uint_64:
  "sint (w :: u64) = (if uint w < 2 ^ 63 then uint w else uint w - 2 ^ 64)"
proof -
  have lt: "uint w < 2 ^ 64"
    using uint_lt2p[of w] by simp
  have "sint w = take_bit 64 (uint w) - 2 ^ 64 * of_bool (bit (uint w) 63)"
    by (simp add: sint_uint signed_take_bit_eq_take_bit_minus)
  moreover have "take_bit 64 (uint w) = uint w"
    using lt by (simp add: take_bit_int_eq_self)
  moreover have "bit (uint w) 63 \<longleftrightarrow> \<not> uint w < 2 ^ 63"
  proof (cases "uint w < 2 ^ 63")
    case True
    then show ?thesis by (simp add: bit_iff_odd div_pos_pos_trivial)
  next
    case False
    then have "uint w div 2 ^ 63 = 1"
      using lt by (intro int_div_pos_eq[of _ _ _ "uint w - 2 ^ 63"]) auto
    with False show ?thesis by (simp add: bit_iff_odd)
  qed
  ultimately show ?thesis by simp
qed

lemma sint_small: "unat (w :: u64) < 2 ^ 63 \<Longrightarrow> sint w = int (unat w)"
  by (simp only: sint_uint_64 uint_nat of_nat_less_numeral_power_cancel_iff if_True)

lemma unat_u16_less: "unat (w :: u16) < 65536"
  using unsigned_less[of w] by simp

lemma unat_u32_less [simp]: "unat (w :: u32) < 4294967296"
  using unsigned_less[of w] by simp

end
