(* ===== verification/Linked_List.thy ===== *)
theory Linked_List
  imports Cosix_Prelude
begin

text \<open>
  The intrusive singly linked list of \<^verbatim>\<open>oslibc/list.hpp\<close>, which nearly every part of the
  kernel is built on. The list lives in an explicit heap of list items, so that what the
  routines do to the \<^verbatim>\<open>next\<close> pointers is visible: \<open>list_seg\<close> says which items a chain of
  pointers visits, and one lemma per routine says that it implements the operation
  on HOL lists that its clients think of. The later theories use HOL lists for lists
  whose pointers do not matter, on the strength of these lemmas.

  A \<^verbatim>\<open>linked_list<T> **list\<close> argument is modelled by the value of \<^verbatim>\<open>*list\<close>, returned
  updated. The loops are \<^theory_text>\<open>partial_function (option)\<close>: \<^term>\<open>None\<close> is a pointer to no
  item, or a loop that never ends.
\<close>

type_synonym addr = nat

abbreviation nullptr :: addr where
  "nullptr \<equiv> 0"

record 'a linked_list =
  data :: 'a
  nextp :: addr

type_synonym 'a heap = "addr \<rightharpoonup> 'a linked_list"

subsection \<open>The routines of list.hpp\<close>

definition list_empty :: "addr \<Rightarrow> bool" where
  "list_empty list \<longleftrightarrow> list = nullptr"

partial_function (option) list_size_from :: "'a heap \<Rightarrow> addr \<Rightarrow> nat \<Rightarrow> nat option" where
  "list_size_from h list s =
     (if list = nullptr then Some s
      else do { item \<leftarrow> h list; list_size_from h (nextp item) (Suc s) })"

definition list_size :: "'a heap \<Rightarrow> addr \<Rightarrow> nat option" where
  "list_size h list = list_size_from h list 0"

partial_function (option) list_iterate ::
  "'a heap \<Rightarrow> addr \<Rightarrow> (addr \<Rightarrow> 'a \<Rightarrow> 's \<Rightarrow> 's) \<Rightarrow> 's \<Rightarrow> 's option" where
  "list_iterate h list f s =
     (if list = nullptr then Some s
      else do { item \<leftarrow> h list; list_iterate h (nextp item) f (f list (data item) s) })"

partial_function (option) list_find ::
  "'a heap \<Rightarrow> addr \<Rightarrow> (addr \<Rightarrow> 'a \<Rightarrow> bool) \<Rightarrow> addr option" where
  "list_find h list f =
     (if list = nullptr then Some nullptr
      else do {
        item \<leftarrow> h list;
        if f list (data item) then Some list else list_find h (nextp item) f
      })"

definition list_contains :: "'a heap \<Rightarrow> addr \<Rightarrow> (addr \<Rightarrow> 'a \<Rightarrow> bool) \<Rightarrow> bool option" where
  "list_contains h list f = map_option (\<lambda>p. p \<noteq> nullptr) (list_find h list f)"

definition list_contains_object :: "'a heap \<Rightarrow> addr \<Rightarrow> 'a \<Rightarrow> bool option" where
  "list_contains_object h list d = list_contains h list (\<lambda>_ x. x = d)"

text \<open>The loop that \<^verbatim>\<open>append()\<close> and \<^verbatim>\<open>prepend()\<close> share: the last item of a non-empty list.\<close>

partial_function (option) list_tail :: "'a heap \<Rightarrow> addr \<Rightarrow> addr option" where
  "list_tail h i =
     do {
       item \<leftarrow> h i;
       if nextp item = nullptr then Some i else list_tail h (nextp item)
     }"

definition set_next :: "'a heap \<Rightarrow> addr \<Rightarrow> addr \<Rightarrow> 'a heap option" where
  "set_next h i p = do { item \<leftarrow> h i; Some (h(i \<mapsto> item\<lparr>nextp := p\<rparr>)) }"

definition list_append :: "'a heap \<Rightarrow> addr \<Rightarrow> addr \<Rightarrow> ('a heap \<times> addr) option" where
  "list_append h list entry =
     (if list = nullptr then Some (h, entry)
      else do {
        i \<leftarrow> list_tail h list;
        h' \<leftarrow> set_next h i entry;
        Some (h', list)
      })"

definition list_prepend :: "'a heap \<Rightarrow> addr \<Rightarrow> addr \<Rightarrow> ('a heap \<times> addr) option" where
  "list_prepend h list entry =
     do {
       tail \<leftarrow> list_tail h entry;
       h' \<leftarrow> set_next h tail list;
       Some (h', entry)
     }"

text \<open>
  \<^verbatim>\<open>remove_one()\<close> and \<^verbatim>\<open>remove_all()\<close> walk the list with \<^verbatim>\<open>prev\<close> one item behind; \<open>unlink\<close> is
  the assignment they have in common. The deallocator is an argument, as in the code.
\<close>

definition default_list_deallocator :: "addr \<Rightarrow> 'a heap \<Rightarrow> 'a heap" where
  "default_list_deallocator item h = h(item := None)"

definition unlink :: "'a heap \<Rightarrow> addr \<Rightarrow> addr \<Rightarrow> addr \<Rightarrow> ('a heap \<times> addr) option" where
  "unlink h list prev nxt =
     (if prev = nullptr then Some (h, nxt)
      else do { h' \<leftarrow> set_next h prev nxt; Some (h', list) })"

partial_function (option) remove_one_from ::
  "'a heap \<Rightarrow> addr \<Rightarrow> (addr \<Rightarrow> 'a \<Rightarrow> bool) \<Rightarrow> (addr \<Rightarrow> 'a heap \<Rightarrow> 'a heap) \<Rightarrow> addr \<Rightarrow> addr
    \<Rightarrow> ('a heap \<times> addr \<times> bool) option" where
  "remove_one_from h list f d prev i =
     (if i = nullptr then Some (h, list, False)
      else do {
        item \<leftarrow> h i;
        if f i (data item)
        then do {
          (h', list') \<leftarrow> unlink h list prev (nextp item);
          Some (d i h', list', True)
        }
        else remove_one_from h list f d i (nextp item)
      })"

definition remove_one ::
  "'a heap \<Rightarrow> addr \<Rightarrow> (addr \<Rightarrow> 'a \<Rightarrow> bool) \<Rightarrow> (addr \<Rightarrow> 'a heap \<Rightarrow> 'a heap)
    \<Rightarrow> ('a heap \<times> addr \<times> bool) option" where
  "remove_one h list f d =
     (if list = nullptr then Some (h, list, False)
      else remove_one_from h list f d nullptr list)"

definition remove_object ::
  "'a heap \<Rightarrow> addr \<Rightarrow> 'a \<Rightarrow> (addr \<Rightarrow> 'a heap \<Rightarrow> 'a heap) \<Rightarrow> ('a heap \<times> addr \<times> bool) option" where
  "remove_object h list x d = remove_one h list (\<lambda>_ y. y = x) d"

partial_function (option) remove_all_from ::
  "'a heap \<Rightarrow> addr \<Rightarrow> (addr \<Rightarrow> 'a \<Rightarrow> bool) \<Rightarrow> (addr \<Rightarrow> 'a heap \<Rightarrow> 'a heap) \<Rightarrow> addr \<Rightarrow> addr \<Rightarrow> nat
    \<Rightarrow> ('a heap \<times> addr \<times> nat) option" where
  "remove_all_from h list f d prev i removed =
     (if i = nullptr then Some (h, list, removed)
      else do {
        item \<leftarrow> h i;
        if f i (data item)
        then do {
          (h', list') \<leftarrow> unlink h list prev (nextp item);
          h'' \<leftarrow> set_next h' i nullptr;
          remove_all_from (d i h'') list' f d prev (nextp item) (Suc removed)
        }
        else remove_all_from h list f d i (nextp item) removed
      })"

definition remove_all ::
  "'a heap \<Rightarrow> addr \<Rightarrow> (addr \<Rightarrow> 'a \<Rightarrow> bool) \<Rightarrow> (addr \<Rightarrow> 'a heap \<Rightarrow> 'a heap)
    \<Rightarrow> ('a heap \<times> addr \<times> nat) option" where
  "remove_all h list f d =
     (if list = nullptr then Some (h, list, 0)
      else remove_all_from h list f d nullptr list 0)"

partial_function (option) list_clear_from ::
  "'a heap \<Rightarrow> (addr \<Rightarrow> 'a heap \<Rightarrow> 'a heap) \<Rightarrow> addr \<Rightarrow> nat \<Rightarrow> ('a heap \<times> nat) option" where
  "list_clear_from h d i removed =
     (if i = nullptr then Some (h, removed)
      else do { item \<leftarrow> h i; list_clear_from (d i h) d (nextp item) (Suc removed) })"

definition list_clear ::
  "'a heap \<Rightarrow> addr \<Rightarrow> (addr \<Rightarrow> 'a heap \<Rightarrow> 'a heap) \<Rightarrow> ('a heap \<times> addr \<times> nat) option" where
  "list_clear h list d =
     (if list = nullptr then Some (h, list, 0)
      else do { (h', removed) \<leftarrow> list_clear_from h d list 0; Some (h', nullptr, removed) })"

subsection \<open>The items a chain of pointers visits\<close>

text \<open>
  \<open>list_seg h p xs q\<close>: starting at \<open>p\<close> and following \<^verbatim>\<open>next\<close>, the items visited before
  \<open>q\<close> are those of \<open>xs\<close>, given as pairs of address and data.
\<close>

primrec list_seg :: "'a heap \<Rightarrow> addr \<Rightarrow> (addr \<times> 'a) list \<Rightarrow> addr \<Rightarrow> bool" where
  "list_seg h p [] q \<longleftrightarrow> p = q"
| "list_seg h p (x # xs) q \<longleftrightarrow>
     p = fst x \<and> p \<noteq> nullptr
     \<and> (case h p of None \<Rightarrow> False
        | Some item \<Rightarrow> data item = snd x \<and> list_seg h (nextp item) xs q)"

abbreviation is_list :: "'a heap \<Rightarrow> addr \<Rightarrow> (addr \<times> 'a) list \<Rightarrow> bool" where
  "is_list h p xs \<equiv> list_seg h p xs nullptr"

abbreviation addrs :: "(addr \<times> 'a) list \<Rightarrow> addr set" where
  "addrs xs \<equiv> fst ` set xs"

lemma list_seg_ConsE:
  assumes "list_seg h p (x # xs) q"
  obtains item where "p = fst x" "p \<noteq> nullptr" "h p = Some item" "data item = snd x"
    "list_seg h (nextp item) xs q"
  using assms by (auto split: option.splits)

lemma list_seg_append:
  "list_seg h p (xs @ ys) q \<longleftrightarrow> (\<exists>r. list_seg h p xs r \<and> list_seg h r ys q)"
  by (induction xs arbitrary: p) (auto split: option.splits)

lemma list_seg_cong:
  "list_seg h p xs q \<Longrightarrow> (\<And>a. a \<in> addrs xs \<Longrightarrow> h' a = h a) \<Longrightarrow> list_seg h' p xs q"
  by (induction xs arbitrary: p) (auto split: option.splits)

lemma list_seg_frame:
  "list_seg h p xs q \<Longrightarrow> \<forall>a. a \<notin> A \<longrightarrow> h' a = h a \<Longrightarrow> addrs xs \<inter> A = {} \<Longrightarrow> list_seg h' p xs q"
  by (rule list_seg_cong) blast+

lemma list_seg_upd [simp]:
  "a \<notin> addrs xs \<Longrightarrow> list_seg (h(a := v)) p xs q \<longleftrightarrow> list_seg h p xs q"
  by (induction xs arbitrary: p) (auto split: option.splits)

lemma is_list_null [simp]: "is_list h nullptr xs \<longleftrightarrow> xs = []"
  by (cases xs) auto

lemma is_list_nonnull:
  "is_list h p xs \<Longrightarrow> p \<noteq> nullptr \<Longrightarrow> \<exists>y ys. xs = y # ys"
  by (cases xs) auto

lemma is_list_unique: "is_list h p xs \<Longrightarrow> is_list h p ys \<Longrightarrow> xs = ys"
proof (induction xs arbitrary: p ys)
  case (Cons x xs)
  from Cons.prems(1) obtain item where x: "p = fst x" "p \<noteq> nullptr" "h p = Some item"
      "data item = snd x" "is_list h (nextp item) xs"
    by (rule list_seg_ConsE)
  from is_list_nonnull[OF Cons.prems(2) x(2)] obtain y ys' where ys: "ys = y # ys'"
    by blast
  with Cons.prems(2) x have "fst x = fst y" "snd x = snd y" "is_list h (nextp item) ys'"
    by auto
  with Cons.IH[OF x(5)] ys show ?case
    by (simp add: prod_eq_iff)
qed simp

lemma is_list_distinct: "is_list h p xs \<Longrightarrow> distinct (map fst xs)"
proof (induction xs arbitrary: p)
  case (Cons x xs)
  from Cons.prems obtain item where x: "p = fst x" "p \<noteq> nullptr" "h p = Some item"
      "is_list h (nextp item) xs"
    by (rule list_seg_ConsE)
  have "fst x \<notin> addrs xs"
  proof
    assume "fst x \<in> addrs xs"
    then obtain us v vs where xs: "xs = us @ v # vs" "fst v = fst x"
      by (metis imageE split_list)
    from x(4) obtain r where "is_list h r (v # vs)"
      unfolding xs(1) list_seg_append by blast
    moreover from this xs(2) x(1) have "r = p"
      by (auto split: option.splits)
    ultimately have "v # vs = x # xs"
      using Cons.prems is_list_unique by blast
    with xs(1) show False by (metis append_eq_Cons_conv list.sel(3) not_Cons_self2 append_Nil
        length_append length_Cons le_add2 not_less_eq_eq)
  qed
  with Cons.IH[OF x(4)] show ?case by auto
qed simp

lemma list_seg_nonnull: "list_seg h p xs q \<Longrightarrow> x \<in> set xs \<Longrightarrow> fst x \<noteq> nullptr"
  by (induction xs arbitrary: p) (auto split: option.splits)

subsection \<open>The routines that only read\<close>

lemma list_size_from_correct:
  "is_list h p xs \<Longrightarrow> list_size_from h p s = Some (s + length xs)"
  by (induction xs arbitrary: p s; subst list_size_from.simps) (auto split: option.splits)

lemma list_size_correct: "is_list h p xs \<Longrightarrow> list_size h p = Some (length xs)"
  by (simp add: list_size_def list_size_from_correct)

lemma list_iterate_correct:
  "is_list h p xs \<Longrightarrow> list_iterate h p f s = Some (fold (\<lambda>(a, v). f a v) xs s)"
  by (induction xs arbitrary: p s; subst list_iterate.simps) (auto split: option.splits)

lemma list_find_correct:
  "is_list h p xs \<Longrightarrow>
   list_find h p f
     = Some (case find (\<lambda>(a, v). f a v) xs of None \<Rightarrow> nullptr | Some x \<Rightarrow> fst x)"
  by (induction xs arbitrary: p; subst list_find.simps) (auto split: option.splits)

lemma list_contains_correct:
  assumes "is_list h p xs"
  shows "list_contains h p f = Some (\<exists>(a, v) \<in> set xs. f a v)"
proof (cases "find (\<lambda>(a, v). f a v) xs")
  case None
  then have "\<not> (\<exists>(a, v) \<in> set xs. f a v)"
    by (auto simp: find_None_iff)
  with None show ?thesis
    by (simp add: list_contains_def list_find_correct[OF assms])
next
  case (Some x)
  then have "x \<in> set xs" "case x of (a, v) \<Rightarrow> f a v"
    by (metis (mono_tags, lifting) find_Some_iff nth_mem)+
  moreover from this(1) have "fst x \<noteq> nullptr"
    by (rule list_seg_nonnull[OF assms])
  ultimately have "\<exists>(a, v) \<in> set xs. f a v" "fst x \<noteq> nullptr"
    by blast+
  with Some show ?thesis
    by (simp add: list_contains_def list_find_correct[OF assms])
qed

subsection \<open>The routines that change the list\<close>

lemma list_tail_correct:
  "is_list h p (xs @ [x]) \<Longrightarrow> list_tail h p = Some (fst x)"
proof (induction xs arbitrary: p)
  case Nil
  then show ?case
    by (subst list_tail.simps) (auto split: option.splits)
next
  case (Cons y ys)
  from Cons.prems obtain item where y: "p = fst y" "h p = Some item"
      "is_list h (nextp item) (ys @ [x])"
    unfolding append_Cons by (rule list_seg_ConsE)
  from y(3) have "nextp item \<noteq> nullptr"
    by (metis is_list_null append_is_Nil_conv not_Cons_self2)
  with y Cons.IH[OF y(3)] show ?case
    by (subst list_tail.simps) simp
qed

lemma set_next_last:
  assumes "list_seg h p (us @ [x]) q" "distinct (map fst (us @ [x]))"
  shows "\<exists>h'. set_next h (fst x) r = Some h' \<and> list_seg h' p (us @ [x]) r
              \<and> (\<forall>a. a \<noteq> fst x \<longrightarrow> h' a = h a) \<and> dom h' = dom h"
proof -
  from assms(1) obtain item where x: "list_seg h p us (fst x)" "fst x \<noteq> nullptr"
      "h (fst x) = Some item" "data item = snd x"
    by (auto simp: list_seg_append split: option.splits)
  moreover from assms(2) have "fst x \<notin> addrs us"
    by auto
  ultimately show ?thesis
    by (auto simp: set_next_def list_seg_append)
qed

text \<open>
  C17: \<^verbatim>\<open>append()\<close> implements list concatenation: given a well-formed list and a well-formed chain of
  items that share no item, it returns (no null pointer is followed) with a list of the old items
  followed by the new ones; only the \<^verbatim>\<open>next\<close> pointer of an old item changes, and no item is
  created or lost.
\<close>

theorem list_append_correct:
  assumes "is_list h p xs" "is_list h e ys" "addrs xs \<inter> addrs ys = {}"
  shows "\<exists>h' p'. list_append h p e = Some (h', p') \<and> is_list h' p' (xs @ ys)
                 \<and> (\<forall>a. a \<notin> addrs xs \<longrightarrow> h' a = h a) \<and> dom h' = dom h"
proof (cases xs rule: rev_cases)
  case Nil
  with assms show ?thesis
    by (auto simp: list_append_def)
next
  case (snoc us x)
  from assms(1) have "p \<noteq> nullptr"
    by (metis is_list_null snoc snoc_eq_iff_butlast)
  moreover have t: "list_tail h p = Some (fst x)"
    using assms(1) snoc list_tail_correct by blast
  moreover obtain h' where h': "set_next h (fst x) e = Some h'" "list_seg h' p (us @ [x]) e"
      "\<forall>a. a \<noteq> fst x \<longrightarrow> h' a = h a" "dom h' = dom h"
    using set_next_last[of h p us x nullptr e] assms(1) snoc is_list_distinct by blast
  moreover have "is_list h' e ys"
    using h'(3) assms(3) by (intro list_seg_frame[OF assms(2), of "{fst x}"]) (auto simp: snoc)
  moreover have "is_list h' p ((us @ [x]) @ ys)"
    using calculation by (subst list_seg_append) blast
  ultimately show ?thesis
    by (simp add: list_append_def snoc)
qed

lemma list_prepend_correct:
  assumes "is_list h p xs" "is_list h e (ys @ [y])" "addrs xs \<inter> addrs (ys @ [y]) = {}"
  shows "\<exists>h'. list_prepend h p e = Some (h', e) \<and> is_list h' e (ys @ [y] @ xs)
              \<and> (\<forall>a. a \<noteq> fst y \<longrightarrow> h' a = h a) \<and> dom h' = dom h"
proof -
  obtain h' where h': "set_next h (fst y) p = Some h'" "list_seg h' e (ys @ [y]) p"
      "\<forall>a. a \<noteq> fst y \<longrightarrow> h' a = h a" "dom h' = dom h"
    using set_next_last[OF assms(2) is_list_distinct[OF assms(2)]] by blast
  moreover have "is_list h' p xs"
    using h'(3) assms(3) by (intro list_seg_frame[OF assms(1), of "{fst y}"]) auto
  moreover have "is_list h' e ((ys @ [y]) @ xs)"
    using calculation by (subst list_seg_append) blast
  ultimately show ?thesis
    using list_tail_correct[OF assms(2)] by (auto simp: list_prepend_def)
qed

text \<open>
  A deallocator may do what it likes with the item it gets, and nothing else: this
  is what \<^verbatim>\<open>remove_one\<close>, \<^verbatim>\<open>remove_all\<close> and \<^verbatim>\<open>clear\<close> rely on. The default deallocator
  and the empty one of \<^verbatim>\<open>page_allocator.cpp\<close> both satisfy it.
\<close>

definition local_dealloc :: "(addr \<Rightarrow> 'a heap \<Rightarrow> 'a heap) \<Rightarrow> bool" where
  "local_dealloc d \<longleftrightarrow> (\<forall>i h a. a \<noteq> i \<longrightarrow> d i h a = h a)"

lemma local_deallocD: "local_dealloc d \<Longrightarrow> a \<noteq> i \<Longrightarrow> d i h a = h a"
  by (simp add: local_dealloc_def)

lemma local_dealloc_default [simp]: "local_dealloc default_list_deallocator"
  by (simp add: local_dealloc_def default_list_deallocator_def)

lemma local_dealloc_none [simp]: "local_dealloc (\<lambda>i h. h)"
  by (simp add: local_dealloc_def)

definition prev_of :: "(addr \<times> 'a) list \<Rightarrow> addr" where
  "prev_of us = (if us = [] then nullptr else fst (last us))"

lemma prev_of_simps [simp]: "prev_of [] = nullptr" "prev_of (us @ [x]) = fst x"
  by (simp_all add: prev_of_def)

lemma unlink_correct:
  assumes "is_list h l (us @ x # vs)" "h (fst x) = Some item"
  shows "\<exists>h' l'. unlink h l (prev_of us) (nextp item) = Some (h', l')
           \<and> list_seg h' l' us (nextp item) \<and> is_list h' (nextp item) vs
           \<and> (\<forall>a. a \<notin> addrs us \<longrightarrow> h' a = h a)"
proof (cases us rule: rev_cases)
  case Nil
  with assms show ?thesis
    by (auto simp: unlink_def)
next
  case (snoc ws w)
  have dist: "distinct (map fst (us @ x # vs))"
    using assms(1) is_list_distinct by blast
  from assms have us: "list_seg h l us (fst x)" and vs: "is_list h (nextp item) vs"
    by (auto simp: list_seg_append)
  obtain h' where h': "set_next h (fst w) (nextp item) = Some h'" "list_seg h' l us (nextp item)"
      "\<forall>a. a \<noteq> fst w \<longrightarrow> h' a = h a"
    using set_next_last[of h l ws w "fst x" "nextp item"] us dist unfolding snoc
    by (metis distinct_append map_append)
  moreover have "is_list h' (nextp item) vs"
    using h'(3) dist by (intro list_seg_frame[OF vs, of "{fst w}"]) (auto simp: snoc)
  moreover have "fst w \<noteq> nullptr"
    using list_seg_nonnull[OF us, of w] by (simp add: snoc)
  moreover have "\<forall>a. a \<notin> addrs us \<longrightarrow> h' a = h a"
    using h'(3) by (auto simp: snoc)
  ultimately show ?thesis
    by (intro exI[of _ h'] exI[of _ l]) (simp add: unlink_def snoc)
qed

primrec remove_first :: "('b \<Rightarrow> bool) \<Rightarrow> 'b list \<Rightarrow> 'b list" where
  "remove_first f [] = []"
| "remove_first f (x # xs) = (if f x then xs else x # remove_first f xs)"

lemma remove_one_from_correct:
  assumes "local_dealloc d" "list_seg h l us j" "is_list h j vs"
  shows "\<exists>h' l'. remove_one_from h l f d (prev_of us) j
              = Some (h', l', \<exists>(a, v) \<in> set vs. f a v)
           \<and> is_list h' l' (us @ remove_first (\<lambda>(a, v). f a v) vs)
           \<and> (\<forall>a. a \<notin> addrs (us @ vs) \<longrightarrow> h' a = h a)"
  using assms(2-)
proof (induction vs arbitrary: us j)
  case Nil
  then show ?case
    by (subst remove_one_from.simps) simp
next
  case (Cons x vs)
  from Cons.prems(2) obtain item where x: "j = fst x" "j \<noteq> nullptr" "h j = Some item"
      "data item = snd x" "is_list h (nextp item) vs"
    by (rule list_seg_ConsE)
  have whole: "is_list h l (us @ x # vs)"
    using Cons.prems list_seg_append by blast
  have dist: "distinct (map fst (us @ x # vs))"
    using whole is_list_distinct by blast
  show ?case
  proof (cases "f j (data item)")
    case True
    obtain h' l' where u: "unlink h l (prev_of us) (nextp item) = Some (h', l')"
        "list_seg h' l' us (nextp item)" "is_list h' (nextp item) vs"
        "\<forall>a. a \<notin> addrs us \<longrightarrow> h' a = h a"
      using unlink_correct[OF whole] x by auto
    have "is_list h' l' (us @ vs)"
      using u list_seg_append by blast
    then have "is_list (d j h') l' (us @ vs)"
      using dist x(1) local_deallocD[OF assms(1)]
      by (elim list_seg_frame[of _ _ _ _ "{j}"]) auto
    moreover have "\<forall>a. a \<notin> addrs (us @ x # vs) \<longrightarrow> d j h' a = h a"
      using u(4) x(1) by (auto simp: local_deallocD[OF assms(1)])
    moreover have "remove_one_from h l f d (prev_of us) j = Some (d j h', l', True)"
      using True u(1) x by (subst remove_one_from.simps) simp
    moreover have "case x of (a, v) \<Rightarrow> f a v"
      using True x by (simp add: case_prod_beta)
    ultimately show ?thesis
      by (intro exI[of _ "d j h'"] exI[of _ l']) simp
  next
    case False
    have "list_seg h l (us @ [x]) (nextp item)"
      using Cons.prems(1) x by (auto simp: list_seg_append)
    moreover have "remove_one_from h l f d (prev_of us) j
        = remove_one_from h l f d (prev_of (us @ [x])) (nextp item)"
      using False x by (subst remove_one_from.simps) simp
    moreover have "\<not> (case x of (a, v) \<Rightarrow> f a v)"
      using False x by (simp add: case_prod_beta)
    ultimately show ?thesis
      using Cons.IH[OF _ x(5), of "us @ [x]"] by simp
  qed
qed

lemma remove_one_correct:
  assumes "local_dealloc d" "is_list h l xs"
  shows "\<exists>h' l'. remove_one h l f d = Some (h', l', \<exists>(a, v) \<in> set xs. f a v)
           \<and> is_list h' l' (remove_first (\<lambda>(a, v). f a v) xs)
           \<and> (\<forall>a. a \<notin> addrs xs \<longrightarrow> h' a = h a)"
  using remove_one_from_correct[OF assms(1), of h l "[]" l xs f] assms(2)
  by (auto simp: remove_one_def)

lemma remove_all_from_correct:
  assumes "local_dealloc d" "list_seg h l us j" "is_list h j vs"
  shows "\<exists>h' l'. remove_all_from h l f d (prev_of us) j n
              = Some (h', l', n + length (filter (\<lambda>(a, v). f a v) vs))
           \<and> is_list h' l' (us @ filter (\<lambda>(a, v). \<not> f a v) vs)
           \<and> (\<forall>a. a \<notin> addrs (us @ vs) \<longrightarrow> h' a = h a)"
  using assms(2-)
proof (induction vs arbitrary: h l us j n)
  case Nil
  then show ?case
    by (subst remove_all_from.simps) simp
next
  case (Cons x vs)
  from Cons.prems(2) obtain item where x: "j = fst x" "j \<noteq> nullptr" "h j = Some item"
      "data item = snd x" "is_list h (nextp item) vs"
    by (rule list_seg_ConsE)
  have whole: "is_list h l (us @ x # vs)"
    using Cons.prems list_seg_append by blast
  have dist: "distinct (map fst (us @ x # vs))"
    using whole is_list_distinct by blast
  show ?case
  proof (cases "f j (data item)")
    case True
    obtain h' l' where u: "unlink h l (prev_of us) (nextp item) = Some (h', l')"
        "list_seg h' l' us (nextp item)" "is_list h' (nextp item) vs"
        "\<forall>a. a \<notin> addrs us \<longrightarrow> h' a = h a"
      using unlink_correct[OF whole] x by auto
    then have "h' j = Some item"
      using dist x by auto
    then obtain h'' where s: "set_next h' j nullptr = Some h''" "\<forall>a. a \<noteq> j \<longrightarrow> h'' a = h' a"
      by (auto simp: set_next_def)
    let ?h = "d j h''"
    have frame: "\<forall>a. a \<notin> {j} \<longrightarrow> ?h a = h' a"
      using s(2) local_deallocD[OF assms(1)] by auto
    have "list_seg ?h l' us (nextp item)"
      using dist x(1) by (intro list_seg_frame[OF u(2) frame]) auto
    moreover have "is_list ?h (nextp item) vs"
      using dist x(1) by (intro list_seg_frame[OF u(3) frame]) auto
    ultimately obtain h3 l3 where r:
      "remove_all_from ?h l' f d (prev_of us) (nextp item) (Suc n)
         = Some (h3, l3, Suc n + length (filter (\<lambda>(a, v). f a v) vs))"
      "is_list h3 l3 (us @ filter (\<lambda>(a, v). \<not> f a v) vs)"
      "\<forall>a. a \<notin> addrs (us @ vs) \<longrightarrow> h3 a = ?h a"
      using Cons.IH by blast
    have "remove_all_from h l f d (prev_of us) j n
        = remove_all_from ?h l' f d (prev_of us) (nextp item) (Suc n)"
      using True u(1) s(1) x by (subst remove_all_from.simps) simp
    moreover have "\<forall>a. a \<notin> addrs (us @ x # vs) \<longrightarrow> h3 a = h a"
    proof (intro allI impI)
      fix a assume a: "a \<notin> addrs (us @ x # vs)"
      then have "h3 a = ?h a"
        using r(3) by simp
      also from a x(1) frame have "\<dots> = h' a"
        by simp
      also from a u(4) have "\<dots> = h a"
        by (simp add: image_Un)
      finally show "h3 a = h a" .
    qed
    moreover have "case x of (a, v) \<Rightarrow> f a v"
      using True x by (simp add: case_prod_beta)
    ultimately show ?thesis
      using r(1,2) by (intro exI[of _ h3] exI[of _ l3]) (cases x, simp)
  next
    case False
    have "list_seg h l (us @ [x]) (nextp item)"
      using Cons.prems(1) x by (auto simp: list_seg_append)
    moreover have "remove_all_from h l f d (prev_of us) j n
        = remove_all_from h l f d (prev_of (us @ [x])) (nextp item) n"
      using False x by (subst remove_all_from.simps) simp
    moreover have "\<not> (case x of (a, v) \<Rightarrow> f a v)"
      using False x by (simp add: case_prod_beta)
    ultimately show ?thesis
      using Cons.IH[OF _ x(5), of l "us @ [x]" n] by (cases x) simp
  qed
qed

text \<open>
  C18: \<^verbatim>\<open>remove_all()\<close> implements \<^verbatim>\<open>filter\<close>: on a well-formed list it returns with the list of the
  items that do not satisfy the predicate, in order, and the number of those that do; no
  item outside the list changes. This holds for every deallocator that touches only the item it
  is given.
\<close>

theorem remove_all_correct:
  assumes "local_dealloc d" "is_list h l xs"
  shows "\<exists>h' l'. remove_all h l f d = Some (h', l', length (filter (\<lambda>(a, v). f a v) xs))
           \<and> is_list h' l' (filter (\<lambda>(a, v). \<not> f a v) xs)
           \<and> (\<forall>a. a \<notin> addrs xs \<longrightarrow> h' a = h a)"
  using remove_all_from_correct[OF assms(1), of h l "[]" l xs f 0] assms(2)
  by (auto simp: remove_all_def)

lemma list_clear_from_correct:
  assumes "local_dealloc d" "is_list h j xs"
  shows "\<exists>h'. list_clear_from h d j n = Some (h', n + length xs)
           \<and> (\<forall>a. a \<notin> addrs xs \<longrightarrow> h' a = h a)"
  using assms(2)
proof (induction xs arbitrary: h j n)
  case Nil
  then show ?case
    by (subst list_clear_from.simps) simp
next
  case (Cons x xs)
  from Cons.prems obtain item where x: "j = fst x" "j \<noteq> nullptr" "h j = Some item"
      "is_list h (nextp item) xs"
    by (rule list_seg_ConsE)
  have "fst x \<notin> addrs xs"
    using is_list_distinct[OF Cons.prems] by auto
  then have "is_list (d j h) (nextp item) xs"
    using x(1) local_deallocD[OF assms(1)] by (intro list_seg_frame[OF x(4), of "{j}"]) auto
  from Cons.IH[OF this, of "Suc n"] obtain h' where
    "list_clear_from (d j h) d (nextp item) (Suc n) = Some (h', Suc n + length xs)"
    "\<forall>a. a \<notin> addrs xs \<longrightarrow> h' a = d j h a"
    by blast
  moreover have "list_clear_from h d j n = list_clear_from (d j h) d (nextp item) (Suc n)"
    using x by (subst list_clear_from.simps) simp
  ultimately show ?case
    using x(1) by (simp add: local_deallocD[OF assms(1)])
qed

lemma list_clear_correct:
  assumes "local_dealloc d" "is_list h l xs"
  shows "\<exists>h'. list_clear h l d = Some (h', nullptr, length xs)
           \<and> (\<forall>a. a \<notin> addrs xs \<longrightarrow> h' a = h a)"
  using list_clear_from_correct[OF assms, of 0] assms(2)
  by (auto simp: list_clear_def)

subsection \<open>Concrete runs\<close>

definition sample_heap :: "nat heap" where
  "sample_heap = [1 \<mapsto> \<lparr>data = 10, nextp = 2\<rparr>, 2 \<mapsto> \<lparr>data = 21, nextp = 3\<rparr>, 3 \<mapsto> \<lparr>data = 32, nextp = 0\<rparr>,
     7 \<mapsto> \<lparr>data = 43, nextp = 0\<rparr>]"

lemma sample_heap_lists: "is_list sample_heap 1 [(1, 10), (2, 21), (3, 32)]" "is_list sample_heap 7 [(7, 43)]"
  by (simp_all add: sample_heap_def)

theorem list_append_refines_witness:
  "\<exists>h' p'. list_append sample_heap 1 7 = Some (h', p') \<and> is_list h' p' [(1, 10), (2, 21), (3, 32), (7, 43)]"
  using list_append_correct[OF sample_heap_lists] by auto

theorem remove_all_refines_witness:
  "\<exists>h' l'. remove_all sample_heap 1 (\<lambda>_ v. v = 21) default_list_deallocator = Some (h', l', 1)
     \<and> is_list h' l' [(1, 10), (3, 32)]"
  using remove_all_correct[OF local_dealloc_default sample_heap_lists(1), of "\<lambda>_ v. v = 21"] by auto

end
