(* ===== verification/Cstring.thy ===== *)
theory Cstring
  imports Cosix_Prelude
begin

text \<open>
  The memory and string routines of \<^verbatim>\<open>oslibc/string.c\<close>. Memory is a partial map from
  32-bit addresses to bytes: reading or writing an address that is not in the map is
  the failure \<^term>\<open>None\<close>, so a lemma that ends in \<^term>\<open>Some m'\<close> is also a memory-safety
  statement. A loop with a counter is a terminating recursion; the loops that look
  for a null byte are \<^theory_text>\<open>partial_function (option)\<close>. A plain \<^verbatim>\<open>char\<close> is signed on this target,
  which matters for \<^verbatim>\<open>strcmp\<close>.
\<close>

type_synonym memory = "u32 \<rightharpoonup> u8"

definition store :: "memory \<Rightarrow> u32 \<Rightarrow> u8 \<Rightarrow> memory option" where
  "store m a v = (case m a of None \<Rightarrow> None | Some _ \<Rightarrow> Some (m(a \<mapsto> v)))"

subsection \<open>The routines\<close>

partial_function (option) strlen_from :: "memory \<Rightarrow> u32 \<Rightarrow> u32 \<Rightarrow> u32 option" where
  "strlen_from m str ret =
     do { c \<leftarrow> m (str + ret); if c \<noteq> 0 then strlen_from m str (ret + 1) else Some ret }"

definition strlen :: "memory \<Rightarrow> u32 \<Rightarrow> u32 option" where
  "strlen m str = strlen_from m str 0"

partial_function (option) strnlen_from :: "memory \<Rightarrow> u32 \<Rightarrow> u32 \<Rightarrow> u32 \<Rightarrow> u32 option" where
  "strnlen_from m str maxlen ret =
     do {
       c \<leftarrow> m (str + ret);
       if c \<noteq> 0 \<and> ret < maxlen then strnlen_from m str maxlen (ret + 1) else Some ret
     }"

definition strnlen :: "memory \<Rightarrow> u32 \<Rightarrow> u32 \<Rightarrow> u32 option" where
  "strnlen m str maxlen = strnlen_from m str maxlen 0"

function memset_from :: "memory \<Rightarrow> u32 \<Rightarrow> u8 \<Rightarrow> nat \<Rightarrow> nat \<Rightarrow> memory option" where
  "memset_from m b c len i =
     (if i < len
      then do { m' \<leftarrow> store m (b + of_nat i) c; memset_from m' b c len (Suc i) }
      else Some m)"
  by pat_completeness auto
termination by (relation "measure (\<lambda>(m, b, c, len, i). len - i)") auto

definition memset :: "memory \<Rightarrow> u32 \<Rightarrow> u8 \<Rightarrow> nat \<Rightarrow> memory option" where
  "memset m b c len = memset_from m b c len 0"

text \<open>\<^verbatim>\<open>memcpy\<close> copies the last byte first.\<close>

fun memcpy :: "memory \<Rightarrow> u32 \<Rightarrow> u32 \<Rightarrow> nat \<Rightarrow> memory option" where
  "memcpy m dst src 0 = Some m"
| "memcpy m dst src (Suc n) =
     do {
       c \<leftarrow> m (src + of_nat n);
       m' \<leftarrow> store m (dst + of_nat n) c;
       memcpy m' dst src n
     }"

text \<open>The stack buffer of \<^verbatim>\<open>memmove\<close> is the argument \<open>buf\<close>: where it lies is up to the compiler.\<close>

definition memmove :: "memory \<Rightarrow> u32 \<Rightarrow> u32 \<Rightarrow> u32 \<Rightarrow> nat \<Rightarrow> memory option" where
  "memmove m buf dst src len =
     do { m' \<leftarrow> memcpy m buf src len; memcpy m' dst buf len }"

fun memcmp :: "memory \<Rightarrow> u32 \<Rightarrow> u32 \<Rightarrow> nat \<Rightarrow> int option" where
  "memcmp m left right 0 = Some 0"
| "memcmp m left right (Suc n) =
     do {
       l \<leftarrow> m left;
       r \<leftarrow> m right;
       if l < r then Some (- 1)
       else if l > r then Some 1
       else memcmp m (left + 1) (right + 1) n
     }"

partial_function (option) strcmp :: "memory \<Rightarrow> u32 \<Rightarrow> u32 \<Rightarrow> int option" where
  "strcmp m left right =
     do {
       l \<leftarrow> m left;
       r \<leftarrow> m right;
       if l = 0 \<and> r = 0 then Some 0
       else if sint l < sint r then Some (- 1)
       else if sint l > sint r then Some 1
       else strcmp m (left + 1) (right + 1)
     }"

fun strncmp :: "memory \<Rightarrow> u32 \<Rightarrow> u32 \<Rightarrow> nat \<Rightarrow> int option" where
  "strncmp m left right 0 = Some 0"
| "strncmp m left right (Suc n) =
     do {
       l \<leftarrow> m left;
       r \<leftarrow> m right;
       if l = 0 \<and> r = 0 then Some 0
       else if sint l < sint r then Some (- 1)
       else if sint l > sint r then Some 1
       else strncmp m (left + 1) (right + 1) n
     }"

function strncpy_copy :: "memory \<Rightarrow> u32 \<Rightarrow> u32 \<Rightarrow> nat \<Rightarrow> nat \<Rightarrow> (memory \<times> nat) option" where
  "strncpy_copy m dst src n i =
     (if i < n
      then do {
        c \<leftarrow> m (src + of_nat i);
        if c \<noteq> 0
        then do { m' \<leftarrow> store m (dst + of_nat i) c; strncpy_copy m' dst src n (Suc i) }
        else Some (m, i)
      }
      else Some (m, i))"
  by pat_completeness auto
termination by (relation "measure (\<lambda>(m, dst, src, n, i). n - i)") auto

definition strncpy :: "memory \<Rightarrow> u32 \<Rightarrow> u32 \<Rightarrow> nat \<Rightarrow> memory option" where
  "strncpy m dst src n =
     do { (m', i) \<leftarrow> strncpy_copy m dst src n 0; memset_from m' dst 0 n i }"

definition strncat :: "memory \<Rightarrow> u32 \<Rightarrow> u32 \<Rightarrow> nat \<Rightarrow> memory option" where
  "strncat m s1 s2 n = do { s1len \<leftarrow> strlen m s1; strncpy m (s1 + s1len) s2 n }"

function strlcat_copy :: "memory \<Rightarrow> u32 \<Rightarrow> u32 \<Rightarrow> nat \<Rightarrow> nat \<Rightarrow> memory option" where
  "strlcat_copy m dst src to_copy i =
     (if i < to_copy
      then do {
        c \<leftarrow> m (src + of_nat i);
        m' \<leftarrow> store m (dst + of_nat i) c;
        strlcat_copy m' dst src to_copy (Suc i)
      }
      else Some m)"
  by pat_completeness auto
termination by (relation "measure (\<lambda>(m, dst, src, to_copy, i). to_copy - i)") auto

definition strlcat :: "memory \<Rightarrow> u32 \<Rightarrow> u32 \<Rightarrow> u32 \<Rightarrow> (memory \<times> u32) option" where
  "strlcat m dst src n =
     do {
       dstlen \<leftarrow> strlen m dst;
       srclen \<leftarrow> strlen m src;
       let to_copy = (if n - dstlen > srclen + 1 then srclen + 1 else n - dstlen);
       m' \<leftarrow> strlcat_copy m (dst + dstlen) src (unat to_copy) 0;
       m'' \<leftarrow> store m' (dst + (dstlen + to_copy - 1)) 0;
       Some (m'', dstlen + srclen)
     }"

partial_function (option) strsplit_from ::
  "memory \<Rightarrow> u32 \<Rightarrow> u8 \<Rightarrow> (memory \<times> u32) option" where
  "strsplit_from m res delim =
     do {
       c \<leftarrow> m res;
       if c = 0 then Some (m, 0)
       else if c = delim then do { m' \<leftarrow> store m res 0; Some (m', res + 1) }
       else strsplit_from m (res + 1) delim
     }"

definition strsplit :: "memory \<Rightarrow> u32 \<Rightarrow> u8 \<Rightarrow> (memory \<times> u32) option" where
  "strsplit m str delim = (if str = 0 then Some (m, 0) else strsplit_from m str delim)"

declare memset_from.simps [simp del] strncpy_copy.simps [simp del] strlcat_copy.simps [simp del]

subsection \<open>Byte ranges\<close>

definition range_at :: "u32 \<Rightarrow> nat \<Rightarrow> u32 set" where
  "range_at p n = (\<lambda>i. p + of_nat i) ` {..<n}"

definition bytes_at :: "memory \<Rightarrow> u32 \<Rightarrow> u8 list \<Rightarrow> bool" where
  "bytes_at m p xs \<longleftrightarrow> (\<forall>i < length xs. m (p + of_nat i) = Some (xs ! i))"

definition writable :: "memory \<Rightarrow> u32 \<Rightarrow> nat \<Rightarrow> bool" where
  "writable m p n \<longleftrightarrow> range_at p n \<subseteq> dom m"

text \<open>A C string: the bytes of \<open>xs\<close>, none of them null, and then a null byte.\<close>

definition cstring_at :: "memory \<Rightarrow> u32 \<Rightarrow> u8 list \<Rightarrow> bool" where
  "cstring_at m p xs \<longleftrightarrow> bytes_at m p (xs @ [0]) \<and> 0 \<notin> set xs \<and> length xs < 2 ^ 32"

lemma range_at_0 [simp]: "range_at p 0 = {}"
  by (simp add: range_at_def)

lemma range_at_Suc: "range_at p (Suc n) = insert (p + of_nat n) (range_at p n)"
  by (simp add: range_at_def lessThan_Suc)

lemma in_range_at [intro]: "i < n \<Longrightarrow> p + of_nat i \<in> range_at p n"
  by (simp add: range_at_def)

lemma offset_eq_iff:
  "i < 2 ^ 32 \<Longrightarrow> j < 2 ^ 32 \<Longrightarrow> p + (of_nat i :: u32) = p + of_nat j \<longleftrightarrow> i = j"
  by (simp add: word_of_nat_eq_iff take_bit_nat_eq_self)

lemma store_eq_Some: "store m a v = Some m' \<longleftrightarrow> a \<in> dom m \<and> m' = m(a \<mapsto> v)"
  by (auto simp: store_def split: option.splits)

lemma store_in_dom [simp]: "a \<in> dom m \<Longrightarrow> store m a v = Some (m(a \<mapsto> v))"
  by (simp add: store_eq_Some)

lemma writable_upd [simp]: "writable m p n \<Longrightarrow> writable (m(a \<mapsto> v)) p n"
  by (auto simp: writable_def)

lemma writableD: "writable m p n \<Longrightarrow> i < n \<Longrightarrow> p + of_nat i \<in> dom m"
  by (auto simp: writable_def)

text \<open>What writing the bytes \<open>xs\<close> from address \<open>p\<close> on does to the whole memory.\<close>

definition write_bytes :: "memory \<Rightarrow> u32 \<Rightarrow> u8 list \<Rightarrow> memory" where
  "write_bytes m p xs a = (if unat (a - p) < length xs then Some (xs ! unat (a - p)) else m a)"

lemma unat_of_nat_u32 [simp]: "i < 2 ^ 32 \<Longrightarrow> unat (of_nat i :: u32) = i"
  by (simp add: unat_of_nat take_bit_nat_eq_self)

lemma in_range_at_iff: "n \<le> 2 ^ 32 \<Longrightarrow> a \<in> range_at p n \<longleftrightarrow> unat (a - p) < n"
proof
  assume "n \<le> 2 ^ 32" "a \<in> range_at p n"
  then show "unat (a - p) < n"
    by (auto simp: range_at_def)
next
  assume "unat (a - p) < n"
  moreover have "a = p + of_nat (unat (a - p))"
    by simp
  ultimately show "a \<in> range_at p n"
    by (metis in_range_at)
qed

lemma write_bytes_Nil [simp]: "write_bytes m p [] = m"
  by (simp add: write_bytes_def fun_eq_iff)

lemma write_bytes_inside:
  "i < length xs \<Longrightarrow> length xs \<le> 2 ^ 32 \<Longrightarrow> write_bytes m p xs (p + of_nat i) = Some (xs ! i)"
  by (simp add: write_bytes_def)

lemma write_bytes_outside:
  "length xs \<le> 2 ^ 32 \<Longrightarrow> a \<notin> range_at p (length xs) \<Longrightarrow> write_bytes m p xs a = m a"
  by (simp add: write_bytes_def in_range_at_iff)

lemma bytes_at_write_bytes:
  "length xs \<le> 2 ^ 32 \<Longrightarrow> bytes_at (write_bytes m p xs) p xs"
  by (simp add: bytes_at_def write_bytes_inside)

lemma bytes_at_write_other:
  "bytes_at m q ys \<Longrightarrow> length xs \<le> 2 ^ 32 \<Longrightarrow> range_at p (length xs) \<inter> range_at q (length ys) = {}
   \<Longrightarrow> bytes_at (write_bytes m p xs) q ys"
  unfolding bytes_at_def by (metis disjoint_iff in_range_at write_bytes_outside)

lemma writable_write_bytes: "writable m q n \<Longrightarrow> writable (write_bytes m p xs) q n"
  by (auto simp: writable_def write_bytes_def dom_def)

lemma write_bytes_snoc:
  assumes "length xs < 2 ^ 32"
  shows "write_bytes (m(p + of_nat (length xs) \<mapsto> c)) p xs = write_bytes m p (xs @ [c])"
proof
  fix a
  show "write_bytes (m(p + of_nat (length xs) \<mapsto> c)) p xs a = write_bytes m p (xs @ [c]) a"
  proof (cases "a = p + of_nat (length xs)")
    case False
    moreover have "a = p + of_nat (unat (a - p))"
      by simp
    ultimately have "unat (a - p) \<noteq> length xs"
      by metis
    with False show ?thesis
      by (simp add: write_bytes_def nth_append)
  qed (use assms in \<open>simp add: write_bytes_def\<close>)
qed

lemma write_bytes_Cons:
  assumes "length xs < 2 ^ 32"
  shows "write_bytes (m(p \<mapsto> c)) (p + 1) xs = write_bytes m p (c # xs)"
proof
  fix a
  show "write_bytes (m(p \<mapsto> c)) (p + 1) xs a = write_bytes m p (c # xs) a"
  proof (cases "a = p")
    case True
    have "unat (- 1 :: u32) = 2 ^ 32 - 1"
      by (simp add: unsigned_minus_1_eq_mask mask_eq_exp_minus_1)
    with True assms show ?thesis
      by (simp add: write_bytes_def)
  next
    case False
    then have "a - p \<noteq> 0"
      by simp
    then have "unat (a - p) = Suc (unat (a - (p + 1)))"
      by (simp add: unat_minus_one diff_diff_add[symmetric] unat_gt_0)
    with False show ?thesis
      by (simp add: write_bytes_def)
  qed
qed

lemma bytes_at_snoc:
  "bytes_at m p (xs @ [c]) \<longleftrightarrow> bytes_at m p xs \<and> m (p + of_nat (length xs)) = Some c"
  by (auto simp: bytes_at_def nth_append less_Suc_eq)

lemma bytes_at_Cons: "bytes_at m p (c # xs) \<longleftrightarrow> m p = Some c \<and> bytes_at m (p + 1) xs"
  by (auto simp: bytes_at_def nth_Cons less_Suc_eq_0_disj algebra_simps split: nat.splits)

lemma bytes_at_append:
  "bytes_at m p (xs @ ys) \<longleftrightarrow> bytes_at m p xs \<and> bytes_at m (p + of_nat (length xs)) ys"
  by (induction xs arbitrary: p) (auto simp: bytes_at_Cons algebra_simps, auto simp: bytes_at_def)

lemma writable_Suc: "writable m p (Suc n) \<longleftrightarrow> p + of_nat n \<in> dom m \<and> writable m p n"
  by (simp add: writable_def range_at_Suc)

subsection \<open>Filling and copying\<close>

lemma memset_from_correct:
  assumes "writable m b n" "n \<le> 2 ^ 32" "i \<le> n"
  shows "memset_from m b c n i = Some (write_bytes m (b + of_nat i) (replicate (n - i) c))"
  using assms
proof (induction m b c n i rule: memset_from.induct)
  case (1 m b c len i)
  show ?case
  proof (cases "i < len")
    case True
    then have "store m (b + of_nat i) c = Some (m(b + of_nat i \<mapsto> c))"
      using 1(2) by (intro store_in_dom) (rule writableD)
    moreover have "replicate (len - i) c = c # replicate (len - Suc i) c"
      using True by (metis Suc_diff_Suc replicate_Suc)
    ultimately show ?thesis
      using True 1 write_bytes_Cons[of "replicate (len - Suc i) c" m "b + of_nat i" c]
      by (subst memset_from.simps) (simp add: algebra_simps)
  next
    case False
    with 1(4) show ?thesis
      by (subst memset_from.simps) simp
  qed
qed

lemma memset_correct:
  "writable m b n \<Longrightarrow> n \<le> 2 ^ 32 \<Longrightarrow> memset m b c n = Some (write_bytes m b (replicate n c))"
  using memset_from_correct[of m b n 0 c] by (simp add: memset_def)

text \<open>
  Copying from the last byte to the first, no byte of the source may be overwritten
  before it is read. This holds if the ranges are disjoint, or if the destination is
  the higher one.
\<close>

definition no_clobber :: "u32 \<Rightarrow> u32 \<Rightarrow> nat \<Rightarrow> bool" where
  "no_clobber dst src n \<longleftrightarrow> (\<forall>j < n. \<forall>i < j. dst + of_nat j \<noteq> src + of_nat i)"

lemma no_clobber_disjoint:
  "range_at dst n \<inter> range_at src n = {} \<Longrightarrow> no_clobber dst src n"
  unfolding no_clobber_def by (metis disjoint_iff in_range_at less_trans)

lemma no_clobber_upwards:
  "k + n \<le> 2 ^ 32 \<Longrightarrow> no_clobber (src + of_nat k) src n"
  unfolding no_clobber_def
  using offset_eq_iff[of _ _ src] by (auto simp: add.assoc simp flip: of_nat_add)

lemma memcpy_correct:
  assumes "bytes_at m src xs" "writable m dst (length xs)" "length xs \<le> 2 ^ 32"
    "no_clobber dst src (length xs)"
  shows "memcpy m dst src (length xs) = Some (write_bytes m dst xs)"
  using assms
proof (induction xs arbitrary: m rule: rev_induct)
  case (snoc c xs)
  let ?m = "m(dst + of_nat (length xs) \<mapsto> c)"
  have "\<forall>i < length xs. src + of_nat i \<noteq> dst + of_nat (length xs)"
    using snoc.prems(4) unfolding no_clobber_def by (metis length_append_singleton lessI)
  then have "bytes_at ?m src xs"
    using snoc.prems(1) by (simp add: bytes_at_snoc) (simp add: bytes_at_def)
  moreover have "no_clobber dst src (length xs)"
    using snoc.prems(4) by (simp add: no_clobber_def)
  ultimately have "memcpy ?m dst src (length xs) = Some (write_bytes ?m dst xs)"
    using snoc.IH[of ?m] snoc.prems by (simp add: writable_Suc del: fun_upd_apply)
  then show ?case
    using snoc.prems write_bytes_snoc[of xs m dst c]
    by (simp add: bytes_at_snoc writable_Suc store_in_dom)
qed simp

text \<open>
  C20: \<^verbatim>\<open>memmove()\<close> copies correctly also when source and destination overlap: it touches only
  memory it was given, and the result is the old memory with the source bytes written
  to its stack buffer and to the destination. (Hypothesis: the stack buffer is disjoint from both.)
\<close>

theorem memmove_correct:
  assumes "bytes_at m src xs" "n = length xs" "n \<le> 2 ^ 32" "writable m buf n" "writable m dst n"
    "range_at buf n \<inter> range_at src n = {}" "range_at buf n \<inter> range_at dst n = {}"
  shows "memmove m buf dst src n = Some (write_bytes (write_bytes m buf xs) dst xs)"
proof -
  have "memcpy m buf src n = Some (write_bytes m buf xs)"
    using assms by (simp add: memcpy_correct no_clobber_disjoint)
  moreover have "memcpy (write_bytes m buf xs) dst buf n
      = Some (write_bytes (write_bytes m buf xs) dst xs)"
    using assms by (simp add: memcpy_correct no_clobber_disjoint bytes_at_write_bytes
        writable_write_bytes Int_commute)
  ultimately show ?thesis
    by (simp add: memmove_def)
qed

subsection \<open>Comparing\<close>

lemma memcmp_correct:
  "bytes_at m l xs \<Longrightarrow> bytes_at m r ys \<Longrightarrow> length ys = length xs \<Longrightarrow>
   memcmp m l r (length xs)
     = Some (if xs = ys then 0 else if (xs, ys) \<in> lexord {(a, b). a < b} then - 1 else 1)"
proof (induction xs arbitrary: l r ys)
  case (Cons x xs)
  then obtain y ys' where ys: "ys = y # ys'" "length ys' = length xs"
    by (cases ys) auto
  moreover have "bytes_at m (l + 1) xs" "m l = Some x" "bytes_at m (r + 1) ys'" "m r = Some y"
    using Cons.prems ys by (simp_all add: bytes_at_Cons)
  ultimately show ?case
    using Cons.IH[of "l + 1" "r + 1" ys'] 
    by (cases x y rule: linorder_cases)
      (simp_all add: order_less_imp_not_eq order_less_imp_not_eq2 order_less_not_sym)
qed simp

lemma cstring_at_Nil: "cstring_at m p [] \<longleftrightarrow> m p = Some 0"
  by (simp add: cstring_at_def bytes_at_def)

lemma cstring_at_Cons:
  "cstring_at m p (x # xs) \<longleftrightarrow>
     m p = Some x \<and> x \<noteq> 0 \<and> cstring_at m (p + 1) xs \<and> Suc (length xs) < 2 ^ 32"
  by (auto simp: cstring_at_def bytes_at_Cons)

lemma cstring_at_append:
  "cstring_at m p (xs @ ys) \<Longrightarrow> cstring_at m (p + of_nat (length xs)) ys"
  by (auto simp: cstring_at_def bytes_at_append)

lemma strlen_from_correct:
  "cstring_at m (p + k) xs \<Longrightarrow> strlen_from m p k = Some (k + of_nat (length xs))"
  by (induction xs arbitrary: k; subst strlen_from.simps)
    (simp_all add: cstring_at_Nil cstring_at_Cons algebra_simps)

lemma strlen_correct: "cstring_at m p xs \<Longrightarrow> strlen m p = Some (of_nat (length xs))"
  using strlen_from_correct[of m p 0 xs] by (simp add: strlen_def)

lemma strcmp_correct:
  "cstring_at m l xs \<Longrightarrow> cstring_at m r ys \<Longrightarrow> \<exists>v. strcmp m l r = Some v \<and> (v = 0 \<longleftrightarrow> xs = ys)"
proof (induction xs arbitrary: l r ys)
  case Nil
  show ?case
  proof (cases ys)
    case (Cons y ys')
    with Nil have "y \<noteq> 0" "m l = Some 0" "m r = Some y"
      by (simp_all add: cstring_at_Nil cstring_at_Cons)
    moreover from this(1) have "sint y \<noteq> 0"
      by (simp add: signed_eq_0_iff)
    ultimately show ?thesis
      using Cons by (subst strcmp.simps) auto
  qed (use Nil in \<open>subst strcmp.simps, simp add: cstring_at_Nil\<close>)
next
  case (Cons x xs)
  then have x: "x \<noteq> 0" "m l = Some x" "cstring_at m (l + 1) xs"
    by (simp_all add: cstring_at_Cons)
  show ?case
  proof (cases ys)
    case Nil
    with Cons.prems have "m r = Some 0"
      by (simp add: cstring_at_Nil)
    moreover from x(1) have "sint x \<noteq> 0"
      by (simp add: signed_eq_0_iff)
    ultimately show ?thesis
      using x Nil by (subst strcmp.simps) auto
  next
    case (Cons y ys')
    with Cons.prems have y: "y \<noteq> 0" "m r = Some y" "cstring_at m (r + 1) ys'"
      by (simp_all add: cstring_at_Cons)
    have "sint x = sint y \<longleftrightarrow> x = y"
      by (metis signed_word_eqI)
    then show ?thesis
      using x y Cons Cons.IH[OF x(3) y(3)] by (subst strcmp.simps) auto
  qed
qed

subsection \<open>Splitting and appending strings\<close>

lemma strsplit_from_correct:
  assumes "cstring_at m p xs" "delim \<noteq> 0"
  shows "strsplit_from m p delim =
     (if delim \<in> set xs
      then let k = of_nat (length (takeWhile (\<lambda>c. c \<noteq> delim) xs))
           in Some (m(p + k \<mapsto> 0), p + k + 1)
      else Some (m, 0))"
  using assms
proof (induction xs arbitrary: p)
  case Nil
  then show ?case
    by (subst strsplit_from.simps) (simp add: cstring_at_Nil)
next
  case (Cons x xs)
  then show ?case
    by (subst strsplit_from.simps)
      (auto simp: cstring_at_Cons store_in_dom domI Let_def algebra_simps)
qed

lemma strlcat_copy_correct:
  assumes "bytes_at m src xs" "writable m dst (length xs)" "length xs \<le> 2 ^ 32"
    "range_at dst (length xs) \<inter> range_at src (length xs) = {}" "i \<le> length xs"
  shows "strlcat_copy m dst src (length xs) i = Some (write_bytes m (dst + of_nat i) (drop i xs))"
  using assms
proof (induction "length xs - i" arbitrary: i m)
  case 0
  then show ?case
    by (subst strlcat_copy.simps) simp
next
  case (Suc k)
  let ?m = "m(dst + of_nat i \<mapsto> xs ! i)"
  have i: "i < length xs"
    using Suc.hyps(2) by simp
  have "\<forall>j < length xs. src + of_nat j \<noteq> dst + of_nat i"
    using Suc.prems(4) i by (metis disjoint_iff in_range_at)
  then have "bytes_at ?m src xs"
    using Suc.prems(1) by (simp add: bytes_at_def)
  then have "strlcat_copy ?m dst src (length xs) (Suc i)
      = Some (write_bytes ?m (dst + of_nat (Suc i)) (drop (Suc i) xs))"
    using Suc.hyps(1)[of "Suc i" ?m] Suc.prems Suc.hyps(2) i by (simp del: fun_upd_apply)
  moreover have "m (src + of_nat i) = Some (xs ! i)" "dst + of_nat i \<in> dom m"
    using Suc.prems(1,2) i by (simp_all add: bytes_at_def writableD)
  moreover have "write_bytes ?m (dst + of_nat (Suc i)) (drop (Suc i) xs)
      = write_bytes m (dst + of_nat i) (drop i xs)"
    using write_bytes_Cons[of "drop (Suc i) xs" m "dst + of_nat i" "xs ! i"] Suc.prems(3) i
    by (simp add: Cons_nth_drop_Suc algebra_simps)
  ultimately show ?case
    using i by (subst strlcat_copy.simps) simp
qed

lemma write_bytes_last:
  assumes "length us < 2 ^ 32"
  shows "(write_bytes m p (us @ [c]))(p + of_nat (length us) \<mapsto> d) = write_bytes m p (us @ [d])"
proof
  fix a
  show "((write_bytes m p (us @ [c]))(p + of_nat (length us) \<mapsto> d)) a = write_bytes m p (us @ [d]) a"
  proof (cases "a = p + of_nat (length us)")
    case False
    moreover have "a = p + of_nat (unat (a - p))"
      by simp
    ultimately have "unat (a - p) \<noteq> length us"
      by metis
    with False show ?thesis
      by (simp add: write_bytes_def nth_append)
  qed (use assms in \<open>simp add: write_bytes_def\<close>)
qed

lemma range_at_shift_subset:
  "k + n \<le> N \<Longrightarrow> range_at (p + of_nat k) n \<subseteq> range_at p N"
  unfolding range_at_def
  by (auto simp: add.assoc simp flip: of_nat_add intro!: image_eqI[where x = "k + _"])

lemma range_at_mono: "n \<le> N \<Longrightarrow> range_at p n \<subseteq> range_at p N"
  using range_at_shift_subset[of 0 n N p] by simp

lemma range_at_split_disjoint:
  "k + n \<le> 2 ^ 32 \<Longrightarrow> range_at (p + of_nat k) n \<inter> range_at p k = {}"
  unfolding range_at_def
  using offset_eq_iff[of _ _ p] by (auto simp: add.assoc simp flip: of_nat_add)

lemma writable_shift: "writable m p N \<Longrightarrow> k + n \<le> N \<Longrightarrow> writable m (p + of_nat k) n"
  unfolding writable_def using range_at_shift_subset by blast

text \<open>The body of \<^verbatim>\<open>strlcat\<close> after the two lengths are known.\<close>

lemma strlcat_write:
  assumes src: "bytes_at m src (ys @ [0])" and wr: "writable m dst N" and N: "N < 2 ^ 32"
    and len: "l < N" and dis: "range_at dst N \<inter> range_at src (Suc (length ys)) = {}"
    and k: "k = min (N - l) (Suc (length ys))"
  shows "do { m' \<leftarrow> strlcat_copy m (dst + of_nat l) src k 0;
              store m' (dst + of_nat l + of_nat (k - 1)) 0 }
         = Some (write_bytes m (dst + of_nat l) (take (k - 1) ys @ [0]))"
proof -
  define us where "us = take (k - 1) ys"
  define p where "p = dst + of_nat l"
  have k1: "k = Suc (length us)" "Suc (length us) < 2 ^ 32"
    using k len N by (auto simp: us_def)
  define c where "c = (ys @ [0]) ! length us"
  have us: "length us \<le> length ys" "take (length us) ys = us"
    by (simp_all add: us_def min_def)
  then have c: "take k (ys @ [0]) = us @ [c]"
    unfolding k1(1) by (subst take_Suc_conv_app_nth) (simp_all add: c_def)
  have b: "bytes_at m src (us @ [c])"
    using src append_take_drop_id[of k "ys @ [0]"] by (metis bytes_at_append c)
  have w: "writable m p (length (us @ [c]))"
    using wr k k1 unfolding p_def by (elim writable_shift) simp
  have "range_at p (length (us @ [c])) \<subseteq> range_at dst N"
    using k k1 unfolding p_def by (intro range_at_shift_subset) simp
  moreover have "range_at src (length (us @ [c])) \<subseteq> range_at src (Suc (length ys))"
    using k k1 by (intro range_at_mono) simp
  ultimately have "strlcat_copy m p src (length (us @ [c])) 0
      = Some (write_bytes m (p + of_nat 0) (drop 0 (us @ [c])))"
    using dis k1 by (intro strlcat_copy_correct[OF b w]) auto
  moreover have "p + of_nat (length us) \<in> dom (write_bytes m p (us @ [c]))"
    using k1 by (simp add: write_bytes_def domIff)
  ultimately show ?thesis
    using write_bytes_last[of us m p c 0] k1 unfolding p_def us_def by simp
qed

text \<open>
  C21: \<^verbatim>\<open>strlcat()\<close> on a destination whose string is shorter than its size \<open>n\<close>: the result is a
  null-terminated string that consists of the old string and as much of the source as
  fits, no byte outside the destination changes, and the return value is the length the whole string would have.
\<close>

theorem strlcat_correct:
  assumes dst: "cstring_at m dst xs" and src: "cstring_at m src ys"
    and wr: "writable m dst (unat n)" and len: "length xs < unat n"
    and dis: "range_at dst (unat n) \<inter> range_at src (Suc (length ys)) = {}"
    and ys: "Suc (length ys) < 2 ^ 32"
  shows "\<exists>m'. strlcat m dst src n = Some (m', of_nat (length xs + length ys))
      \<and> cstring_at m' dst (xs @ take (unat n - length xs - 1) ys)
      \<and> (\<forall>a. a \<notin> range_at dst (unat n) \<longrightarrow> m' a = m a)"
proof -
  define N where "N = unat n"
  define k where "k = min (N - length xs) (Suc (length ys))"
  define zs where "zs = take (k - 1) ys @ [0]"
  define m' where "m' = write_bytes m (dst + of_nat (length xs)) zs"
  have N: "N < 2 ^ 32" and n: "n = of_nat N"
    by (simp_all add: N_def)
  have "length xs \<le> N"
    using len by (simp add: N_def)
  then have diff: "n - of_nat (length xs) = of_nat (N - length xs)"
    by (subst n) (simp only: of_nat_diff)
  have "of_nat (length ys) + 1 < (of_nat (N - length xs) :: u32) \<longleftrightarrow> Suc (length ys) < N - length xs"
    using N ys unat_of_nat_u32[of "Suc (length ys)"] unat_of_nat_u32[of "N - length xs"]
    by (simp add: word_less_nat_alt add.commute)
  then have tc: "(if of_nat (length ys) + 1 < n - of_nat (length xs) then of_nat (length ys) + 1
        else n - of_nat (length xs)) = (of_nat k :: u32)"
    unfolding diff by (simp add: k_def min_def)
  have k: "0 < k" "k < 2 ^ 32" "length xs + k \<le> N" "length zs = k"
    using len ys N unfolding N_def[symmetric] by (auto simp: k_def zs_def)
  have "do { m' \<leftarrow> strlcat_copy m (dst + of_nat (length xs)) src k 0;
             store m' (dst + of_nat (length xs) + of_nat (k - 1)) 0 } = Some m'"
    using src wr len dis N k_def unfolding m'_def zs_def N_def[symmetric] cstring_at_def
    by (intro strlcat_write) simp_all
  then obtain m1 where m1: "strlcat_copy m (dst + of_nat (length xs)) src k 0 = Some m1"
      "store m1 (dst + of_nat (length xs) + of_nat (k - 1)) 0 = Some m'"
    by (auto simp: bind_eq_Some_iff)
  have "dst + (of_nat (length xs) + of_nat k - 1) = dst + of_nat (length xs) + of_nat (k - 1)"
    using k(1) by (simp add: of_nat_diff)
  then have run: "strlcat m dst src n = Some (m', of_nat (length xs + length ys))"
    using k(2) m1 unfolding strlcat_def strlen_correct[OF dst] strlen_correct[OF src] Let_def
    by (simp only: bind.bind_lunit tc) simp
  have "length zs \<le> 2 ^ 32" "length xs + length zs \<le> 2 ^ 32"
    using k N by simp_all
  then have "bytes_at m' dst xs" "bytes_at m' (dst + of_nat (length xs)) zs"
    using dst unfolding m'_def
    by (auto intro!: bytes_at_write_other bytes_at_write_bytes range_at_split_disjoint
        simp: cstring_at_def bytes_at_append)
  moreover have "take (k - 1) ys = take (N - length xs - 1) ys"
    by (simp add: k_def min_def) 
  ultimately have "cstring_at m' dst (xs @ take (N - length xs - 1) ys)"
    using dst src k N by (auto simp: cstring_at_def bytes_at_append zs_def dest: in_set_takeD)
  moreover have "\<forall>a. a \<notin> range_at dst N \<longrightarrow> m' a = m a"
    using range_at_shift_subset[OF k(3), of dst] k(2,4) unfolding m'_def
    by (auto intro!: write_bytes_outside)
  ultimately show ?thesis
    using run unfolding N_def by blast
qed

subsection \<open>Concrete runs\<close>

definition sample_memory :: memory where
  "sample_memory a = (if a < 32 then Some (ucast a) else if a < 64 then Some 0 else None)"

lemma sample_bytes:
  "bytes_at sample_memory 8 [8, 9, 10, 11]" "writable sample_memory 32 4" "writable sample_memory 10 4"
  "range_at 32 4 \<inter> range_at 8 4 = {}" "range_at 32 4 \<inter> range_at 10 4 = {}"
proof -
  have four: "4 = Suc (Suc (Suc (Suc 0)))"
    by simp
  have nil: "bytes_at m p []" "writable m p 0" for m p
    by (simp_all add: bytes_at_def writable_def)
  show "bytes_at sample_memory 8 [8, 9, 10, 11]"
    by (simp add: bytes_at_Cons nil sample_memory_def)
  show "writable sample_memory 32 4" "writable sample_memory 10 4"
    unfolding four by (simp_all add: writable_Suc nil sample_memory_def domIff)
  show "range_at 32 4 \<inter> range_at 8 4 = {}" "range_at 32 4 \<inter> range_at 10 4 = {}"
    unfolding four by (simp_all add: range_at_Suc)
qed

theorem memmove_overlap_witness:
  "\<exists>m'. memmove sample_memory 32 10 8 4 = Some m' \<and> m' 10 = Some 8 \<and> m' 13 = Some 11 \<and> m' 14 = Some 14"
  using memmove_correct[OF sample_bytes(1) _ _ sample_bytes(2-)]
  by (simp add: write_bytes_def sample_memory_def)


definition sample_strings :: memory where
  "sample_strings =
     write_bytes (write_bytes Map.empty 100 [65, 66, 0, 0, 0, 0, 0, 0]) 200 [99, 100, 101, 102, 0]"

theorem strlcat_witness:
  "\<exists>m'. strlcat sample_strings 100 200 5 = Some (m', 6) \<and> cstring_at m' 100 [65, 66, 99, 100]"
proof -
  have five: "unat (5 :: u32) = Suc (Suc (Suc (Suc (Suc 0))))"
    by simp
  have nil: "bytes_at m p []" "writable m p 0" for m p
    by (simp_all add: bytes_at_def writable_def)
  have dst: "cstring_at sample_strings 100 [65, 66]" and src: "cstring_at sample_strings 200 [99, 100, 101, 102]"
    by (simp_all add: cstring_at_def bytes_at_Cons nil sample_strings_def write_bytes_def)
  have wr: "writable sample_strings 100 (unat (5 :: u32))"
    unfolding five by (simp add: writable_Suc nil sample_strings_def write_bytes_def domIff)
  have dis: "range_at 100 (unat (5 :: u32)) \<inter> range_at 200 (Suc (length [99, 100, 101, 102 :: u8])) = {}"
    unfolding five by (simp add: range_at_Suc)
  show ?thesis
    using strlcat_correct[OF dst src wr _ dis] by auto
qed

end
