(* ===== verification/Numeric.thy ===== *)
theory Numeric
  imports Cosix_Prelude
begin

text \<open>
  Numbers as text: \<^verbatim>\<open>oslibc/numeric.c\<close>, the character classes of \<^verbatim>\<open>oslibc/ctype.cpp\<close> and the
  UUIDs of \<^verbatim>\<open>oslibc/uuid.hpp\<close>. A buffer is a list of bytes and a position in it a natural number; a
  string argument is the list of the bytes before its null byte. Values keep their
  64 bits. The multiplication and addition of \<^verbatim>\<open>atoi64_s\<close> are written with the
  wrap-around of the machine; the lemmas only use them where they do not overflow.
\<close>

subsection \<open>numeric.c\<close>

definition xlat :: "u8 list" where
  "xlat = map of_nat ([48..<58] @ [97..<123])"

fun ui64toa_loop :: "u64 \<Rightarrow> u8 list \<Rightarrow> nat \<Rightarrow> u64 \<Rightarrow> u8 list \<times> nat option" where
  "ui64toa_loop val buffer 0 base = (buffer, None)"
| "ui64toa_loop val buffer (Suc i) base =
     (let buffer' = buffer[i := xlat ! unat (val mod base)];
          val' = val div base
      in if val' \<noteq> 0 then ui64toa_loop val' buffer' i base else (buffer', Some i))"

definition ui64toa_s :: "u64 \<Rightarrow> u8 list \<Rightarrow> nat \<Rightarrow> int \<Rightarrow> u8 list \<times> nat option" where
  "ui64toa_s val buffer bufsize base =
     (if bufsize = 0 \<or> base \<le> 0 \<or> base > 36 then (buffer, None)
      else ui64toa_loop val (buffer[bufsize - 1 := 0]) (bufsize - 1) (of_int base))"

definition i64toa_s :: "u64 \<Rightarrow> u8 list \<Rightarrow> nat \<Rightarrow> int \<Rightarrow> u8 list \<times> nat option" where
  "i64toa_s val buffer bufsize base =
     (let neg = sint val < 0;
          val' = (if neg then - val else val)
      in case ui64toa_s val' buffer bufsize base of
           (buffer', None) \<Rightarrow> (buffer', None)
         | (buffer', Some b) \<Rightarrow>
             if b = 0 \<and> neg then (buffer', None)
             else if neg then (buffer'[b - 1 := 0x2d], Some (b - 1))
             else (buffer', Some b))"

definition uitoa_s :: "u32 \<Rightarrow> u8 list \<Rightarrow> nat \<Rightarrow> int \<Rightarrow> u8 list \<times> nat option" where
  "uitoa_s val buffer bufsize base = ui64toa_s (ucast val) buffer bufsize base"

definition itoa_s :: "u32 \<Rightarrow> u8 list \<Rightarrow> nat \<Rightarrow> int \<Rightarrow> u8 list \<times> nat option" where
  "itoa_s val buffer bufsize base = i64toa_s (scast val) buffer bufsize base"

text \<open>The digit of a character, \<^term>\<open>None\<close> for the \<^verbatim>\<open>return false\<close> branches of the loop body.\<close>

definition atoi_digit :: "u8 \<Rightarrow> int \<Rightarrow> u8 option" where
  "atoi_digit c base =
     (let digit =
        (if sint c \<ge> 0x61 then Some (c - 0x57)
         else if sint c \<ge> 0x41 then Some (c - 0x37)
         else if sint c \<ge> 0x30 then Some (c - 0x30)
         else None)
      in case digit of None \<Rightarrow> None | Some d \<Rightarrow> if sint d \<ge> base then None else Some d)"

fun atoi64_loop :: "u8 list \<Rightarrow> u64 \<Rightarrow> int \<Rightarrow> u64 option" where
  "atoi64_loop [] val base = Some val"
| "atoi64_loop (c # str) val base =
     (case atoi_digit c base of
        None \<Rightarrow> None
      | Some digit \<Rightarrow>
          let val' = val * of_int base + scast digit
          in if sint val' < sint val then None else atoi64_loop str val' base)"

definition atoi64_s :: "u8 list \<Rightarrow> int \<Rightarrow> u64 option" where
  "atoi64_s str base =
     (if base \<le> 0 \<or> base > 36 then None
      else let negative = (str \<noteq> [] \<and> hd str = 0x2d);
               str' = (if negative then tl str else str)
           in if str' = [] then None
              else map_option (\<lambda>val. if negative then - val else val) (atoi64_loop str' 0 base))"

definition atoi_s :: "u8 list \<Rightarrow> int \<Rightarrow> u32 option" where
  "atoi_s str base =
     (case atoi64_s str base of
        None \<Rightarrow> None
      | Some value64 \<Rightarrow>
          if sint value64 > 0x7fffffff \<or> sint value64 < - 0x7fffffff then None
          else Some (ucast value64))"

subsection \<open>ctype.cpp\<close>

definition isupper :: "int \<Rightarrow> bool" where
  "isupper c \<longleftrightarrow> c \<ge> 0x41 \<and> c \<le> 0x5a"

definition islower :: "int \<Rightarrow> bool" where
  "islower c \<longleftrightarrow> c \<ge> 0x61 \<and> c \<le> 0x7a"

definition isalpha :: "int \<Rightarrow> bool" where
  "isalpha c \<longleftrightarrow> isupper c \<or> islower c"

definition isdigit :: "int \<Rightarrow> bool" where
  "isdigit c \<longleftrightarrow> c \<ge> 0x30 \<and> c \<le> 0x39"

subsection \<open>uuid.hpp\<close>

definition UUID_LEN :: nat where
  "UUID_LEN = 36"

text \<open>The random bytes that \<^verbatim>\<open>get_random()->get()\<close> leaves in the buffer are the argument.\<close>

definition generate_random_uuid :: "u8 list \<Rightarrow> u8 list option" where
  "generate_random_uuid buf =
     do {
       kassert (length buf = 16);
       let buf1 = buf[6 := (buf ! 6 AND 0x0f) OR 0x40];
       Some (buf1[8 := (buf1 ! 8 AND 0x3f) OR 0x80])
     }"

definition uuid_dash :: "nat \<Rightarrow> bool" where
  "uuid_dash i \<longleftrightarrow> i = 4 \<or> i = 6 \<or> i = 8 \<or> i = 10"

definition uuid_byte_to_string :: "u8 \<Rightarrow> u8 list option" where
  "uuid_byte_to_string v =
     (case uitoa_s (ucast v) (replicate 8 0) 8 16 of
        (b, None) \<Rightarrow> None
      | (b, Some p) \<Rightarrow>
          do {
            kassert (b ! p \<noteq> 0);
            if b ! (p + 1) = 0 then Some [0x30, b ! p]
            else do { kassert (b ! (p + 2) = 0); Some [b ! p, b ! (p + 1)] }
          })"

fun uuid_to_string_loop :: "u8 list \<Rightarrow> nat \<Rightarrow> u8 list \<Rightarrow> u8 list option" where
  "uuid_to_string_loop [] i buf = Some buf"
| "uuid_to_string_loop (v # uuid) i buf =
     do {
       let buf1 = (if uuid_dash i then buf @ [0x2d] else buf);
       h \<leftarrow> uuid_byte_to_string v;
       uuid_to_string_loop uuid (Suc i) (buf1 @ h)
     }"

definition uuid_to_string :: "u8 list \<Rightarrow> nat \<Rightarrow> u8 list option" where
  "uuid_to_string uuid bufsize =
     do {
       kassert (length uuid = 16);
       kassert (bufsize > UUID_LEN);
       buf \<leftarrow> uuid_to_string_loop uuid 0 [];
       kassert (length buf = UUID_LEN);
       kassert (length buf + 1 \<le> bufsize);
       Some (buf @ [0])
     }"

text \<open>
  The value of the conversion loop is \<^term>\<open>None\<close> for \<^verbatim>\<open>return false\<close>, and otherwise the bytes of
  the UUID and the rest of the buffer. The outer option of \<open>string_to_uuid\<close> is a failed assertion.
\<close>

fun string_to_uuid_loop :: "nat \<Rightarrow> u8 list \<Rightarrow> nat \<Rightarrow> u8 list \<Rightarrow> (u8 list \<times> u8 list) option" where
  "string_to_uuid_loop 0 buf i uuid = Some (uuid, buf)"
| "string_to_uuid_loop (Suc n) buf i uuid =
     (if uuid_dash i \<and> hd buf \<noteq> 0x2d then None
      else let buf1 = (if uuid_dash i then tl buf else buf);
               b0 = hd buf1; b1 = hd (tl buf1)
           in if \<not> isalpha (sint b0) \<and> \<not> isdigit (sint b0) then None
              else if \<not> isalpha (sint b1) \<and> \<not> isdigit (sint b1) then None
              else case atoi_s [b0, b1] 16 of
                     None \<Rightarrow> None
                   | Some val \<Rightarrow>
                       string_to_uuid_loop n (tl (tl buf1)) (Suc i) (uuid @ [ucast (val AND 0xff)]))"

definition string_to_uuid :: "u8 list \<Rightarrow> nat \<Rightarrow> u8 list option option" where
  "string_to_uuid buf uuidsize =
     (if length buf < UUID_LEN then Some None
      else do {
        kassert (uuidsize = 16);
        case string_to_uuid_loop 16 buf 0 [] of
          None \<Rightarrow> Some None
        | Some (uuid, rest) \<Rightarrow>
            do {
              kassert (length buf - length rest = UUID_LEN);
              Some (if length buf = UUID_LEN \<or> hd rest = 0 then Some uuid else None)
            }
      })"

subsection \<open>Printing\<close>

fun digits_of :: "nat \<Rightarrow> nat \<Rightarrow> nat list" where
  "digits_of b n = (if n < b \<or> b < 2 then [n] else digits_of b (n div b) @ [n mod b])"

declare digits_of.simps [simp del]

lemma digits_of_nonempty [simp]: "digits_of b n \<noteq> []"
  by (subst digits_of.simps) simp

lemma digits_of_less: "2 \<le> b \<Longrightarrow> d \<in> set (digits_of b n) \<Longrightarrow> d < b"
proof (induction b n rule: digits_of.induct)
  case (1 b n)
  then show ?case
    by (subst (asm) digits_of.simps) (auto split: if_splits)
qed

lemma digits_of_value: "2 \<le> b \<Longrightarrow> foldl (\<lambda>a d. a * b + d) 0 (digits_of b n) = n"
proof (induction b n rule: digits_of.induct)
  case (1 b n)
  then show ?case
    by (subst digits_of.simps) simp
qed

lemma length_digits_of: "2 \<le> b \<Longrightarrow> n < b ^ Suc k \<Longrightarrow> length (digits_of b n) \<le> Suc k"
proof (induction k arbitrary: n)
  case 0
  then show ?case
    by (subst digits_of.simps) simp
next
  case (Suc k)
  then have "n div b < b ^ Suc k"
    by (simp add: less_mult_imp_div_less mult.commute)
  with Suc.IH[of "n div b"] Suc.prems(1) show ?case
    by (subst digits_of.simps) simp
qed

lemma ui64toa_loop_correct:
  assumes "2 \<le> unat base" "ds = digits_of (unat base) (unat val)" "i \<le> length buffer"
  shows "if length ds \<le> i
         then ui64toa_loop val buffer i base
                = (take (i - length ds) buffer @ map (\<lambda>d. xlat ! d) ds @ drop i buffer, Some (i - length ds))
         else snd (ui64toa_loop val buffer i base) = None"
  using assms
proof (induction i arbitrary: val buffer ds)
  case (Suc i)
  let ?b = "unat base" and ?n = "unat val"
  let ?buf = "buffer[i := xlat ! unat (val mod base)]"
  have nz: "val div base \<noteq> 0 \<longleftrightarrow> ?b \<le> ?n"
    using Suc.prems(1) by (auto simp: unat_eq_0[symmetric] unat_div div_eq_0_iff simp del: unat_eq_0)
  have m: "unat (val mod base) = ?n mod ?b" and d: "unat (val div base) = ?n div ?b"
    by (simp_all add: unat_mod unat_div)
  show ?case
  proof (cases "?b \<le> ?n")
    case True
    define ds' where "ds' = digits_of ?b (?n div ?b)"
    have ds: "ds = ds' @ [?n mod ?b]"
      using Suc.prems(1,2) True unfolding ds'_def by (subst (asm) digits_of.simps) simp
    have "drop i ?buf = (xlat ! (?n mod ?b)) # drop (Suc i) buffer"
      using Suc.prems(3) by (simp add: m Cons_nth_drop_Suc[symmetric])
    moreover have "if length ds' \<le> i
        then ui64toa_loop (val div base) ?buf i base
               = (take (i - length ds') ?buf @ map (\<lambda>d. xlat ! d) ds' @ drop i ?buf, Some (i - length ds'))
        else snd (ui64toa_loop (val div base) ?buf i base) = None"
      using Suc.IH[of ds' "val div base" ?buf] Suc.prems(1,3) d ds'_def by simp
    moreover have "ui64toa_loop val buffer (Suc i) base = ui64toa_loop (val div base) ?buf i base"
      using True nz by (simp add: Let_def)
    ultimately show ?thesis
      unfolding ds by auto
  next
    case False
    then have ds: "ds = [?n]"
      using Suc.prems(2) by (subst (asm) digits_of.simps) simp
    have "buffer[i := xlat ! ?n] = take i buffer @ (xlat ! ?n) # drop (Suc i) buffer"
      using Suc.prems(3) by (simp add: upd_conv_take_nth_drop)
    then show ?thesis
      using False nz by (simp add: ds Let_def m)
  qed
qed simp

lemma unat_of_int_base: "0 \<le> base \<Longrightarrow> base \<le> 36 \<Longrightarrow> unat (of_int base :: u64) = nat base"
  by (simp add: unat_eq_nat_uint uint_word_of_int)

lemma ui64toa_s_correct:
  assumes "2 \<le> base" "base \<le> 36" "length buffer = bufsize"
    "ds = digits_of (nat base) (unat val)"
  shows "if length ds < bufsize
         then ui64toa_s val buffer bufsize base
                = (take (bufsize - 1 - length ds) buffer @ map (\<lambda>d. xlat ! d) ds @ [0],
                   Some (bufsize - 1 - length ds))
         else snd (ui64toa_s val buffer bufsize base) = None"
proof (cases "bufsize = 0")
  case True
  with assms show ?thesis
    by (simp add: ui64toa_s_def)
next
  case False
  then obtain n where n: "bufsize = Suc n"
    by (cases bufsize) auto
  with assms(3) have buf: "length (buffer[n := 0]) = Suc n" "drop n (buffer[n := 0]) = [0]"
    by (simp_all add: drop_update_swap drop_update_cancel flip: Cons_nth_drop_Suc)
  have "2 \<le> unat (of_int base :: u64)"
    using assms(1,2) by (simp add: unat_of_int_base)
  from ui64toa_loop_correct[OF this, of ds val n "buffer[n := 0]"] assms(1-2,4) buf n show ?thesis
    by (auto simp: ui64toa_s_def unat_of_int_base less_Suc_eq_le)
qed

subsection \<open>Parsing what was printed\<close>

lemma all_digits: "(\<forall>d \<in> {..<36}. P d) \<longleftrightarrow> (\<forall>d \<in> set [0..<36]. P (d :: nat))"
  by (simp add: atLeast0LessThan)

lemma xlat_nonzero_code:
  "\<forall>d \<in> set [0..<36]. xlat ! d \<noteq> 0 \<and> xlat ! d \<noteq> 0x2d \<and> sint (xlat ! d) \<ge> 0"
  by code_simp

lemma atoi_digit_code:
  "\<forall>d \<in> set [0..<36].
     (case atoi_digit (xlat ! d) 36 of
        None \<Rightarrow> False
      | Some v \<Rightarrow> sint v = int d \<and> (scast v :: u64) = of_nat d)"
  by code_simp

lemma atoi_digit_base:
  "atoi_digit c 36 = Some v \<Longrightarrow> sint v < base \<Longrightarrow> base \<le> 36 \<Longrightarrow> atoi_digit c base = Some v"
  by (auto simp: atoi_digit_def Let_def split: if_splits)

lemma atoi_digit_xlat:
  assumes "d < nat base" "base \<le> 36"
  obtains v where "atoi_digit (xlat ! d) base = Some v" "(scast v :: u64) = of_nat d"
proof -
  have "d \<in> set [0..<36]"
    using assms by simp
  from bspec[OF atoi_digit_code this] obtain v where
    v: "atoi_digit (xlat ! d) 36 = Some v" "sint v = int d" "(scast v :: u64) = of_nat d"
    by (auto split: option.splits)
  moreover have "sint v < base"
    using v(2) assms(1) by simp
  ultimately show thesis
    using assms(2) that atoi_digit_base by blast
qed

lemma foldl_digits_ge: "1 \<le> b \<Longrightarrow> x \<le> foldl (\<lambda>a d. a * b + d) x ds" for x b :: nat
proof (induction ds arbitrary: x)
  case (Cons d ds)
  have "x \<le> x * b + d"
    using Cons.prems by (metis le_add1 le_trans mult.right_neutral mult_le_mono2)
  also have "\<dots> \<le> foldl (\<lambda>a d. a * b + d) (x * b + d) ds"
    using Cons by blast
  finally show ?case
    by simp
qed simp


lemma minus_small:
  assumes "sint (v :: u64) < 0" "sint v \<noteq> - (2 ^ 63)"
  shows "unat (- v) < 2 ^ 63"
proof -
  have "uint v \<ge> 2 ^ 63" "uint v \<noteq> 2 ^ 63" "uint v < 2 ^ 64"
    using assms uint_lt2p[of v] by (auto simp: sint_uint_64 split: if_splits)
  then have "uint (- v) < 2 ^ 63"
    by (simp add: uint_word_ariths zmod_zminus1_eq_if)
  then show ?thesis
    by (metis of_nat_less_numeral_power_cancel_iff uint_nat)
qed
lemma nonneg_small:
  assumes "\<not> sint (v :: u64) < 0"
  shows "unat v < 2 ^ 63"
proof -
  have "uint v < 2 ^ 63"
    using assms uint_lt2p[of v] by (auto simp: sint_uint_64 split: if_splits)
  then show ?thesis
    by (metis of_nat_less_numeral_power_cancel_iff uint_nat)
qed

lemma atoi64_loop_digits:
  assumes "1 \<le> base" "base \<le> 36" "\<forall>d \<in> set ds. d < nat base"
    "foldl (\<lambda>a d. a * nat base + d) (unat v) ds < 2 ^ 63"
  shows "atoi64_loop (map (\<lambda>d. xlat ! d) ds) v base
           = Some (of_nat (foldl (\<lambda>a d. a * nat base + d) (unat v) ds))"
  using assms(3-)
proof (induction ds arbitrary: v)
  case (Cons d ds)
  let ?n = "unat v * nat base + d"
  let ?v = "v * of_int base + of_nat d :: u64"
  have le: "?n \<le> foldl (\<lambda>a d. a * nat base + d) ?n ds"
    using assms(1) by (intro foldl_digits_ge) simp
  then have n: "?n < 2 ^ 63"
    using Cons.prems(2) by simp
  have "?v = of_nat ?n"
    using assms(1) by simp
  then have "unat ?v = ?n mod 2 ^ 64"
    by (simp only: unat_of_nat) simp
  also have "\<dots> = ?n"
    using n by simp
  finally have v: "unat ?v = ?n" .
  have "unat v \<le> ?n"
    using assms(1) by (metis le_add1 le_trans mult.right_neutral mult_le_mono2 nat_mono nat_1 One_nat_def)
  moreover have "sint ?v = int ?n" "sint v = int (unat v)"
    using n v calculation by (simp_all only: sint_small le_less_trans)
  ultimately have ge: "\<not> sint ?v < sint v"
    by (simp only: not_less of_nat_le_iff)
  obtain x where "atoi_digit (xlat ! d) base = Some x" "(scast x :: u64) = of_nat d"
    using Cons.prems(1) assms(2) by (auto elim: atoi_digit_xlat)
  moreover have "atoi64_loop (map (\<lambda>d. xlat ! d) ds) ?v base
      = Some (of_nat (foldl (\<lambda>a d. a * nat base + d) ?n ds))"
    using Cons.IH[of ?v] Cons.prems v by simp
  ultimately show ?case
    using ge by simp
qed simp

lemma atoi64_s_digits:
  assumes "2 \<le> base" "base \<le> 36" "unat v < 2 ^ 63"
  shows "atoi64_loop (map (\<lambda>d. xlat ! d) (digits_of (nat base) (unat v))) 0 base = Some v"
proof -
  have b: "2 \<le> nat base"
    using assms(1) by simp
  show ?thesis
    using atoi64_loop_digits[of base "digits_of (nat base) (unat v)" 0] assms
    by (simp add: digits_of_value[OF b] digits_of_less[OF b])
qed

lemma hd_digits_not_minus:
  assumes "2 \<le> base" "base \<le> 36"
  shows "0 \<notin> set (map (\<lambda>d. xlat ! d) (digits_of (nat base) n))"
    "hd (map (\<lambda>d. xlat ! d) (digits_of (nat base) n)) \<noteq> 0x2d"
proof -
  have "\<forall>d \<in> set (digits_of (nat base) n). d < 36"
    using assms digits_of_less[of "nat base" _ n] by fastforce
  then have "\<forall>d \<in> set (digits_of (nat base) n). d \<in> set [0..<36]"
    by simp
  then have *: "\<forall>d \<in> set (digits_of (nat base) n). xlat ! d \<noteq> 0 \<and> xlat ! d \<noteq> 0x2d"
    using xlat_nonzero_code by blast
  then show "0 \<notin> set (map (\<lambda>d. xlat ! d) (digits_of (nat base) n))"
    by auto
  show "hd (map (\<lambda>d. xlat ! d) (digits_of (nat base) n)) \<noteq> 0x2d"
    using * by (simp add: hd_map)
qed

text \<open>
  C22: Printing a 64-bit number with \<^verbatim>\<open>i64toa_s\<close> in a base from 2 to 36 and a buffer of at least 66 bytes succeeds, and
  parsing the printed string with \<^verbatim>\<open>atoi64_s\<close> in the same base gives the number back. (The
  smallest negative number is excluded: its absolute value does not fit, and parsing rejects it.)
\<close>

theorem atoi64_i64toa:
  assumes "2 \<le> base" "base \<le> 36" "length buffer = bufsize" "66 \<le> bufsize"
    "sint v \<noteq> - (2 ^ 63)"
  shows "\<exists>buf p s. i64toa_s v buffer bufsize base = (buf, Some p) \<and> length buf = bufsize
           \<and> drop p buf = s @ [0] \<and> 0 \<notin> set s \<and> atoi64_s s base = Some v"
proof -
  define w where "w = (if sint v < 0 then - v else v)"
  define ds where "ds = digits_of (nat base) (unat w)"
  define cs where "cs = map (\<lambda>d. xlat ! d) ds"
  have b: "2 \<le> nat base"
    using assms(1) by simp
  have w: "unat w < 2 ^ 63"
    using minus_small[of v] nonneg_small[of v] assms(5) by (simp add: w_def)
  moreover have "(2 :: nat) ^ 64 \<le> nat base ^ Suc 63"
    using power_mono[OF b, of 64] by simp
  moreover have "unat w < 2 ^ 64"
    using w by simp
  ultimately have "length ds \<le> Suc 63"
    unfolding ds_def by (intro length_digits_of[OF b]) (rule order_less_le_trans)
  then have len: "length ds < bufsize" "0 < bufsize - 1 - length ds"
    using assms(4) by simp_all
  let ?p = "bufsize - 1 - length ds"
  have run: "ui64toa_s w buffer bufsize base = (take ?p buffer @ cs @ [0], Some ?p)"
    using ui64toa_s_correct[OF assms(1-3), of ds w] len(1) by (simp add: ds_def cs_def)
  have parse: "atoi64_loop cs 0 base = Some w"
    using atoi64_s_digits[OF assms(1,2) w] by (simp add: cs_def ds_def)
  have cs: "0 \<notin> set cs" "hd cs \<noteq> 0x2d" "cs \<noteq> []"
    using hd_digits_not_minus[OF assms(1,2)] by (simp_all add: cs_def ds_def)
  have lp: "length (take ?p buffer) = ?p"
    using assms(3) by simp
  show ?thesis
  proof (cases "sint v < 0")
    case True
    have "(take ?p buffer @ cs @ [0])[?p - 1 := 0x2d] = take (?p - 1) buffer @ 0x2d # cs @ [0]"
      using lp len assms(3) by (auto simp: list_update_append upd_conv_take_nth_drop)
    then have "i64toa_s v buffer bufsize base
        = (take (?p - 1) buffer @ 0x2d # cs @ [0], Some (?p - 1))"
      using True run len unfolding i64toa_s_def w_def Let_def by simp
    moreover have "atoi64_s (0x2d # cs) base = Some v"
      using assms(1,2) parse cs True by (simp add: atoi64_s_def w_def)
    ultimately show ?thesis
      using assms(3) len cs(1)
      by (intro exI[of _ "take (?p - 1) buffer @ 0x2d # cs @ [0]"] exI[of _ "?p - 1"]
          exI[of _ "0x2d # cs"]) (simp add: cs_def)
  next
    case False
    then have "i64toa_s v buffer bufsize base = (take ?p buffer @ cs @ [0], Some ?p)"
      using run unfolding i64toa_s_def w_def Let_def by simp
    moreover have "atoi64_s cs base = Some v"
      using assms(1,2) parse cs False by (simp add: atoi64_s_def w_def)
    ultimately show ?thesis
      using assms(3) len cs(1)
      by (intro exI[of _ "take ?p buffer @ cs @ [0]"] exI[of _ ?p] exI[of _ cs]) (simp add: cs_def)
  qed
qed

subsection \<open>UUIDs\<close>

lemma hex_digit_code:
  "\<forall>d \<in> set [0..<16]. isalpha (sint (xlat ! d)) \<or> isdigit (sint (xlat ! d))"
  by code_simp

lemma hex_digit_alnum: "d < 16 \<Longrightarrow> isalpha (sint (xlat ! d)) \<or> isdigit (sint (xlat ! d))"
  using hex_digit_code by simp

lemma xlat_nonzero: "d < 36 \<Longrightarrow> xlat ! d \<noteq> 0" "d < 36 \<Longrightarrow> xlat ! d \<noteq> 0x2d"
  using xlat_nonzero_code by simp_all

lemma digits_of_byte: "n < 256 \<Longrightarrow> digits_of 16 n = (if n < 16 then [n] else [n div 16, n mod 16])"
  by (subst digits_of.simps, subst digits_of.simps) auto

lemma uuid_byte_to_string_correct:
  "uuid_byte_to_string v = Some [xlat ! (unat v div 16), xlat ! (unat v mod 16)]"
proof -
  have v: "unat v < 256"
    by (rule order_less_le_trans[OF unsigned_less]) simp
  let ?ds = "digits_of 16 (unat v)"
  have c: "unat (ucast (ucast v :: u32) :: u64) = unat v"
    using v by (simp add: unsigned_ucast_eq unsigned_take_bit_eq take_bit_nat_eq_self)
  have len: "length ?ds < 8"
    using v by (simp add: digits_of_byte)
  have "uitoa_s (ucast v) (replicate 8 0) 8 16
      = (take (7 - length ?ds) (replicate 8 0) @ map (\<lambda>d. xlat ! d) ?ds @ [0], Some (7 - length ?ds))"
    using ui64toa_s_correct[of 16 "replicate 8 0" 8 ?ds "ucast (ucast v :: u32)"] len c
    by (simp add: uitoa_s_def)
  moreover have "xlat ! (unat v mod 16) \<noteq> 0" "unat v < 16 \<Longrightarrow> xlat ! unat v \<noteq> 0"
    "xlat ! (unat v div 16) \<noteq> 0"
    using v by (simp_all add: xlat_nonzero less_mult_imp_div_less)
  moreover have "xlat ! 0 = 0x30"
    by (simp add: xlat_def upt_rec)
  ultimately show ?thesis
    using v by (cases "unat v < 16")
      (simp_all add: uuid_byte_to_string_def digits_of_byte nth_append nth_Cons')
qed

lemma atoi_s_hex:
  assumes "h < 16" "l < 16"
  shows "atoi_s [xlat ! h, xlat ! l] 16 = Some (of_nat (h * 16 + l))"
proof -
  have "atoi64_loop (map (\<lambda>d. xlat ! d) [h, l]) 0 16 = Some (of_nat (h * 16 + l))"
    using atoi64_loop_digits[of 16 "[h, l]" 0] assms by simp
  moreover have "xlat ! h \<noteq> 0x2d"
    using assms by (simp add: xlat_nonzero)
  ultimately have "atoi64_s [xlat ! h, xlat ! l] 16 = Some (of_nat (h * 16 + l))"
    by (simp add: atoi64_s_def)
  moreover have u: "unat (of_nat (h * 16 + l) :: u64) = h * 16 + l"
    using assms by (simp only: unat_of_nat) (simp add: take_bit_nat_eq_self)
  moreover have "sint (of_nat (h * 16 + l) :: u64) = int (h * 16 + l)"
    using u assms by (subst sint_small) simp_all
  moreover have "ucast (of_nat (h * 16 + l) :: u64) = (of_nat (h * 16 + l) :: u32)"
    using assms by (simp only: unsigned_of_nat) (simp add: take_bit_nat_eq_self)
  ultimately show ?thesis
    using assms by (simp only: atoi_s_def) simp
qed

lemma ucast_low_byte: "ucast ((of_nat (unat v) :: u32) AND 0xff) = (v :: u8)"
proof -
  have e: "(0xff :: u32) = mask 8"
    by (simp add: mask_eq_exp_minus_1)
  show ?thesis
    unfolding e by (intro bit_word_eqI) (simp add: bit_simps)
qed

lemma uuid_loops_inverse:
  assumes "i + length uuid = 16"
  shows "\<exists>out. uuid_to_string_loop uuid i buf = Some (buf @ out)
      \<and> length out = 2 * length uuid + card {j. uuid_dash j \<and> i \<le> j \<and> j < 16}
      \<and> (\<forall>acc rest. string_to_uuid_loop (length uuid) (out @ rest) i acc = Some (acc @ uuid, rest))"
  using assms
proof (induction uuid arbitrary: i buf)
  case Nil
  then have "{j. uuid_dash j \<and> i \<le> j \<and> j < 16} = {}"
    by auto
  then show ?case
    by simp
next
  case (Cons v uuid)
  let ?D = "\<lambda>i. {j. uuid_dash j \<and> i \<le> j \<and> j < 16}"
  define h where "h = [xlat ! (unat v div 16), xlat ! (unat v mod 16)]"
  define dash where "dash = (if uuid_dash i then [0x2d :: u8] else [])"
  have v: "unat v < 256"
    by (rule order_less_le_trans[OF unsigned_less]) simp
  from Cons.IH[of "Suc i" "buf @ dash @ h"] Cons.prems obtain out where out:
    "uuid_to_string_loop uuid (Suc i) (buf @ dash @ h) = Some (buf @ dash @ h @ out)"
    "length out = 2 * length uuid + card (?D (Suc i))"
    "\<And>acc rest. string_to_uuid_loop (length uuid) (out @ rest) (Suc i) acc = Some (acc @ uuid, rest)"
    by auto
  have "?D i = (if uuid_dash i then insert i (?D (Suc i)) else ?D (Suc i))"
    using Cons.prems by (auto simp: le_less Suc_le_eq)
  then have card: "card (?D i) = length dash + card (?D (Suc i))"
    by (simp add: dash_def)
  have "unat v div 16 < 16" "unat v mod 16 < 16"
    using v by (simp_all add: less_mult_imp_div_less)
  then have "atoi_s h 16 = Some (of_nat (unat v))" "isalpha (sint (h ! 0)) \<or> isdigit (sint (h ! 0))"
    "isalpha (sint (h ! 1)) \<or> isdigit (sint (h ! 1))"
    unfolding h_def by (simp_all only: atoi_s_hex div_mult_mod_eq) (simp_all add: hex_digit_alnum)
  moreover have "ucast ((of_nat (unat v) :: u32) AND 0xff) = v"
    by (rule ucast_low_byte)
  ultimately have "string_to_uuid_loop (length (v # uuid)) (dash @ h @ out @ rest) i acc
      = Some (acc @ v # uuid, rest)" for acc rest
    using out(3)[of rest "acc @ [v]"] by (auto simp: dash_def h_def Let_def)
  moreover have "uuid_to_string_loop (v # uuid) i buf = Some (buf @ dash @ h @ out)"
    using out(1) by (auto simp: uuid_byte_to_string_correct dash_def h_def)
  ultimately show ?case
    using out(2) card by (intro exI[of _ "dash @ h @ out"]) (simp add: h_def)
qed

lemma card_dashes: "card {j. uuid_dash j \<and> 0 \<le> j \<and> j < 16} = 4"
proof -
  have "{j. uuid_dash j \<and> 0 \<le> j \<and> j < 16} = {4, 6, 8, 10}"
    by (auto simp: uuid_dash_def)
  then show ?thesis
    by simp
qed

text \<open>
  C23: \<^verbatim>\<open>uuid_to_string\<close> on 16 bytes and a large enough buffer fails no assertion and produces a string of
  36 characters, and \<^verbatim>\<open>string_to_uuid\<close> turns that string, with or without its null byte, back
  into the same 16 bytes.
\<close>

theorem uuid_round_trip:
  assumes "length uuid = 16" "bufsize > 36"
  shows "\<exists>s. uuid_to_string uuid bufsize = Some (s @ [0]) \<and> length s = 36
      \<and> string_to_uuid s 16 = Some (Some uuid) \<and> string_to_uuid (s @ [0]) 16 = Some (Some uuid)"
proof -
  obtain s where s: "uuid_to_string_loop uuid 0 [] = Some s" "length s = 36"
    "\<And>acc rest. string_to_uuid_loop 16 (s @ rest) 0 acc = Some (acc @ uuid, rest)"
    using uuid_loops_inverse[of 0 uuid "[]"] assms(1) unfolding card_dashes by auto
  have "uuid_to_string uuid bufsize = Some (s @ [0])"
    using s(1,2) assms by (simp add: uuid_to_string_def UUID_LEN_def)
  moreover have "string_to_uuid s 16 = Some (Some uuid)"
    using s(2) s(3)[of "[]" "[]"] by (simp add: string_to_uuid_def UUID_LEN_def)
  moreover have "string_to_uuid (s @ [0]) 16 = Some (Some uuid)"
    using s(2) s(3)[of "[0]" "[]"] by (simp add: string_to_uuid_def UUID_LEN_def)
  ultimately show ?thesis
    using s(2) by blast
qed

subsection \<open>Concrete runs\<close>

theorem atoi64_i64toa_witness:
  "\<exists>buf p s. i64toa_s (- 1234) (replicate 66 0) 66 10 = (buf, Some p) \<and> drop p buf = s @ [0]
     \<and> atoi64_s s 10 = Some (- 1234)"
proof -
  have s: "sint (- 1234 :: u64) \<noteq> - (2 ^ 63)"
    by simp
  show ?thesis
    using atoi64_i64toa[of 10 "replicate 66 0" 66, OF _ _ _ _ s] by auto
qed

theorem uuid_round_trip_witness:
  "\<exists>s. uuid_to_string (map of_nat [0..<16]) 64 = Some (s @ [0]) \<and> length s = 36
     \<and> string_to_uuid s 16 = Some (Some (map of_nat [0..<16]))"
  using uuid_round_trip[of "map of_nat [0..<16]" 64] by auto

end
