(* ===== verification/Bitmap.thy ===== *)
theory Bitmap
  imports Cosix_Prelude
begin

text \<open>
  The bitmap of \<^verbatim>\<open>oslibc/bitmap.cpp\<close>, which keeps track of free DMA pages and of the blocks of the bucket allocator. The buffer is a list
  of bytes that is long enough for \<open>nbits\<close> bits (\<open>bitmap_wf\<close>, which \<^verbatim>\<open>reset()\<close> promises). Every
  operation is shown to work on the list of its bits, \<open>bits\<close>; the search
  \<^verbatim>\<open>get_contiguous_free\<close>, which skips full bytes, is shown to find the first run of free
  bits whenever there is one.
\<close>

record bitmap =
  nbits :: nat
  buffer :: "u8 list"

definition bitmap_reset :: "nat \<Rightarrow> u8 list \<Rightarrow> bitmap" where
  "bitmap_reset n b = \<lparr>nbits = n, buffer = b\<rparr>"

definition bitmap_get :: "bitmap \<Rightarrow> nat \<Rightarrow> bool option" where
  "bitmap_get bm off =
     do {
       kassert (off < nbits bm);
       let b = buffer bm ! (off div 8);
       let j = off mod 8;
       Some (b AND push_bit j 1 \<noteq> 0)
     }"

definition bitmap_set :: "bitmap \<Rightarrow> nat \<Rightarrow> bitmap option" where
  "bitmap_set bm off =
     do {
       kassert (off < nbits bm);
       let b = buffer bm ! (off div 8);
       let j = off mod 8;
       Some (bm\<lparr>buffer := (buffer bm)[off div 8 := b OR push_bit j 1]\<rparr>)
     }"

definition bitmap_unset :: "bitmap \<Rightarrow> nat \<Rightarrow> bitmap option" where
  "bitmap_unset bm off =
     do {
       kassert (off < nbits bm);
       let b = buffer bm ! (off div 8);
       let j = off mod 8;
       Some (bm\<lparr>buffer := (buffer bm)[off div 8 := b AND NOT (push_bit j 1)]\<rparr>)
     }"

text \<open>The loop that takes the bits that were found, \<open>cnt\<close> up to and including \<open>off\<close>.\<close>

function set_range :: "bitmap \<Rightarrow> nat \<Rightarrow> nat \<Rightarrow> bitmap option" where
  "set_range bm cnt off =
     (if cnt \<le> off
      then do { bm' \<leftarrow> bitmap_set bm cnt; set_range bm' (Suc cnt) off }
      else Some bm)"
  by pat_completeness auto
termination by (relation "measure (\<lambda>(bm, cnt, off). Suc off - cnt)") auto

text \<open>The result is the bitmap, whether a run was found, and the final value of \<^verbatim>\<open>off\<close>.\<close>

function gcf_loop :: "bitmap \<Rightarrow> nat \<Rightarrow> nat \<Rightarrow> nat \<Rightarrow> (bitmap \<times> bool \<times> nat) option" where
  "gcf_loop bm num cnt off =
     (if off < nbits bm
      then
        if off mod 8 = 0 \<and> buffer bm ! (off div 8) = 0xff
        then gcf_loop bm num 0 (off + 8)
        else do {
          b \<leftarrow> bitmap_get bm off;
          if \<not> b
          then
            if Suc cnt = num
            then do {
              bm' \<leftarrow> set_range bm (off + 1 - num) off;
              Some (bm', True, off - (num - 1))
            }
            else gcf_loop bm num (Suc cnt) (Suc off)
          else gcf_loop bm num 0 (Suc off)
        }
      else Some (bm, False, off))"
  by pat_completeness auto
termination by (relation "measure (\<lambda>(bm, num, cnt, off). nbits bm - off)") auto

definition get_contiguous_free :: "bitmap \<Rightarrow> nat \<Rightarrow> (bitmap \<times> bool \<times> nat) option" where
  "get_contiguous_free bm num = gcf_loop bm num 0 0"

definition get_free :: "bitmap \<Rightarrow> (bitmap \<times> bool \<times> nat) option" where
  "get_free bm = get_contiguous_free bm 1"

declare set_range.simps [simp del] gcf_loop.simps [simp del]

subsection \<open>The bits of a bitmap\<close>

definition bitmap_wf :: "bitmap \<Rightarrow> bool" where
  "bitmap_wf bm \<longleftrightarrow> nbits bm \<le> 8 * length (buffer bm)"

definition bit_at :: "bitmap \<Rightarrow> nat \<Rightarrow> bool" where
  "bit_at bm off \<longleftrightarrow> bit (buffer bm ! (off div 8)) (off mod 8)"

lemma and_push_bit_1: "(b :: u8) AND push_bit j 1 \<noteq> 0 \<longleftrightarrow> bit b j"
  by (simp add: and_exp_eq_0_iff_not_bit)

lemma bitmap_get_correct: "off < nbits bm \<Longrightarrow> bitmap_get bm off = Some (bit_at bm off)"
  by (simp add: bitmap_get_def bit_at_def and_push_bit_1 del: push_bit_of_1)

lemma bitmap_get_eq: "bitmap_get bm off = (if off < nbits bm then Some (bit_at bm off) else None)"
  by (simp add: bitmap_get_correct) (simp add: bitmap_get_def)

lemma div_index: "bitmap_wf bm \<Longrightarrow> off < nbits bm \<Longrightarrow> off div 8 < length (buffer bm)"
  by (auto simp: bitmap_wf_def)

lemma bitmap_set_correct:
  assumes "bitmap_wf bm" "off < nbits bm"
  shows "\<exists>bm'. bitmap_set bm off = Some bm' \<and> bitmap_wf bm' \<and> nbits bm' = nbits bm
           \<and> (\<forall>k. bit_at bm' k \<longleftrightarrow> k = off \<or> bit_at bm k)"
  using assms div_index[OF assms]
  by (auto simp: bitmap_set_def bitmap_wf_def bit_at_def nth_list_update bit_or_iff bit_exp_iff)
    (metis div_mult_mod_eq)

lemma bitmap_unset_correct:
  assumes "bitmap_wf bm" "off < nbits bm"
  shows "\<exists>bm'. bitmap_unset bm off = Some bm' \<and> bitmap_wf bm' \<and> nbits bm' = nbits bm
           \<and> (\<forall>k. bit_at bm' k \<longleftrightarrow> k \<noteq> off \<and> bit_at bm k)"
  using assms div_index[OF assms]
  by (auto simp: bitmap_unset_def bitmap_wf_def bit_at_def nth_list_update bit_and_iff bit_not_iff
      bit_exp_iff) (metis div_mult_mod_eq)

lemma set_range_correct:
  assumes "bitmap_wf bm" "off < nbits bm"
  shows "\<exists>bm'. set_range bm i off = Some bm' \<and> bitmap_wf bm' \<and> nbits bm' = nbits bm
           \<and> (\<forall>k. bit_at bm' k \<longleftrightarrow> i \<le> k \<and> k \<le> off \<or> bit_at bm k)"
  using assms
proof (induction bm i off rule: set_range.induct)
  case (1 bm i off)
  show ?case
  proof (cases "i \<le> off")
    case True
    obtain bm1 where bm1: "bitmap_set bm i = Some bm1" "bitmap_wf bm1" "nbits bm1 = nbits bm"
        "\<forall>k. bit_at bm1 k \<longleftrightarrow> k = i \<or> bit_at bm k"
      using bitmap_set_correct[of bm i] "1.prems" True by auto
    from "1.IH"[OF True bm1(1,2)] "1.prems"(2) bm1 True show ?thesis
      by (subst set_range.simps) (auto simp: Suc_le_eq le_less)
  qed (use "1.prems" in \<open>subst set_range.simps, auto\<close>)
qed

subsection \<open>The search\<close>

text \<open>A run of \<open>num\<close> free bits that starts at \<open>s\<close>.\<close>

definition free_run :: "bitmap \<Rightarrow> nat \<Rightarrow> nat \<Rightarrow> bool" where
  "free_run bm num s \<longleftrightarrow> s + num \<le> nbits bm \<and> (\<forall>k. s \<le> k \<and> k < s + num \<longrightarrow> \<not> bit_at bm k)"

text \<open>
  What holds each time around the loop: the \<open>cnt\<close> bits below \<open>off\<close> are free, \<open>cnt\<close> is less than
  \<open>num\<close>, and every run that was not found yet starts at or after \<open>off - cnt\<close>.
\<close>

definition gcf_inv :: "bitmap \<Rightarrow> nat \<Rightarrow> nat \<Rightarrow> nat \<Rightarrow> bool" where
  "gcf_inv bm num cnt off \<longleftrightarrow>
     cnt \<le> off \<and> cnt < num
     \<and> (\<forall>k. off - cnt \<le> k \<and> k < off \<longrightarrow> \<not> bit_at bm k)
     \<and> (\<forall>s. free_run bm num s \<longrightarrow> off - cnt \<le> s)"

lemma full_byte:
  assumes "bitmap_wf bm" "off mod 8 = 0" "buffer bm ! (off div 8) = 0xff" "off \<le> k" "k < off + 8"
  shows "bit_at bm k"
proof -
  have k: "k div 8 = off div 8" "k mod 8 < 8"
    using assms(2,4,5) by auto
  have "(0xff :: u8) = mask 8"
    by (simp add: mask_eq_exp_minus_1)
  then have "bit (0xff :: u8) (k mod 8)"
    by (simp only: bit_mask_iff) simp
  then show ?thesis
    using assms(3) k by (simp add: bit_at_def)
qed

lemma gcf_inv_skip:
  assumes "gcf_inv bm num cnt off" "off < q" "\<forall>k. off \<le> k \<and> k < q \<longrightarrow> bit_at bm k"
  shows "gcf_inv bm num 0 q"
proof -
  have "q \<le> s" if run: "free_run bm num s" for s
  proof (rule ccontr)
    assume "\<not> q \<le> s"
    have "off - cnt \<le> s"
      using assms(1) run by (simp add: gcf_inv_def)
    have "off \<le> max s off" "max s off < q" "max s off < s + num"
      using \<open>\<not> q \<le> s\<close> \<open>off - cnt \<le> s\<close> assms(1,2) by (auto simp: gcf_inv_def)
    with assms(3) run show False
      by (auto simp: free_run_def dest!: spec[of _ "max s off"])
  qed
  with assms(1) show ?thesis
    by (simp add: gcf_inv_def)
qed

lemma gcf_inv_step:
  assumes "gcf_inv bm num cnt off" "\<not> bit_at bm off" "Suc cnt \<noteq> num"
  shows "gcf_inv bm num (Suc cnt) (Suc off)"
  using assms by (auto simp: gcf_inv_def less_Suc_eq)

lemma gcf_loop_correct:
  assumes "bitmap_wf bm" "gcf_inv bm num cnt off"
  shows "(\<exists>bm' s. gcf_loop bm num cnt off = Some (bm', True, s) \<and> free_run bm num s
              \<and> (\<forall>t. free_run bm num t \<longrightarrow> s \<le> t)
              \<and> bitmap_wf bm' \<and> nbits bm' = nbits bm
              \<and> (\<forall>k. bit_at bm' k \<longleftrightarrow> s \<le> k \<and> k < s + num \<or> bit_at bm k))
         \<or> (\<exists>s. gcf_loop bm num cnt off = Some (bm, False, s)) \<and> (\<forall>t. \<not> free_run bm num t)"
  using assms
proof (induction bm num cnt off rule: gcf_loop.induct)
  case (1 bm num cnt off)
  show ?case
  proof (cases "off < nbits bm")
    case False
    have "\<not> free_run bm num t" for t
      using "1.prems"(2) False by (auto simp: gcf_inv_def free_run_def dest!: spec[of _ t])
    with False show ?thesis
      by (subst (1 2) gcf_loop.simps) simp
  next
    case True
    show ?thesis
    proof (cases "off mod 8 = 0 \<and> buffer bm ! (off div 8) = 0xff")
      case skip: True
      have "gcf_inv bm num 0 (off + 8)"
        using "1.prems" skip by (intro gcf_inv_skip[of _ _ cnt off]) (auto intro!: full_byte[of bm off])
      from "1.IH"(1)[OF True skip "1.prems"(1) this] True skip show ?thesis
        by (subst (1 2) gcf_loop.simps) simp
    next
      case noskip: False
      have get: "bitmap_get bm off = Some (bit_at bm off)"
        using True by (rule bitmap_get_correct)
      show ?thesis
      proof (cases "bit_at bm off")
        case taken: True
        have "gcf_inv bm num 0 (Suc off)"
          using "1.prems" taken by (intro gcf_inv_skip) (auto simp: less_Suc_eq)
        moreover have "gcf_loop bm num cnt off = gcf_loop bm num 0 (Suc off)"
          using True noskip get taken by (subst gcf_loop.simps) auto
        ultimately show ?thesis
          using "1.IH"(3)[OF True noskip get _ "1.prems"(1)] taken by simp
      next
        case free: False
        show ?thesis
        proof (cases "Suc cnt = num")
          case found: True
          have s: "off + 1 - num = off - cnt" "off - (num - 1) = off - cnt" "off - cnt + num = Suc off"
            using found "1.prems"(2) by (auto simp: gcf_inv_def)
          obtain bm' where bm': "set_range bm (off - cnt) off = Some bm'" "bitmap_wf bm'"
              "nbits bm' = nbits bm" "\<forall>k. bit_at bm' k \<longleftrightarrow> off - cnt \<le> k \<and> k \<le> off \<or> bit_at bm k"
            using set_range_correct[OF "1.prems"(1) True] by blast
          moreover have "gcf_loop bm num cnt off = Some (bm', True, off - cnt)"
            using True noskip get free found s bm'(1) by (subst gcf_loop.simps) auto
          moreover have "free_run bm num (off - cnt)" "\<forall>t. free_run bm num t \<longrightarrow> off - cnt \<le> t"
            using "1.prems"(2) free s True by (auto simp: gcf_inv_def free_run_def less_Suc_eq)
          ultimately show ?thesis
            using s by (intro disjI1 exI[of _ bm'] exI[of _ "off - cnt"]) (simp add: less_Suc_eq_le)
        next
          case more: False
          have "gcf_loop bm num cnt off = gcf_loop bm num (Suc cnt) (Suc off)"
            using True noskip get free more by (subst gcf_loop.simps) auto
          then show ?thesis
            using "1.IH"(2)[OF True noskip get _ more "1.prems"(1)]
              gcf_inv_step[OF "1.prems"(2) free more] free by simp
        qed
      qed
    qed
  qed
qed


subsection \<open>Concrete runs\<close>

definition sample_bitmap :: bitmap where
  "sample_bitmap = \<lparr>nbits = 20, buffer = [0xff, 0x05, 0]\<rparr>"


end
