(* ===== verification/Cloudabi.thy ===== *)
theory Cloudabi
  imports Cosix_Prelude
begin

text \<open>
  The names that the kernel takes from the CloudABI headers, which are not part of the
  sources. The values behind the names are parameters: a definition that uses such a
  constant has an argument that maps the name to its value, and the lemmas hold for
  every assignment of values unless they say otherwise. The widths are those of the
  CloudABI types (rights have 64 bits, protection and sync flags 8, open flags 16).
\<close>

text \<open>The file types, as \<^verbatim>\<open>fd/fd.hpp\<close> enumerates them.\<close>

datatype filetype =
    FT_UNKNOWN | FT_BLOCK_DEVICE | FT_CHARACTER_DEVICE | FT_DIRECTORY | FT_PROCESS
  | FT_REGULAR_FILE | FT_SHARED_MEMORY | FT_SOCKET_DGRAM | FT_SOCKET_STREAM | FT_SYMBOLIC_LINK

text \<open>\<^verbatim>\<open>CLOUDABI_RIGHT_...\<close>\<close>

datatype right =
    RIGHT_FD_DATASYNC | RIGHT_FD_READ | RIGHT_FD_SEEK | RIGHT_FD_STAT_PUT_FLAGS | RIGHT_FD_SYNC
  | RIGHT_FD_TELL | RIGHT_FD_WRITE | RIGHT_FILE_ADVISE | RIGHT_FILE_ALLOCATE
  | RIGHT_FILE_CREATE_DIRECTORY | RIGHT_FILE_CREATE_FILE | RIGHT_FILE_LINK_SOURCE
  | RIGHT_FILE_LINK_TARGET | RIGHT_FILE_OPEN | RIGHT_FILE_READDIR | RIGHT_FILE_READLINK
  | RIGHT_FILE_RENAME_SOURCE | RIGHT_FILE_RENAME_TARGET | RIGHT_FILE_STAT_FGET
  | RIGHT_FILE_STAT_FPUT_SIZE | RIGHT_FILE_STAT_FPUT_TIMES | RIGHT_FILE_STAT_GET
  | RIGHT_FILE_STAT_PUT_TIMES | RIGHT_FILE_SYMLINK | RIGHT_FILE_UNLINK | RIGHT_MEM_MAP
  | RIGHT_MEM_MAP_EXEC | RIGHT_POLL_FD_READWRITE | RIGHT_POLL_PROC_TERMINATE | RIGHT_PROC_EXEC
  | RIGHT_SOCK_SHUTDOWN

type_synonym rights = u64
type_synonym right_consts = "right \<Rightarrow> rights"

text \<open>\<^verbatim>\<open>CLOUDABI_PROT_...\<close>, \<^verbatim>\<open>CLOUDABI_MAP_...\<close> and \<^verbatim>\<open>CLOUDABI_MS_...\<close>\<close>

datatype mem_name =
    PROT_EXEC | PROT_READ | PROT_WRITE
  | MAP_ANON | MAP_FIXED | MAP_PRIVATE | MAP_SHARED
  | MS_ASYNC | MS_INVALIDATE | MS_SYNC

type_synonym mem_consts = "mem_name \<Rightarrow> u8"

text \<open>One assignment of values, for the concrete runs at the end of the theories.\<close>

fun sample_mem_consts :: mem_consts where
  "sample_mem_consts PROT_EXEC = 1"
| "sample_mem_consts PROT_WRITE = 2"
| "sample_mem_consts PROT_READ = 4"
| "sample_mem_consts MAP_ANON = 1"
| "sample_mem_consts MAP_FIXED = 2"
| "sample_mem_consts MAP_PRIVATE = 4"
| "sample_mem_consts MAP_SHARED = 8"
| "sample_mem_consts MS_ASYNC = 1"
| "sample_mem_consts MS_INVALIDATE = 2"
| "sample_mem_consts MS_SYNC = 4"

text \<open>\<^verbatim>\<open>CLOUDABI_O_...\<close>, \<^verbatim>\<open>CLOUDABI_FDFLAG_...\<close> and \<^verbatim>\<open>CLOUDABI_FDSTAT_...\<close>\<close>

datatype file_name =
    O_CREAT | O_DIRECTORY | O_EXCL | O_TRUNC
  | FDFLAG_APPEND | FDFLAG_NONBLOCK
  | FDSTAT_FLAGS | FDSTAT_RIGHTS
  | FILESTAT_ATIM | FILESTAT_ATIM_NOW | FILESTAT_MTIM | FILESTAT_MTIM_NOW | FILESTAT_SIZE

type_synonym file_consts = "file_name \<Rightarrow> u16"

text \<open>\<open>has w c\<close> is the C condition \<^verbatim>\<open>w & c\<close>.\<close>

definition has :: "'a::len word \<Rightarrow> 'a word \<Rightarrow> bool" where
  "has w c \<longleftrightarrow> w AND c \<noteq> 0"

lemma has_bit_iff: "has w c \<longleftrightarrow> (\<exists>i. bit w i \<and> bit c i)"
  by (auto simp: has_def bit_eq_iff bit_and_iff dest: bit_imp_le_length)

lemma has_OR: "has w (c OR d) \<longleftrightarrow> has w c \<or> has w d"
  by (auto simp: has_bit_iff bit_or_iff)

text \<open>A set of rights as a set of bits: \<open>a\<close> is contained in \<open>b\<close>.\<close>

definition within :: "'a::len word \<Rightarrow> 'a word \<Rightarrow> bool" where
  "within a b \<longleftrightarrow> a AND b = a"

lemma within_bits: "within a b \<longleftrightarrow> (\<forall>i. bit a i \<longrightarrow> bit b i)"
  by (auto simp: within_def bit_eq_iff bit_and_iff dest: bit_imp_le_length)

lemma within_refl [simp, intro]: "within a a"
  by (simp add: within_def)

lemma within_trans: "within a b \<Longrightarrow> within b c \<Longrightarrow> within a c"
  by (simp add: within_bits)

lemma within_AND [simp]: "within (a AND b) a" "within (a AND b) b"
  by (simp_all add: within_bits bit_and_iff)

lemma within_OR [simp]: "within (a OR b) c \<longleftrightarrow> within a c \<and> within b c"
  by (auto simp: within_bits bit_or_iff)

lemma within_0 [simp]: "within 0 a"
  by (simp add: within_bits)

lemma within_antisym: "within a b \<Longrightarrow> within b a \<Longrightarrow> a = b"
  by (simp add: within_def and.commute)

text \<open>
  The structures \<^verbatim>\<open>cloudabi_filestat_t\<close>, \<^verbatim>\<open>cloudabi_fdstat_t\<close> and \<^verbatim>\<open>cloudabi_dirent_t\<close>, with the
  members that the sources name.
\<close>

record filestat =
  st_dev :: u64
  st_ino :: u64
  st_filetype :: filetype
  st_nlink :: u32
  st_size :: u64
  st_atim :: u64
  st_mtim :: u64
  st_ctim :: u64

record fdstat =
  fs_filetype :: filetype
  fs_flags :: u16
  fs_rights_base :: rights
  fs_rights_inheriting :: rights

record dirent =
  d_next :: u64
  d_ino :: u64
  d_namlen :: u32
  d_type :: filetype

datatype whence = WHENCE_CUR | WHENCE_END | WHENCE_SET | WHENCE_OTHER

text \<open>
  All that the file code takes from the headers, as one argument: the values of the
  constants, the numbers of errors and file types, and the bytes of the two structures that
  travel between the kernel and a file server.
\<close>

record cloudabi =
  RIGHT :: right_consts
  FILE_CONST :: file_consts
  LOOKUP_SYMLINK_FOLLOW :: u32
  UNLINK_REMOVEDIR :: u8
  DIRCOOKIE_START :: u64
  EVENT_FD_READWRITE_HANGUP :: u64
  errno_num :: "errno \<Rightarrow> u16"
  num_errno :: "u16 \<Rightarrow> errno"
  filetype_num :: "filetype \<Rightarrow> u8"
  num_filetype :: "u8 \<Rightarrow> filetype"
  filestat_bytes :: "filestat \<Rightarrow> u8 list"
  bytes_filestat :: "u8 list \<Rightarrow> filestat"
  sizeof_filestat :: nat
  dirent_bytes :: "dirent \<Rightarrow> u8 list"
  sizeof_dirent :: nat

text \<open>
  What the code relies on: the two structures have a fixed size and survive the copy to bytes
  and back, and the numbers of errors and of file types are distinct, with 0 for success.
\<close>

definition abi_ok :: "cloudabi \<Rightarrow> bool" where
  "abi_ok A \<longleftrightarrow>
     (\<forall>st. length (filestat_bytes A st) = sizeof_filestat A \<and> bytes_filestat A (filestat_bytes A st) = st) \<and>
     sizeof_filestat A < 2 ^ 15 \<and> (\<forall>d. length (dirent_bytes A d) = sizeof_dirent A) \<and>
     (\<forall>e. num_errno A (errno_num A e) = e) \<and> errno_num A ESUCCESS = 0 \<and>
     (\<forall>t. num_filetype A (filetype_num A t) = t)"

text \<open>An instance, with the numbers in the order of the names and little-endian structures.\<close>

fun le_bytes :: "nat \<Rightarrow> u64 \<Rightarrow> u8 list" where
  "le_bytes 0 w = []"
| "le_bytes (Suc n) w = ucast w # le_bytes n (drop_bit 8 w)"

fun of_le_bytes :: "u8 list \<Rightarrow> u64" where
  "of_le_bytes [] = 0"
| "of_le_bytes (b # bs) = ucast b OR push_bit 8 (of_le_bytes bs)"

lemma length_le_bytes [simp]: "length (le_bytes n w) = n"
  by (induction n arbitrary: w) simp_all

lemma of_le_bytes: "of_le_bytes (le_bytes n w) = take_bit (8 * n) w"
proof (induction n arbitrary: w)
  case (Suc n)
  show ?case
    by (rule bit_word_eqI)
       (auto simp: Suc bit_simps)
qed simp

fun sample_rights :: right_consts where
  "sample_rights RIGHT_FD_DATASYNC = 0x1"
| "sample_rights RIGHT_FD_READ = 0x2"
| "sample_rights RIGHT_FD_SEEK = 0x4"
| "sample_rights RIGHT_FD_STAT_PUT_FLAGS = 0x8"
| "sample_rights RIGHT_FD_SYNC = 0x10"
| "sample_rights RIGHT_FD_TELL = 0x20"
| "sample_rights RIGHT_FD_WRITE = 0x40"
| "sample_rights RIGHT_FILE_ADVISE = 0x80"
| "sample_rights RIGHT_FILE_ALLOCATE = 0x100"
| "sample_rights RIGHT_FILE_CREATE_DIRECTORY = 0x200"
| "sample_rights RIGHT_FILE_CREATE_FILE = 0x400"
| "sample_rights RIGHT_FILE_LINK_SOURCE = 0x1000"
| "sample_rights RIGHT_FILE_LINK_TARGET = 0x2000"
| "sample_rights RIGHT_FILE_OPEN = 0x4000"
| "sample_rights RIGHT_FILE_READDIR = 0x8000"
| "sample_rights RIGHT_FILE_READLINK = 0x10000"
| "sample_rights RIGHT_FILE_RENAME_SOURCE = 0x20000"
| "sample_rights RIGHT_FILE_RENAME_TARGET = 0x40000"
| "sample_rights RIGHT_FILE_STAT_FGET = 0x80000"
| "sample_rights RIGHT_FILE_STAT_FPUT_SIZE = 0x100000"
| "sample_rights RIGHT_FILE_STAT_FPUT_TIMES = 0x200000"
| "sample_rights RIGHT_FILE_STAT_GET = 0x400000"
| "sample_rights RIGHT_FILE_STAT_PUT_TIMES = 0x800000"
| "sample_rights RIGHT_FILE_SYMLINK = 0x1000000"
| "sample_rights RIGHT_FILE_UNLINK = 0x2000000"
| "sample_rights RIGHT_MEM_MAP = 0x4000000"
| "sample_rights RIGHT_MEM_MAP_EXEC = 0x8000000"
| "sample_rights RIGHT_POLL_FD_READWRITE = 0x10000000"
| "sample_rights RIGHT_POLL_PROC_TERMINATE = 0x40000000"
| "sample_rights RIGHT_PROC_EXEC = 0x100000000"
| "sample_rights RIGHT_SOCK_SHUTDOWN = 0x8000000000"

fun sample_file_consts :: file_consts where
  "sample_file_consts O_CREAT = 1"
| "sample_file_consts O_DIRECTORY = 2"
| "sample_file_consts O_EXCL = 4"
| "sample_file_consts O_TRUNC = 8"
| "sample_file_consts FDFLAG_APPEND = 1"
| "sample_file_consts FDFLAG_NONBLOCK = 4"
| "sample_file_consts FDSTAT_FLAGS = 1"
| "sample_file_consts FDSTAT_RIGHTS = 2"
| "sample_file_consts FILESTAT_ATIM = 1"
| "sample_file_consts FILESTAT_ATIM_NOW = 2"
| "sample_file_consts FILESTAT_MTIM = 4"
| "sample_file_consts FILESTAT_MTIM_NOW = 8"
| "sample_file_consts FILESTAT_SIZE = 16"

definition sample_errnos :: "errno list" where   "sample_errnos = [ESUCCESS, EADDRINUSE, EAGAIN,
     EBADF, ECANCELED, ECONNREFUSED, ECONNRESET, EDESTADDRREQ, EEXIST, EFAULT, EINVAL, EIO, EISDIR,
     ELOOP, EMSGSIZE, ENAMETOOLONG, ENOENT, ENOEXEC, ENOMEM, ENOSPC, ENOSYS, ENOTCONN, ENOTDIR,
     ENOTEMPTY, ENOTSOCK, ENOTSUP, EOVERFLOW, EPERM, EPIPE, EROFS, ETIMEDOUT, ENOTCAPABLE, EXDEV,
     EOTHER]"

definition sample_filetypes :: "filetype list" where
  "sample_filetypes = [FT_UNKNOWN, FT_BLOCK_DEVICE, FT_CHARACTER_DEVICE, FT_DIRECTORY, FT_PROCESS,
     FT_REGULAR_FILE, FT_SHARED_MEMORY, FT_SOCKET_DGRAM, FT_SOCKET_STREAM, FT_SYMBOLIC_LINK]"

definition position :: "'a \<Rightarrow> 'a list \<Rightarrow> nat" where
  "position x xs = length (takeWhile (\<lambda>y. y \<noteq> x) xs)"

definition element :: "'a \<Rightarrow> nat \<Rightarrow> 'a list \<Rightarrow> 'a" where
  "element d n xs = (if n < length xs then xs ! n else d)"

definition sample_filestat_bytes :: "filestat \<Rightarrow> u8 list" where
  "sample_filestat_bytes st = le_bytes 8 (st_dev st) @ le_bytes 8 (st_ino st)
     @ le_bytes 1 (of_nat (position (st_filetype st) sample_filetypes)) @ le_bytes 4 (ucast (st_nlink st))
     @ le_bytes 8 (st_size st) @ le_bytes 8 (st_atim st) @ le_bytes 8 (st_mtim st) @ le_bytes 8 (st_ctim st)"

definition sample_bytes_filestat :: "u8 list \<Rightarrow> filestat" where
  "sample_bytes_filestat b = \<lparr>st_dev = of_le_bytes (take 8 b), st_ino = of_le_bytes (take 8 (drop 8 b)),
     st_filetype = element FT_UNKNOWN (unat (of_le_bytes (take 1 (drop 16 b)))) sample_filetypes,
     st_nlink = ucast (of_le_bytes (take 4 (drop 17 b))), st_size = of_le_bytes (take 8 (drop 21 b)),
     st_atim = of_le_bytes (take 8 (drop 29 b)), st_mtim = of_le_bytes (take 8 (drop 37 b)),
     st_ctim = of_le_bytes (take 8 (drop 45 b))\<rparr>"

definition sample_abi :: cloudabi where
  "sample_abi = \<lparr>RIGHT = sample_rights, FILE_CONST = sample_file_consts, LOOKUP_SYMLINK_FOLLOW = 1,
     UNLINK_REMOVEDIR = 1, DIRCOOKIE_START = 0, EVENT_FD_READWRITE_HANGUP = 1,
     errno_num = (\<lambda>e. of_nat (position e sample_errnos)), num_errno = (\<lambda>n. element EOTHER (unat n) sample_errnos),
     filetype_num = (\<lambda>t. of_nat (position t sample_filetypes)),
     num_filetype = (\<lambda>n. element FT_UNKNOWN (unat n) sample_filetypes),
     filestat_bytes = sample_filestat_bytes, bytes_filestat = sample_bytes_filestat, sizeof_filestat = 53,
     dirent_bytes = (\<lambda>d. le_bytes 8 (d_next d) @ le_bytes 8 (d_ino d) @ le_bytes 4 (ucast (d_namlen d))
       @ le_bytes 1 (of_nat (position (d_type d) sample_filetypes))), sizeof_dirent = 21\<rparr>"

lemma sample_filetype: "position t sample_filetypes < 10"
  "element FT_UNKNOWN (position t sample_filetypes) sample_filetypes = t"
  by (cases t; simp add: position_def element_def sample_filetypes_def)+

lemma sample_errno: "position e sample_errnos < 34" "element EOTHER (position e sample_errnos) sample_errnos = e"
  by (cases e; simp add: position_def element_def sample_errnos_def)+

lemma sample_filestat: "sample_bytes_filestat (sample_filestat_bytes st) = st"
proof -
  have "unat (take_bit 8 (of_nat (position (st_filetype st) sample_filetypes) :: u64)) = position (st_filetype st) sample_filetypes"
    using sample_filetype(1)[of "st_filetype st"] by (simp add: unsigned_take_bit_eq unat_of_nat take_bit_nat_eq_self)
  moreover have "ucast (take_bit 32 (ucast n :: u64)) = n" for n :: u32
    by (rule bit_word_eqI) (auto simp: bit_simps)
  ultimately show ?thesis
    by (simp add: sample_bytes_filestat_def sample_filestat_bytes_def of_le_bytes sample_filetype take_bit_word_eq_self del: le_bytes.simps)
qed

lemma abi_ok_sample: "abi_ok sample_abi"
proof -
  have "length (sample_filestat_bytes st) = 53" for st by (simp add: sample_filestat_bytes_def)
  moreover have "element EOTHER (unat (of_nat (position e sample_errnos) :: u16)) sample_errnos = e" for e
    using sample_errno[of e] by (simp add: unat_of_nat take_bit_nat_eq_self)
  moreover have "element FT_UNKNOWN (unat (of_nat (position t sample_filetypes) :: u8)) sample_filetypes = t" for t
    using sample_filetype[of t] by (simp add: unat_of_nat take_bit_nat_eq_self)
  ultimately show ?thesis
    by (simp add: abi_ok_def sample_abi_def sample_filestat position_def[of ESUCCESS] sample_errnos_def[THEN arg_cong, of "takeWhile (\<lambda>y. y \<noteq> ESUCCESS)"] del: le_bytes.simps)
qed

end
