(* ===== verification/Mem_Mapping.thy ===== *)
theory Mem_Mapping
  imports Cloudabi
begin

text \<open>
  One memory mapping of a process: \<^verbatim>\<open>mem_mapping_t\<close> of \<^verbatim>\<open>fd/mem_mapping.cpp\<close>, with the page
  directory and page tables of \<^verbatim>\<open>fd/process_fd.cpp\<close> it works on. Addresses, sizes and page table entries are
  32-bit words with the arithmetic of the machine.

  The paging state has two logs for the calls that leave this component: the physical
  pages given back to the page allocator (\<open>freed\<close>) and the pages written to a
  backing file (\<open>flushed\<close>). The file descriptors behind a mapping are outside of it: a
  \<open>fdref\<close> names one, and what its \<^verbatim>\<open>pwrite\<close> returns is a parameter.
\<close>

type_synonym fdref = nat

definition PAGE_SIZE :: u32 where
  "PAGE_SIZE = 4096"

definition kernel_virtual_base :: u32 where
  "kernel_virtual_base = 0xc0000000"

definition len_to_pages :: "u32 \<Rightarrow> u32" where
  "len_to_pages len =
     (let num_pages = len div PAGE_SIZE
      in if len mod PAGE_SIZE \<noteq> 0 then num_pages + 1 else num_pages)"

record mem_mapping =
  protection :: u8
  virtual_address :: u32
  number_of_pages :: u32
  backing_fd :: "fdref option"
  backing_offset :: u64
  shared :: bool
  advice :: u8

record paging =
  page_directory :: "u32 list"
  page_tables :: "u32 list option list"
  freed :: "u32 list"
  flushed :: "(fdref \<times> u64) list"

subsection \<open>mem_mapping.cpp\<close>

definition mem_mapping_create ::
  "u32 \<Rightarrow> u32 \<Rightarrow> fdref option \<Rightarrow> u64 \<Rightarrow> u8 \<Rightarrow> bool \<Rightarrow> u8 \<Rightarrow> mem_mapping option" where
  "mem_mapping_create a n b offset p s adv =
     do {
       kassert (s \<longrightarrow> b \<noteq> None);
       kassert (a mod PAGE_SIZE = 0);
       kassert (a < kernel_virtual_base);
       kassert (a + n * PAGE_SIZE \<le> kernel_virtual_base);
       Some \<lparr>protection = p, virtual_address = a, number_of_pages = n, backing_fd = b,
             backing_offset = offset, shared = s, advice = adv\<rparr>
     }"

definition page_virtual_address :: "mem_mapping \<Rightarrow> u32 \<Rightarrow> u32" where
  "page_virtual_address m page = virtual_address m + PAGE_SIZE * page"

definition fd_offset :: "mem_mapping \<Rightarrow> u32 \<Rightarrow> u64" where
  "fd_offset m page = backing_offset m + ucast (PAGE_SIZE * page)"

definition covers :: "mem_mapping \<Rightarrow> u32 \<Rightarrow> u32 \<Rightarrow> bool" where
  "covers m addr len =
     (let my_start = virtual_address m;
          my_end = my_start + PAGE_SIZE * number_of_pages m;
          his_start = addr;
          his_end = his_start + len
      in his_start \<ge> my_start \<and> his_end \<ge> my_start \<and> his_start < my_end \<and> his_end \<le> my_end)"

text \<open>\<^term>\<open>None\<close> is the result -1.\<close>

definition page_num :: "mem_mapping \<Rightarrow> u32 \<Rightarrow> u32 option" where
  "page_num m addr =
     (if addr < virtual_address m then None
      else let page_i = (addr - virtual_address m) div PAGE_SIZE
           in if page_i < number_of_pages m then Some page_i else None)"

definition prot_to_bits :: "mem_consts \<Rightarrow> u8 \<Rightarrow> u32 option" where
  "prot_to_bits K p =
     do {
       kassert (p AND NOT (K PROT_EXEC OR K PROT_READ OR K PROT_WRITE) = 0);
       let bits = (if p = 0 then 0 else 4);
       Some (if has p (K PROT_WRITE) then bits OR 2 else bits)
     }"

text \<open>
  \<^verbatim>\<open>process_fd::get_page_table\<close>: a page table of the kernel is a panic; the inner \<^term>\<open>None\<close> is the null
  pointer. A pointer to an entry is the pair of the table's and the entry's number.
\<close>

definition get_page_table :: "paging \<Rightarrow> nat \<Rightarrow> u32 list option option" where
  "get_page_table pg i =
     (if i \<ge> 0x300 then None
      else if has (page_directory pg ! i) 1 then Some (page_tables pg ! i)
      else Some None)"

definition page_table_num :: "u32 \<Rightarrow> nat" where
  "page_table_num address = unat (drop_bit 22 address)"

definition page_entry_num :: "u32 \<Rightarrow> nat" where
  "page_entry_num address = unat (drop_bit 12 address AND 0x03ff)"

definition get_page_entry :: "paging \<Rightarrow> mem_mapping \<Rightarrow> u32 \<Rightarrow> (nat \<times> nat) option option" where
  "get_page_entry pg m page =
     do {
       kassert (page < number_of_pages m);
       let address = page_virtual_address m page;
       page_table \<leftarrow> get_page_table pg (page_table_num address);
       Some (case page_table of
               None \<Rightarrow> None
             | Some _ \<Rightarrow> Some (page_table_num address, page_entry_num address))
     }"

text \<open>
  The paging structures that the constructor of \<^verbatim>\<open>process_fd\<close> sets up: no page tables but
  those of the kernel, whose directory entries are the argument.
\<close>

definition new_paging :: "u32 list \<Rightarrow> paging" where
  "new_paging kernel_pages =
     \<lparr>page_directory = replicate 0x300 0 @ kernel_pages, page_tables = replicate 0x300 None,
      freed = [], flushed = []\<rparr>"

definition read_entry :: "paging \<Rightarrow> nat \<times> nat \<Rightarrow> u32" where
  "read_entry pg e = the (page_tables pg ! fst e) ! snd e"

definition write_entry :: "paging \<Rightarrow> nat \<times> nat \<Rightarrow> u32 \<Rightarrow> paging" where
  "write_entry pg e v =
     pg\<lparr>page_tables := (page_tables pg)[fst e := Some ((the (page_tables pg ! fst e))[snd e := v])]\<rparr>"

text \<open>
  \<^verbatim>\<open>ensure_get_page_table\<close>: \<open>tbl\<close> is the physical address of the page that
  \<^verbatim>\<open>allocate_aligned\<close> returns if a table is needed, \<^term>\<open>None\<close> if there is none left.
\<close>

definition ensure_get_page_table :: "paging \<Rightarrow> u32 option \<Rightarrow> nat \<Rightarrow> paging option" where
  "ensure_get_page_table pg tbl i =
     (if i \<ge> 0x300 then None
      else if has (page_directory pg ! i) 1 then Some pg
      else do {
        address \<leftarrow> tbl;
        kassert (address AND 0xfff = 0);
        Some (pg\<lparr>page_directory := (page_directory pg)[i := address OR 0x07],
                 page_tables := (page_tables pg)[i := Some (replicate 1024 0)]\<rparr>)
      })"

definition ensure_get_page_entry ::
  "paging \<Rightarrow> u32 option \<Rightarrow> mem_mapping \<Rightarrow> u32 \<Rightarrow> (paging \<times> nat \<times> nat) option" where
  "ensure_get_page_entry pg tbl m page =
     do {
       kassert (page < number_of_pages m);
       let address = page_virtual_address m page;
       pg' \<leftarrow> ensure_get_page_table pg tbl (page_table_num address);
       Some (pg', page_table_num address, page_entry_num address)
     }"

definition is_backed :: "paging \<Rightarrow> mem_mapping \<Rightarrow> u32 \<Rightarrow> bool option" where
  "is_backed pg m page =
     do {
       page_entry \<leftarrow> get_page_entry pg m page;
       Some (case page_entry of None \<Rightarrow> False | Some e \<Rightarrow> has (read_entry pg e) 1)
     }"

text \<open>
  \<^verbatim>\<open>ensure_backed\<close>: \<open>frame\<close> is the physical address of the page that the allocator returns,
  after it was filled with the file's contents and zeroes.
\<close>

definition ensure_backed ::
  "mem_consts \<Rightarrow> paging \<Rightarrow> u32 option \<Rightarrow> u32 option \<Rightarrow> mem_mapping \<Rightarrow> u32 \<Rightarrow> paging option" where
  "ensure_backed K pg tbl frame m page =
     do {
       (pg', e) \<leftarrow> ensure_get_page_entry pg tbl m page;
       if has (read_entry pg' e) 1 then Some pg'
       else do {
         phys \<leftarrow> frame;
         kassert (phys AND 0xfff = 0);
         kassert (shared m \<longrightarrow> backing_fd m \<noteq> None);
         bits \<leftarrow> prot_to_bits K (protection m);
         Some (write_entry pg' e (phys OR bits OR 0x01))
       }
     }"

text \<open>The bytes that a page gets: what \<^verbatim>\<open>pread\<close> delivered, if that was a whole page, else zeroes.\<close>

definition initial_contents :: "(u8 list \<times> errno) option \<Rightarrow> u8 list" where
  "initial_contents pread_result =
     (case pread_result of
        None \<Rightarrow> replicate 4096 0
      | Some (bytes, err) \<Rightarrow>
          let err' = (if length bytes \<noteq> 4096 \<and> err = ESUCCESS then EIO else err);
              bytes_read = (if err' \<noteq> ESUCCESS then 0 else length bytes)
          in take bytes_read bytes @ replicate (4096 - bytes_read) 0)"

text \<open>The loop of \<^verbatim>\<open>set_protection\<close> over the pages from \<open>page\<close> on, \<open>left\<close> of them.\<close>

fun set_protection_loop ::
  "paging \<Rightarrow> mem_mapping \<Rightarrow> u32 \<Rightarrow> u32 \<Rightarrow> nat \<Rightarrow> paging option" where
  "set_protection_loop pg m bits page 0 = Some pg"
| "set_protection_loop pg m bits page (Suc left) =
     do {
       page_entry \<leftarrow> get_page_entry pg m page;
       let pg' = (case page_entry of
                    None \<Rightarrow> pg
                  | Some e \<Rightarrow>
                      if has (read_entry pg e) 1
                      then write_entry pg e ((read_entry pg e AND 0xfffffff9) OR bits)
                      else pg);
       set_protection_loop pg' m bits (page + 1) left
     }"

definition set_protection ::
  "mem_consts \<Rightarrow> u8 \<Rightarrow> mem_mapping \<Rightarrow> paging \<Rightarrow> (mem_mapping \<times> paging) option" where
  "set_protection K p m pg =
     do {
       let m' = m\<lparr>protection := p\<rparr>;
       bits \<leftarrow> prot_to_bits K p;
       pg' \<leftarrow> set_protection_loop pg m' bits 0 (unat (number_of_pages m));
       Some (m', pg')
     }"

text \<open>
  \<open>pwrite fd off\<close> is the number of bytes written and the error that the backing file
  descriptor reports for one page at file offset \<open>off\<close>.
\<close>

definition sync ::
  "mem_consts \<Rightarrow> (fdref \<Rightarrow> u64 \<Rightarrow> nat \<times> errno) \<Rightarrow> u8 \<Rightarrow> mem_mapping \<Rightarrow> u32 \<Rightarrow> paging
    \<Rightarrow> (errno \<times> paging) option" where
  "sync K pwrite flags m page pg =
     do {
       kassert (page < number_of_pages m);
       page_entry \<leftarrow> get_page_entry pg m page;
       case page_entry of
         None \<Rightarrow> Some (ESUCCESS, pg)
       | Some e \<Rightarrow>
           if \<not> has (read_entry pg e) 1 then Some (ESUCCESS, pg)
           else do {
             let flags' = (if has flags (K MS_ASYNC) then K MS_SYNC else flags);
             let dirty = has flags' (K MS_SYNC) \<and> shared m \<and> has (read_entry pg e) 0x40;
             let (err, pg1) =
               (case backing_fd m of
                  None \<Rightarrow> (ESUCCESS, pg)
                | Some fd \<Rightarrow>
                    if dirty
                    then let (bytes_written, err) = pwrite fd (fd_offset m page);
                             pg1 = write_entry pg e (read_entry pg e AND NOT 0x40)
                         in (if bytes_written \<noteq> 4096 \<and> err = ESUCCESS then EIO else err,
                             pg1\<lparr>flushed := flushed pg1 @ [(fd, fd_offset m page)]\<rparr>)
                    else (ESUCCESS, pg));
             if err \<noteq> ESUCCESS then Some (err, pg1)
             else if has flags' (K MS_INVALIDATE)
             then let phys = read_entry pg1 e AND 0xfffff000;
                      pg2 = write_entry pg1 e 0
                  in Some (ESUCCESS, pg2\<lparr>freed := freed pg2 @ [phys]\<rparr>)
             else Some (ESUCCESS, pg1)
           }
     }"

fun sync_completely_loop ::
  "mem_consts \<Rightarrow> (fdref \<Rightarrow> u64 \<Rightarrow> nat \<times> errno) \<Rightarrow> u8 \<Rightarrow> mem_mapping \<Rightarrow> u32 \<Rightarrow> nat \<Rightarrow> paging
    \<Rightarrow> (errno \<times> paging) option" where
  "sync_completely_loop K pwrite flags m page 0 pg = Some (ESUCCESS, pg)"
| "sync_completely_loop K pwrite flags m page (Suc left) pg =
     do {
       page_entry \<leftarrow> get_page_entry pg m page;
       (res, pg') \<leftarrow>
         (case page_entry of
            None \<Rightarrow> Some (ESUCCESS, pg)
          | Some e \<Rightarrow>
              if has (read_entry pg e) 1 then sync K pwrite flags m page pg
              else Some (ESUCCESS, pg));
       if res \<noteq> ESUCCESS then Some (res, pg')
       else sync_completely_loop K pwrite flags m (page + 1) left pg'
     }"

definition sync_completely ::
  "mem_consts \<Rightarrow> (fdref \<Rightarrow> u64 \<Rightarrow> nat \<times> errno) \<Rightarrow> u8 \<Rightarrow> mem_mapping \<Rightarrow> paging
    \<Rightarrow> (errno \<times> paging) option" where
  "sync_completely K pwrite flags m pg =
     sync_completely_loop K pwrite flags m 0 (unat (number_of_pages m)) pg"

fun all_unbacked :: "paging \<Rightarrow> mem_mapping \<Rightarrow> u32 \<Rightarrow> nat \<Rightarrow> unit option" where
  "all_unbacked pg m page 0 = Some ()"
| "all_unbacked pg m page (Suc left) =
     do { b \<leftarrow> is_backed pg m page; kassert (\<not> b); all_unbacked pg m (page + 1) left }"

text \<open>The destructor only checks that every page was given back.\<close>

definition mem_mapping_destroy :: "paging \<Rightarrow> mem_mapping \<Rightarrow> unit option" where
  "mem_mapping_destroy pg m = all_unbacked pg m 0 (unat (number_of_pages m))"

definition unmap_completely ::
  "mem_consts \<Rightarrow> (fdref \<Rightarrow> u64 \<Rightarrow> nat \<times> errno) \<Rightarrow> mem_mapping \<Rightarrow> paging \<Rightarrow> paging option" where
  "unmap_completely K pwrite m pg =
     map_option snd (sync_completely K pwrite (K MS_SYNC OR K MS_INVALIDATE) m pg)"

text \<open>The result is this mapping, resized, and the new mapping.\<close>

definition split_at :: "mem_mapping \<Rightarrow> u32 \<Rightarrow> bool \<Rightarrow> (mem_mapping \<times> mem_mapping) option" where
  "split_at m page return_left =
     do {
       kassert (page > 0);
       kassert (page < number_of_pages m);
       let (my_pages, their_pages, my_address, their_address, my_offset, their_offset) =
         (if return_left
          then (number_of_pages m - page, page,
                page_virtual_address m page, virtual_address m,
                fd_offset m page, backing_offset m)
          else (page, number_of_pages m - page,
                virtual_address m, page_virtual_address m page,
                backing_offset m, fd_offset m page));
       new_mapping \<leftarrow> mem_mapping_create their_address their_pages (backing_fd m) their_offset
                        (protection m) False (advice m);
       Some (m\<lparr>number_of_pages := my_pages, virtual_address := my_address,
               backing_offset := my_offset\<rparr>, new_mapping)
     }"

subsection \<open>Well-formed mappings and the pages they cover\<close>

text \<open>
  The assertions of the constructor, without the wrap-around: a mapping lies below the kernel and
  has at least one page. Page numbers are natural numbers from here on.
\<close>

definition mapping_wf :: "mem_mapping \<Rightarrow> bool" where
  "mapping_wf m \<longleftrightarrow>
     unat (virtual_address m) mod 4096 = 0 \<and> 0 < number_of_pages m
     \<and> unat (virtual_address m) + unat (number_of_pages m) * 4096 \<le> 0xc0000000"

definition first_page :: "mem_mapping \<Rightarrow> nat" where
  "first_page m = unat (virtual_address m) div 4096"

definition page_count :: "mem_mapping \<Rightarrow> nat" where
  "page_count m = unat (number_of_pages m)"

definition mapped_pages :: "mem_mapping \<Rightarrow> nat set" where
  "mapped_pages m = {first_page m ..< first_page m + page_count m}"

text \<open>What a process observes of a page: its protection, the file behind it and where in the file.\<close>

record page_attr =
  attr_protection :: u8
  attr_fd :: "fdref option"
  attr_offset :: u64
  attr_advice :: u8

definition page_attrs :: "mem_mapping \<Rightarrow> nat \<rightharpoonup> page_attr" where
  "page_attrs m p =
     (if p \<in> mapped_pages m
      then Some \<lparr>attr_protection = protection m, attr_fd = backing_fd m,
                 attr_offset = backing_offset m + of_nat ((p - first_page m) * 4096),
                 attr_advice = advice m\<rparr>
      else None)"

lemma unat_PAGE_SIZE [simp]: "unat PAGE_SIZE = 4096"
  by (simp add: PAGE_SIZE_def)

lemma unat_u32_lt: "unat (a :: u32) < 2 ^ 32"
  by (rule order_less_le_trans[OF unsigned_less]) simp

lemma unat_add_u32: "unat a + unat b < 2 ^ 32 \<Longrightarrow> unat (a + b :: u32) = unat a + unat b"
  by (simp add: unat_word_ariths)

lemma unat_mult_u32: "unat a * unat b < 2 ^ 32 \<Longrightarrow> unat (a * b :: u32) = unat a * unat b"
  by (simp add: unat_word_ariths)

lemma wf_page_count: "mapping_wf m \<Longrightarrow> page_count m \<le> 0xc0000 \<and> 0 < page_count m"
  by (auto simp: mapping_wf_def page_count_def unat_gt_0 word_neq_0_conv)

lemma wf_address: "mapping_wf m \<Longrightarrow> unat (virtual_address m) = first_page m * 4096"
  by (auto simp: mapping_wf_def first_page_def)

lemma wf_limit: "mapping_wf m \<Longrightarrow> first_page m + page_count m \<le> 0xc0000"
  using wf_address[of m] unfolding mapping_wf_def page_count_def by linarith

text \<open>The end of a mapping, as the code computes it.\<close>

lemma wf_end:
  assumes "mapping_wf m"
  shows "unat (virtual_address m + number_of_pages m * PAGE_SIZE) = (first_page m + page_count m) * 4096"
proof -
  have "unat (number_of_pages m * PAGE_SIZE) = page_count m * 4096"
    using wf_page_count[OF assms] by (subst unat_mult_u32) (auto simp: page_count_def)
  then show ?thesis
    using wf_limit[OF assms] wf_address[OF assms]
    by (subst unat_add_u32) (simp_all add: add_mult_distrib)
qed

lemma in_mapped_pages_iff [simp]:
  "p \<in> mapped_pages m \<longleftrightarrow> first_page m \<le> p \<and> p < first_page m + page_count m"
  by (simp add: mapped_pages_def)

lemma mem_mapping_create_wf:
  assumes "mem_mapping_create a n b off prot s adv = Some m" "0 < n"
    "unat a + unat n * 4096 < 2 ^ 32"
  shows "mapping_wf m"
proof -
  have "unat (n * PAGE_SIZE) = unat n * 4096"
    using assms(3) by (subst unat_mult_u32) simp_all
  then have "unat (a + n * PAGE_SIZE) = unat a + unat n * 4096"
    using assms(3) by (subst unat_add_u32) simp_all
  then show ?thesis
    using assms(1,2)
    by (auto simp: mem_mapping_create_def mapping_wf_def kernel_virtual_base_def word_le_nat_alt
        PAGE_SIZE_def unat_mod word_unat_eq_iff split: if_splits)
qed

subsection \<open>Splitting a mapping\<close>

definition left_part :: "mem_mapping \<Rightarrow> u32 \<Rightarrow> mem_mapping" where
  "left_part m page = m\<lparr>number_of_pages := page\<rparr>"

definition right_part :: "mem_mapping \<Rightarrow> u32 \<Rightarrow> mem_mapping" where
  "right_part m page =
     m\<lparr>number_of_pages := number_of_pages m - page,
       virtual_address := page_virtual_address m page, backing_offset := fd_offset m page\<rparr>"

lemma shared_irrelevant [simp]:
  "mapping_wf (m\<lparr>shared := s\<rparr>) = mapping_wf m"
  "first_page (m\<lparr>shared := s\<rparr>) = first_page m"
  "page_count (m\<lparr>shared := s\<rparr>) = page_count m"
  "mapped_pages (m\<lparr>shared := s\<rparr>) = mapped_pages m"
  "page_attrs (m\<lparr>shared := s\<rparr>) = page_attrs m"
  by (simp_all add: mapping_wf_def first_page_def page_count_def mapped_pages_def page_attrs_def
      fun_eq_iff)

lemma unat_page_virtual_address:
  assumes "mapping_wf m" "unat page < page_count m"
  shows "unat (page_virtual_address m page) = (first_page m + unat page) * 4096"
proof -
  have lt: "first_page m + unat page < 0xc0000"
    using assms wf_limit[of m] by linarith
  then have "unat (PAGE_SIZE * page) = unat page * 4096"
    by (subst unat_mult_u32) simp_all
  with lt show ?thesis
    unfolding page_virtual_address_def using wf_address[OF assms(1)]
    by (subst unat_add_u32) simp_all
qed

lemma split_parts:
  assumes "mapping_wf m" "0 < page" "page < number_of_pages m"
  shows "mapping_wf (left_part m page)" "mapping_wf (right_part m page)"
    "first_page (left_part m page) = first_page m" "page_count (left_part m page) = unat page"
    "first_page (right_part m page) = first_page m + unat page"
    "page_count (right_part m page) = page_count m - unat page"
proof -
  have lt: "unat page < page_count m" "0 < unat page"
    using assms(2,3) by (simp_all add: page_count_def word_less_nat_alt)
  have va: "unat (page_virtual_address m page) = (first_page m + unat page) * 4096"
    using assms(1) lt(1) by (rule unat_page_virtual_address)
  have cnt: "unat (number_of_pages m - page) = page_count m - unat page"
    using assms(3) by (simp add: page_count_def unat_sub order_less_imp_le)
  show fp: "first_page (left_part m page) = first_page m"
    and pc: "page_count (left_part m page) = unat page"
    by (simp_all add: left_part_def first_page_def page_count_def)
  show fp': "first_page (right_part m page) = first_page m + unat page"
    and pc': "page_count (right_part m page) = page_count m - unat page"
    using va cnt by (simp_all add: right_part_def first_page_def page_count_def)
  have "unat page * 4096 \<le> page_count m * 4096"
    using lt by simp
  then show "mapping_wf (left_part m page)"
    using assms(1,2) unfolding mapping_wf_def left_part_def page_count_def by (auto simp: ac_simps)
  obtain c where c: "page_count m = unat page + c"
    using lt(1) less_imp_add_positive by metis
  then have "(first_page m + unat page) * 4096 + (page_count m - unat page) * 4096 \<le> 0xc0000000"
    using wf_limit[OF assms(1)] by simp
  moreover have "0 < number_of_pages m - page"
    using cnt lt by (simp add: word_less_nat_alt)
  ultimately show "mapping_wf (right_part m page)"
    unfolding mapping_wf_def using va cnt by (simp add: right_part_def)
qed

lemma fd_offset_eq:
  assumes "mapping_wf m" "unat page < page_count m"
  shows "fd_offset m page = backing_offset m + of_nat (unat page * 4096)"
proof -
  have "unat page < 0xc0000"
    using assms wf_limit[of m] by linarith
  then have "unat (PAGE_SIZE * page) = unat page * 4096"
    by (subst unat_mult_u32) simp_all
  moreover have "(ucast (PAGE_SIZE * page) :: u64) = of_nat (unat (PAGE_SIZE * page))"
    by simp
  ultimately have "(ucast (PAGE_SIZE * page) :: u64) = of_nat (unat page * 4096)"
    by (simp only:)
  then show ?thesis
    by (simp add: fd_offset_def)
qed

lemma split_attrs:
  assumes "mapping_wf m" "0 < page" "page < number_of_pages m"
  shows "page_attrs m = page_attrs (left_part m page) ++ page_attrs (right_part m page)"
proof
  fix p
  have lt: "unat page < page_count m" "0 < unat page"
    using assms(2,3) by (simp_all add: page_count_def word_less_nat_alt)
  have off: "fd_offset m page = backing_offset m + of_nat (unat page * 4096)"
    using fd_offset_eq[OF assms(1) lt(1)] .
  note parts = split_parts[OF assms]
  consider "p < first_page m + unat page" | "first_page m + unat page \<le> p"
    by linarith
  then show "page_attrs m p = (page_attrs (left_part m page) ++ page_attrs (right_part m page)) p"
  proof cases
    case 1
    then show ?thesis
      using lt parts by (simp add: map_add_def page_attrs_def) (simp add: left_part_def)
  next
    case 2
    then have "p - first_page m = (p - (first_page m + unat page)) + unat page"
      by simp
    then have "(of_nat ((p - first_page m) * 4096) :: u64)
        = of_nat (unat page * 4096) + of_nat ((p - (first_page m + unat page)) * 4096)"
      by (simp only: add_mult_distrib of_nat_add add.commute)
    with 2 show ?thesis
      using lt parts off by (simp add: map_add_def page_attrs_def) (simp add: right_part_def algebra_simps)
  qed
qed

lemma split_at_left:
  assumes "mapping_wf m" "0 < page" "page < number_of_pages m"
  shows "split_at m page True = Some (right_part m page, (left_part m page)\<lparr>shared := False\<rparr>)"
proof -
  have "mapping_wf (left_part m page)"
    using split_parts[OF assms] by simp
  from wf_end[OF this] wf_limit[OF this] wf_address[OF this] wf_page_count[OF this] this
  have "virtual_address m mod PAGE_SIZE = 0" "virtual_address m < kernel_virtual_base"
    "virtual_address m + page * PAGE_SIZE \<le> kernel_virtual_base"
    by (auto simp: left_part_def mapping_wf_def word_unat_eq_iff unat_mod word_less_nat_alt
        word_le_nat_alt kernel_virtual_base_def)
  with assms(2,3) show ?thesis
    by (simp add: split_at_def mem_mapping_create_def left_part_def right_part_def)
qed

lemma split_at_right:
  assumes "mapping_wf m" "0 < page" "page < number_of_pages m"
  shows "split_at m page False = Some (left_part m page, (right_part m page)\<lparr>shared := False\<rparr>)"
proof -
  have "mapping_wf (right_part m page)"
    using split_parts[OF assms] by simp
  from wf_end[OF this] wf_limit[OF this] wf_address[OF this] wf_page_count[OF this] this
  have "page_virtual_address m page mod PAGE_SIZE = 0" "page_virtual_address m page < kernel_virtual_base"
    "page_virtual_address m page + (number_of_pages m - page) * PAGE_SIZE \<le> kernel_virtual_base"
    by (auto simp: right_part_def mapping_wf_def word_unat_eq_iff unat_mod word_less_nat_alt
        word_le_nat_alt kernel_virtual_base_def)
  with assms(2,3) show ?thesis
    by (simp add: split_at_def mem_mapping_create_def left_part_def right_part_def)
qed

lemma page_num_correct:
  assumes "mapping_wf m"
  shows "page_num m addr =
    (if unat addr div 4096 \<in> mapped_pages m
     then Some (of_nat (unat addr div 4096 - first_page m)) else None)"
proof (cases "addr < virtual_address m")
  case True
  then have "unat addr div 4096 < first_page m"
    using wf_address[OF assms] by (simp add: word_less_nat_alt less_mult_imp_div_less)
  with True show ?thesis
    by (simp add: page_num_def)
next
  case False
  then have le: "virtual_address m \<le> addr"
    by simp
  obtain d where d: "unat addr = first_page m * 4096 + d"
    using le wf_address[OF assms] by (metis le_iff_add word_le_nat_alt)
  have sub: "unat (addr - virtual_address m) = d"
    using le d wf_address[OF assms] by (simp add: unat_sub)
  have dv: "unat addr div 4096 = first_page m + d div 4096"
    using d by simp
  have q: "unat ((addr - virtual_address m) div PAGE_SIZE) = d div 4096"
    using sub by (simp add: unat_div)
  moreover have "(addr - virtual_address m) div PAGE_SIZE
      = of_nat (unat ((addr - virtual_address m) div PAGE_SIZE))"
    by simp
  ultimately have "(addr - virtual_address m) div PAGE_SIZE = of_nat (d div 4096)"
    by (simp only:)
  with False q dv show ?thesis
    by (simp add: page_num_def Let_def word_less_nat_alt page_count_def)
qed

subsection \<open>Page table entries\<close>

definition paging_wf :: "paging \<Rightarrow> bool" where
  "paging_wf pg \<longleftrightarrow>
     length (page_directory pg) = 1024 \<and> length (page_tables pg) = 0x300
     \<and> (\<forall>i < 0x300. has (page_directory pg ! i) 1 \<longrightarrow>
          (\<exists>t. page_tables pg ! i = Some t \<and> length t = 1024))"

text \<open>The entry of a page of the user's part, 0 where there is no page table.\<close>

definition pte :: "paging \<Rightarrow> nat \<Rightarrow> u32" where
  "pte pg p =
     (if p < 0xc0000 \<and> has (page_directory pg ! (p div 1024)) 1
      then the (page_tables pg ! (p div 1024)) ! (p mod 1024)
      else 0)"

lemma new_paging_wf:
  assumes "length kernel_pages = 0x100"
  shows "paging_wf (new_paging kernel_pages)" "pte (new_paging kernel_pages) P = 0"
proof -
  show "paging_wf (new_paging kernel_pages)"
    using assms by (simp add: paging_wf_def new_paging_def nth_append has_def)
  have "P div 1024 < 0x300" if "P < 0xc0000"
    using that by (intro less_mult_imp_div_less) simp
  then show "pte (new_paging kernel_pages) P = 0"
    by (auto simp: pte_def new_paging_def nth_append has_def)
qed

lemma page_table_num_page:
  assumes "unat address = P * 4096"
  shows "page_table_num address = P div 1024" "page_entry_num address = P mod 1024"
proof -
  show "page_table_num address = P div 1024"
    unfolding page_table_num_def unat_drop_bit_eq assms by (simp add: drop_bit_eq_div)
  have m: "(0x03ff :: u32) = mask 10"
    by (simp add: mask_eq_exp_minus_1)
  show "page_entry_num address = P mod 1024"
    unfolding page_entry_num_def m
    unfolding take_bit_eq_mask[symmetric] unsigned_take_bit_eq unat_drop_bit_eq assms
    by (simp add: drop_bit_eq_div take_bit_eq_mod)
qed

lemma page_in_wf:
  assumes "mapping_wf m" "page < number_of_pages m"
  shows "unat page < page_count m" "first_page m + unat page < 0xc0000"
    "(first_page m + unat page) div 1024 < 0x300"
proof -
  show lt: "unat page < page_count m"
    using assms(2) by (simp add: page_count_def word_less_nat_alt)
  then show P: "first_page m + unat page < 0xc0000"
    using wf_limit[OF assms(1)] by linarith
  then show "(first_page m + unat page) div 1024 < 0x300"
    by (intro less_mult_imp_div_less) simp
qed

lemma get_page_entry_correct:
  assumes "paging_wf pg" "mapping_wf m" "page < number_of_pages m" "P = first_page m + unat page"
  shows "get_page_entry pg m page =
    Some (if has (page_directory pg ! (P div 1024)) 1 then Some (P div 1024, P mod 1024) else None)"
proof -
  note p = page_in_wf[OF assms(2,3)]
  have "unat (page_virtual_address m page) = P * 4096"
    using unat_page_virtual_address[OF assms(2) p(1)] assms(4) by simp
  from page_table_num_page[OF this] show ?thesis
    using assms(1,3,4) p(3) by (auto simp: get_page_entry_def get_page_table_def Let_def paging_wf_def)
qed

lemma read_entry_pte:
  "has (page_directory pg ! (P div 1024)) 1 \<Longrightarrow> P < 0xc0000 \<Longrightarrow> read_entry pg (P div 1024, P mod 1024) = pte pg P"
  by (simp add: read_entry_def pte_def)

lemma write_entry_simps [simp]:
  "page_directory (write_entry pg e v) = page_directory pg"
  "freed (write_entry pg e v) = freed pg" "flushed (write_entry pg e v) = flushed pg"
  by (simp_all add: write_entry_def)

lemma write_entry_pte:
  assumes "paging_wf pg" "has (page_directory pg ! (P div 1024)) 1" "P < 0xc0000"
  shows "paging_wf (write_entry pg (P div 1024, P mod 1024) v)"
    "pte (write_entry pg (P div 1024, P mod 1024) v) Q = (if Q = P then v else pte pg Q)"
proof -
  have i: "P div 1024 < 0x300"
    using assms(3) by (intro less_mult_imp_div_less) simp
  then obtain t where t: "page_tables pg ! (P div 1024) = Some t" "length t = 1024"
    using assms(1,2) by (auto simp: paging_wf_def)
  then show "paging_wf (write_entry pg (P div 1024, P mod 1024) v)"
    using assms(1) i by (auto simp: paging_wf_def write_entry_def nth_list_update)
  show "pte (write_entry pg (P div 1024, P mod 1024) v) Q = (if Q = P then v else pte pg Q)"
  proof (cases "Q div 1024 = P div 1024")
    case True
    then have "Q = P \<longleftrightarrow> Q mod 1024 = P mod 1024"
      by (metis div_mult_mod_eq)
    moreover have "Q < 0xc0000"
      using True i div_less_iff_less_mult[of 1024 Q "0x300"] by simp
    ultimately show ?thesis
      using assms(1,2) i t True by (simp add: pte_def write_entry_def nth_list_update paging_wf_def)
  next
    case False
    then have "Q \<noteq> P"
      by auto
    with False show ?thesis
      by (simp add: pte_def write_entry_def)
  qed
qed

lemma pte_log [simp]:
  "pte (pg\<lparr>freed := f\<rparr>) = pte pg" "pte (pg\<lparr>flushed := l\<rparr>) = pte pg"
  "paging_wf (pg\<lparr>freed := f\<rparr>) = paging_wf pg" "paging_wf (pg\<lparr>flushed := l\<rparr>) = paging_wf pg"
  by (simp_all add: pte_def paging_wf_def fun_eq_iff)

lemma present_directory: "has (pte pg P) 1 \<Longrightarrow> has (page_directory pg ! (P div 1024)) 1"
  by (auto simp: pte_def has_def split: if_splits)

lemma is_backed_correct:
  assumes "paging_wf pg" "mapping_wf m" "page < number_of_pages m"
  shows "is_backed pg m page = Some (has (pte pg (first_page m + unat page)) 1)"
proof -
  let ?P = "first_page m + unat page"
  show ?thesis
    using get_page_entry_correct[OF assms refl] read_entry_pte[of pg ?P, OF _ page_in_wf(2)[OF assms(2,3)]] present_directory[of pg ?P]
    by (auto simp: is_backed_def)
qed

lemma all_unbacked_ok:
  assumes "paging_wf pg" "mapping_wf m" "unat page + left = page_count m"
    "\<forall>P. first_page m + unat page \<le> P \<and> P < first_page m + page_count m \<longrightarrow> \<not> has (pte pg P) 1"
  shows "all_unbacked pg m page left = Some ()"
  using assms(3,4)
proof (induction left arbitrary: page)
  case (Suc left)
  then have lt: "page < number_of_pages m"
    by (simp add: page_count_def word_less_nat_alt)
  moreover have s: "unat (page + 1) = Suc (unat page)"
    using page_in_wf[OF assms(2) lt] by (subst unat_add_u32) simp_all
  moreover have "all_unbacked pg m (page + 1) left = Some ()"
    using Suc.prems s by (intro Suc.IH) simp_all
  ultimately show ?case
    using is_backed_correct[OF assms(1,2) lt] Suc.prems page_in_wf[OF assms(2) lt] by simp
qed simp

text \<open>
  What unmapping relies on in the CloudABI constants: \<^verbatim>\<open>MS_SYNC | MS_INVALIDATE\<close> has no bit in common with
  \<^verbatim>\<open>MS_ASYNC\<close>, and \<^verbatim>\<open>MS_INVALIDATE\<close> has a bit.
\<close>

definition ms_flags_ok :: "mem_consts \<Rightarrow> bool" where
  "ms_flags_ok K \<longleftrightarrow> \<not> has (K MS_SYNC OR K MS_INVALIDATE) (K MS_ASYNC) \<and> K MS_INVALIDATE \<noteq> 0"

lemma ms_flags_okD:
  assumes "ms_flags_ok K"
  shows "\<not> has (K MS_SYNC OR K MS_INVALIDATE) (K MS_ASYNC)"
    "has (K MS_SYNC OR K MS_INVALIDATE) (K MS_INVALIDATE)"
proof -
  show "\<not> has (K MS_SYNC OR K MS_INVALIDATE) (K MS_ASYNC)"
    using assms by (simp add: ms_flags_ok_def)
  have "has (K MS_INVALIDATE) (K MS_INVALIDATE)"
    using assms by (simp add: ms_flags_ok_def has_def)
  then show "has (K MS_SYNC OR K MS_INVALIDATE) (K MS_INVALIDATE)"
    by (auto simp: has_bit_iff bit_or_iff)
qed

lemma clear_dirty_frame: "(x AND - 65) AND 0xfffff000 = x AND (0xfffff000 :: u32)"
  by (simp add: and.assoc)

lemma sync_unmap:
  assumes K: "ms_flags_ok K" and pw: "shared m \<longrightarrow> (\<forall>fd off. pwrite fd off = (4096, ESUCCESS))"
    and wf: "paging_wf pg" "mapping_wf m" and page: "page < number_of_pages m"
    and P: "P = first_page m + unat page"
  shows "\<exists>pg'. sync K pwrite (K MS_SYNC OR K MS_INVALIDATE) m page pg = Some (ESUCCESS, pg')
      \<and> paging_wf pg' \<and> (\<forall>Q. pte pg' Q = (if Q = P \<and> has (pte pg P) 1 then 0 else pte pg Q))
      \<and> freed pg' = freed pg @ (if has (pte pg P) 1 then [pte pg P AND 0xfffff000] else [])"
proof (cases "has (pte pg P) 1")
  case False
  then show ?thesis
    using get_page_entry_correct[OF wf page P] page wf(1)
      read_entry_pte[of pg P, OF _ page_in_wf(2)[OF wf(2) page, folded P]]
    by (auto simp: sync_def)
next
  case True
  let ?e = "(P div 1024, P mod 1024)"
  have dir: "has (page_directory pg ! (P div 1024)) 1"
    using True by (rule present_directory)
  have lt: "P < 0xc0000"
    using page_in_wf[OF wf(2) page] P by simp
  have entry: "get_page_entry pg m page = Some (Some ?e)" "read_entry pg ?e = pte pg P"
    using get_page_entry_correct[OF wf page P] read_entry_pte[of pg P] dir lt by simp_all
  define pg1 where "pg1 = (if has (K MS_SYNC OR K MS_INVALIDATE) (K MS_SYNC) \<and> shared m
      \<and> has (pte pg P) 0x40 \<and> backing_fd m \<noteq> None
    then (write_entry pg ?e (pte pg P AND NOT 0x40))
      \<lparr>flushed := flushed pg @ [(the (backing_fd m), fd_offset m page)]\<rparr> else pg)"
  have pg1: "paging_wf pg1" "page_directory pg1 = page_directory pg" "freed pg1 = freed pg"
    "read_entry pg1 ?e AND 0xfffff000 = pte pg P AND 0xfffff000"
    "\<forall>Q. Q \<noteq> P \<longrightarrow> pte pg1 Q = pte pg Q"
    using write_entry_pte[OF wf(1) dir lt] wf(1) read_entry_pte[of pg1 P] dir lt entry(2)
    by (auto simp: pg1_def clear_dirty_frame read_entry_pte)
  define pg2 where "pg2 = (write_entry pg1 ?e 0)\<lparr>freed := freed pg @ [pte pg P AND 0xfffff000]\<rparr>"
  have "sync K pwrite (K MS_SYNC OR K MS_INVALIDATE) m page pg = Some (ESUCCESS, pg2)"
    using entry page True ms_flags_okD[OF K] pw pg1(3,4)
    by (auto simp: sync_def Let_def pg2_def pg1_def split: option.splits)
  moreover have "paging_wf pg2" "\<forall>Q. pte pg2 Q = (if Q = P then 0 else pte pg Q)"
    using write_entry_pte(1,2)[OF pg1(1) _ lt] dir pg1(2,5) by (simp_all add: pg2_def)
  ultimately show ?thesis
    using True by (simp add: pg2_def)
qed

lemma sync_completely_loop_unmap:
  assumes K: "ms_flags_ok K" and pw: "shared m \<longrightarrow> (\<forall>fd off. pwrite fd off = (4096, ESUCCESS))"
    and wf: "mapping_wf m"
  shows "paging_wf pg \<Longrightarrow> unat page + left = page_count m \<Longrightarrow>
    \<exists>pg'. sync_completely_loop K pwrite (K MS_SYNC OR K MS_INVALIDATE) m page left pg
            = Some (ESUCCESS, pg') \<and> paging_wf pg'
      \<and> (\<forall>Q. pte pg' Q = (if first_page m + unat page \<le> Q \<and> Q < first_page m + page_count m
                              \<and> has (pte pg Q) 1 then 0 else pte pg Q))
      \<and> freed pg' = freed pg @ map (\<lambda>Q. pte pg Q AND 0xfffff000)
          (filter (\<lambda>Q. has (pte pg Q) 1) [first_page m + unat page ..< first_page m + page_count m])"
proof (induction left arbitrary: page pg)
  case (Suc left)
  let ?P = "first_page m + unat page" and ?fl = "K MS_SYNC OR K MS_INVALIDATE"
  have lt: "page < number_of_pages m"
    using Suc.prems(2) by (simp add: page_count_def word_less_nat_alt)
  have s: "unat (page + 1) = Suc (unat page)"
    using page_in_wf[OF wf lt] by (subst unat_add_u32) simp_all
  obtain pg1 where pg1: "sync K pwrite ?fl m page pg = Some (ESUCCESS, pg1)" "paging_wf pg1"
    "\<forall>Q. pte pg1 Q = (if Q = ?P \<and> has (pte pg ?P) 1 then 0 else pte pg Q)"
    "freed pg1 = freed pg @ (if has (pte pg ?P) 1 then [pte pg ?P AND 0xfffff000] else [])"
    using sync_unmap[OF K pw Suc.prems(1) wf lt refl] by blast
  obtain pg2 where pg2:
    "sync_completely_loop K pwrite ?fl m (page + 1) left pg1 = Some (ESUCCESS, pg2)" "paging_wf pg2"
    "\<forall>Q. pte pg2 Q = (if Suc ?P \<le> Q \<and> Q < first_page m + page_count m \<and> has (pte pg1 Q) 1
                       then 0 else pte pg1 Q)"
    "freed pg2 = freed pg1 @ map (\<lambda>Q. pte pg1 Q AND 0xfffff000)
          (filter (\<lambda>Q. has (pte pg1 Q) 1) [Suc ?P ..< first_page m + page_count m])"
    using Suc.IH[OF pg1(2), of "page + 1"] Suc.prems(2) s by auto
  have "sync_completely_loop K pwrite ?fl m page (Suc left) pg = Some (ESUCCESS, pg2)"
  proof (cases "has (pte pg ?P) 1")
    case True
    with get_page_entry_correct[OF Suc.prems(1) wf lt refl] present_directory[of pg ?P]
      read_entry_pte[of pg ?P, OF _ page_in_wf(2)[OF wf lt]] pg1(1) pg2(1) show ?thesis
      by simp
  next
    case False
    then have "sync K pwrite ?fl m page pg = Some (ESUCCESS, pg)"
      using get_page_entry_correct[OF Suc.prems(1) wf lt refl] read_entry_pte[of pg ?P, OF _ page_in_wf(2)[OF wf lt]] lt
      by (auto simp: sync_def)
    with False pg1(1) pg2(1) get_page_entry_correct[OF Suc.prems(1) wf lt refl]
      read_entry_pte[of pg ?P, OF _ page_in_wf(2)[OF wf lt]] show ?thesis
      by auto
  qed
  moreover have "[?P ..< first_page m + page_count m] = ?P # [Suc ?P ..< first_page m + page_count m]"
    using Suc.prems(2) by (simp add: upt_conv_Cons)
  moreover have "filter (\<lambda>Q. has (pte pg1 Q) 1) [Suc ?P ..< first_page m + page_count m]
      = filter (\<lambda>Q. has (pte pg Q) 1) [Suc ?P ..< first_page m + page_count m]"
    using pg1(3) by (intro filter_cong) auto
  moreover have "map (\<lambda>Q. pte pg1 Q AND 0xfffff000)
      (filter (\<lambda>Q. has (pte pg Q) 1) [Suc ?P ..< first_page m + page_count m])
    = map (\<lambda>Q. pte pg Q AND 0xfffff000)
      (filter (\<lambda>Q. has (pte pg Q) 1) [Suc ?P ..< first_page m + page_count m])"
    using pg1(3) by (intro map_cong) auto
  moreover have "\<forall>Q. pte pg2 Q = (if ?P \<le> Q \<and> Q < first_page m + page_count m \<and> has (pte pg Q) 1
                       then 0 else pte pg Q)"
    using pg1(3) pg2(3) Suc.prems(2) by (auto simp: Suc_le_eq le_less)
  ultimately show ?case
    using pg2 pg1(4) by auto
qed auto

lemma unmap_completely_correct:
  assumes "ms_flags_ok K" "shared m \<longrightarrow> (\<forall>fd off. pwrite fd off = (4096, ESUCCESS))"
    "mapping_wf m" "paging_wf pg"
  shows "\<exists>pg'. unmap_completely K pwrite m pg = Some pg' \<and> paging_wf pg'
      \<and> mem_mapping_destroy pg' m = Some ()
      \<and> (\<forall>Q. pte pg' Q = (if Q \<in> mapped_pages m \<and> has (pte pg Q) 1 then 0 else pte pg Q))
      \<and> freed pg' = freed pg @ map (\<lambda>Q. pte pg Q AND 0xfffff000)
          (filter (\<lambda>Q. has (pte pg Q) 1) [first_page m ..< first_page m + page_count m])"
proof -
  obtain pg' where pg': "unmap_completely K pwrite m pg = Some pg'" "paging_wf pg'"
    "\<forall>Q. pte pg' Q = (if first_page m \<le> Q \<and> Q < first_page m + page_count m
                        \<and> has (pte pg Q) 1 then 0 else pte pg Q)"
    "freed pg' = freed pg @ map (\<lambda>Q. pte pg Q AND 0xfffff000)
          (filter (\<lambda>Q. has (pte pg Q) 1) [first_page m ..< first_page m + page_count m])"
    using sync_completely_loop_unmap[OF assms(1-4), of 0 "page_count m"]
    by (auto simp: unmap_completely_def sync_completely_def page_count_def)
  moreover have "mem_mapping_destroy pg' m = Some ()"
    unfolding mem_mapping_destroy_def page_count_def[symmetric]
    using pg'(3) by (intro all_unbacked_ok[OF pg'(2) assms(3)]) (auto simp: has_def)
  ultimately show ?thesis
    by simp
qed

subsection \<open>Protection and backing\<close>

lemma set_protection_loop_correct:
  assumes wf: "mapping_wf m"
  shows "paging_wf pg \<Longrightarrow> unat page + left = page_count m \<Longrightarrow>
    \<exists>pg'. set_protection_loop pg m bits page left = Some pg' \<and> paging_wf pg'
      \<and> (\<forall>Q. pte pg' Q = (if first_page m + unat page \<le> Q \<and> Q < first_page m + page_count m
                              \<and> has (pte pg Q) 1 then (pte pg Q AND 0xfffffff9) OR bits else pte pg Q))
      \<and> freed pg' = freed pg"
proof (induction left arbitrary: page pg)
  case (Suc left)
  let ?P = "first_page m + unat page"
  have lt: "page < number_of_pages m"
    using Suc.prems(2) by (simp add: page_count_def word_less_nat_alt)
  have s: "unat (page + 1) = Suc (unat page)"
    using page_in_wf[OF wf lt] by (subst unat_add_u32) simp_all
  define pg1 where "pg1 = (if has (pte pg ?P) 1
    then write_entry pg (?P div 1024, ?P mod 1024) ((pte pg ?P AND 0xfffffff9) OR bits) else pg)"
  have step: "set_protection_loop pg m bits page (Suc left) = set_protection_loop pg1 m bits (page + 1) left"
    using get_page_entry_correct[OF Suc.prems(1) wf lt refl] present_directory[of pg ?P]
      read_entry_pte[of pg ?P, OF _ page_in_wf(2)[OF wf lt]] by (auto simp: pg1_def Let_def)
  have pg1: "paging_wf pg1" "freed pg1 = freed pg"
    "\<forall>Q. pte pg1 Q = (if Q = ?P \<and> has (pte pg Q) 1 then (pte pg Q AND 0xfffffff9) OR bits else pte pg Q)"
    using write_entry_pte[OF Suc.prems(1) present_directory page_in_wf(2)[OF wf lt]] Suc.prems(1)
    by (auto simp: pg1_def)
  from Suc.IH[OF pg1(1), of "page + 1"] Suc.prems(2) s pg1(2,3) show ?case
    unfolding step by (auto simp: Suc_le_eq le_less)
qed auto

lemma set_protection_correct:
  assumes "mapping_wf m" "paging_wf pg" "prot_to_bits K p = Some bits"
  shows "\<exists>pg'. set_protection K p m pg = Some (m\<lparr>protection := p\<rparr>, pg') \<and> paging_wf pg'
      \<and> (\<forall>Q. pte pg' Q = (if Q \<in> mapped_pages m \<and> has (pte pg Q) 1
                            then (pte pg Q AND 0xfffffff9) OR bits else pte pg Q))
      \<and> freed pg' = freed pg"
proof -
  have eq: "mapping_wf (m\<lparr>protection := p\<rparr>) = mapping_wf m"
    "first_page (m\<lparr>protection := p\<rparr>) = first_page m" "page_count (m\<lparr>protection := p\<rparr>) = page_count m"
    by (simp_all add: mapping_wf_def first_page_def page_count_def)
  show ?thesis
    using set_protection_loop_correct[of "m\<lparr>protection := p\<rparr>" pg 0 "page_count m" bits] assms
    by (auto simp: set_protection_def eq Let_def page_count_def)
qed

lemma ensure_get_page_table_correct:
  assumes "paging_wf pg" "i < 0x300" "tbl = Some t" "t AND 0xfff = 0"
  shows "\<exists>pg'. ensure_get_page_table pg tbl i = Some pg' \<and> paging_wf pg'
      \<and> has (page_directory pg' ! i) 1 \<and> pte pg' = pte pg \<and> freed pg' = freed pg"
proof (cases "has (page_directory pg ! i) 1")
  case True
  with assms show ?thesis
    by (auto simp: ensure_get_page_table_def)
next
  case False
  have "has (t OR 7) 1"
    by (auto simp: has_bit_iff bit_or_iff intro!: exI[of _ 0])
  with False assms show ?thesis
    by (auto simp: ensure_get_page_table_def paging_wf_def pte_def fun_eq_iff nth_list_update)
qed

lemma ensure_backed_correct:
  assumes wf: "mapping_wf m" "paging_wf pg" and page: "page < number_of_pages m"
    and P: "P = first_page m + unat page"
    and alloc: "tbl = Some t" "t AND 0xfff = 0" "frame = Some phys" "phys AND 0xfff = 0"
    and m: "shared m \<longrightarrow> backing_fd m \<noteq> None" "prot_to_bits K (protection m) = Some bits"
  shows "\<exists>pg'. ensure_backed K pg tbl frame m page = Some pg' \<and> paging_wf pg'
      \<and> (\<forall>Q. pte pg' Q = (if Q = P \<and> \<not> has (pte pg P) 1 then phys OR bits OR 1 else pte pg Q))
      \<and> freed pg' = freed pg"
proof -
  note p = page_in_wf[OF wf(1) page, folded P]
  have num: "page_table_num (page_virtual_address m page) = P div 1024"
    "page_entry_num (page_virtual_address m page) = P mod 1024"
    using page_table_num_page[of "page_virtual_address m page" P]
      unat_page_virtual_address[OF wf(1) p(1)] P by simp_all
  obtain pg1 where pg1: "ensure_get_page_table pg tbl (P div 1024) = Some pg1" "paging_wf pg1"
    "has (page_directory pg1 ! (P div 1024)) 1" "pte pg1 = pte pg" "freed pg1 = freed pg"
    using ensure_get_page_table_correct[OF wf(2) p(3) alloc(1,2)] by blast
  have "ensure_backed K pg tbl frame m page
      = Some (if has (pte pg P) 1 then pg1
              else write_entry pg1 (P div 1024, P mod 1024) (phys OR bits OR 1))"
    using pg1(1,3,4) num page alloc(3,4) m read_entry_pte[OF pg1(3) p(2)]
    by (simp add: ensure_backed_def ensure_get_page_entry_def Let_def)
  then show ?thesis
    using write_entry_pte[OF pg1(2,3) p(2)] pg1(2,4,5) by auto
qed

end
