(* ===== verification/Address_Space.thy ===== *)
theory Address_Space
  imports Mem_Mapping
begin

text \<open>
  The address space of a process: the memory half of \<^verbatim>\<open>fd/process_fd.cpp\<close> (\<^verbatim>\<open>add_mem_mapping\<close>,
  \<^verbatim>\<open>iterate_mappings\<close>, \<^verbatim>\<open>mem_unmap\<close>, \<^verbatim>\<open>mem_protect\<close>, \<^verbatim>\<open>mem_sync\<close>, \<^verbatim>\<open>handle_pagefault\<close>,
  \<^verbatim>\<open>find_free_virtual_range\<close>). The list of mappings is a HOL list in the order of the linked list.

  The abstract view of an address space is a partial map from page numbers to page
  attributes, \<open>space\<close>. The refinement lemmas say what each operation does to
  that map: unmapping removes exactly the pages of its range, changing the protection
  changes exactly the protection of the mapped pages of its range, and so on, however
  the mappings have to be split on the way.
\<close>

record vm =
  mappings :: "mem_mapping list"
  paging :: paging

definition mapping_begin :: "mem_mapping \<Rightarrow> u32" where
  "mapping_begin m = virtual_address m"

definition mapping_end :: "mem_mapping \<Rightarrow> u32" where
  "mapping_end m = virtual_address m + number_of_pages m * PAGE_SIZE"

text \<open>
  \<^verbatim>\<open>iterate_mappings\<close>: the list is walked once; \<open>f\<close> is called on every mapping inside the range, after a mapping that
  sticks out of it was split. The result is the new list and the state that \<open>f\<close> changes.
\<close>

partial_function (option) iterate_mappings_from ::
  "u32 \<Rightarrow> u32 \<Rightarrow> (mem_mapping \<Rightarrow> 's \<Rightarrow> (mem_mapping \<times> 's) option) \<Rightarrow> mem_mapping list \<Rightarrow> 's
    \<Rightarrow> (mem_mapping list \<times> 's) option" where
  "iterate_mappings_from begin endd f items s =
     (case items of
        [] \<Rightarrow> Some ([], s)
      | item # rest \<Rightarrow>
          do {
            let i_begin = mapping_begin item;
            let i_end = mapping_end item;
            kassert (i_begin < i_end);
            if endd \<le> i_begin \<or> begin \<ge> i_end
            then do {
              (rest', s') \<leftarrow> iterate_mappings_from begin endd f rest s;
              Some (item # rest', s')
            }
            else if begin \<le> i_begin \<and> endd \<ge> i_end
            then do {
              (item', s1) \<leftarrow> f item s;
              (rest', s') \<leftarrow> iterate_mappings_from begin endd f rest s1;
              Some (item' # rest', s')
            }
            else if begin \<le> i_begin
            then do {
              kassert (endd > i_begin);
              kassert ((endd - i_begin) mod PAGE_SIZE = 0);
              let unmap_pages = (endd - i_begin) div PAGE_SIZE;
              (item1, new_mapping) \<leftarrow> split_at item unmap_pages False;
              kassert (number_of_pages new_mapping > 0);
              kassert (virtual_address new_mapping = endd);
              (item', s1) \<leftarrow> f item1 s;
              (rest', s') \<leftarrow> iterate_mappings_from begin endd f (new_mapping # rest) s1;
              Some (item' # rest', s')
            }
            else if endd \<ge> i_end
            then do {
              kassert (begin > i_begin);
              kassert ((begin - i_begin) mod PAGE_SIZE = 0);
              let pages_left = (begin - i_begin) div PAGE_SIZE;
              (item1, new_mapping) \<leftarrow> split_at item pages_left True;
              kassert (number_of_pages new_mapping > 0);
              kassert (virtual_address item1 = begin);
              (item', s1) \<leftarrow> f item1 s;
              (rest', s') \<leftarrow> iterate_mappings_from begin endd f rest s1;
              Some (new_mapping # item' # rest', s')
            }
            else do {
              kassert ((begin - i_begin) mod PAGE_SIZE = 0);
              let pages_left = (begin - i_begin) div PAGE_SIZE;
              kassert ((endd - begin) mod PAGE_SIZE = 0);
              let pages_middle = (endd - begin) div PAGE_SIZE;
              (item1, mapping_left) \<leftarrow> split_at item pages_left True;
              kassert (number_of_pages mapping_left > 0);
              kassert (virtual_address item1 = begin);
              (item2, mapping_right) \<leftarrow> split_at item1 pages_middle False;
              kassert (number_of_pages mapping_right > 0);
              kassert (virtual_address mapping_right = endd);
              (item', s1) \<leftarrow> f item2 s;
              (rest', s') \<leftarrow> iterate_mappings_from begin endd f (mapping_right # rest) s1;
              Some (mapping_left # item' # rest', s')
            }
          })"

definition iterate_mappings ::
  "u32 \<Rightarrow> u32 \<Rightarrow> (mem_mapping \<Rightarrow> 's \<Rightarrow> (mem_mapping \<times> 's) option) \<Rightarrow> mem_mapping list \<Rightarrow> 's
    \<Rightarrow> (mem_mapping list \<times> 's) option" where
  "iterate_mappings begin_addr num_pages f items s =
     do {
       let begin = (if begin_addr mod PAGE_SIZE \<noteq> 0 then begin_addr - begin_addr mod PAGE_SIZE
                    else begin_addr);
       let endd = begin + num_pages * PAGE_SIZE;
       kassert (begin < endd);
       iterate_mappings_from begin endd f items s
     }"

text \<open>
  The second half of \<^verbatim>\<open>mem_unmap\<close>: \<^verbatim>\<open>remove_all\<close> with the predicate that finds the mappings
  inside the range and the deallocator that unmaps them.
\<close>

fun unmap_all ::
  "mem_consts \<Rightarrow> (fdref \<Rightarrow> u64 \<Rightarrow> nat \<times> errno) \<Rightarrow> u32 \<Rightarrow> u32 \<Rightarrow> mem_mapping list \<Rightarrow> paging
    \<Rightarrow> (mem_mapping list \<times> paging) option" where
  "unmap_all K pwrite begin endd [] pg = Some ([], pg)"
| "unmap_all K pwrite begin endd (item # rest) pg =
     do {
       let i_begin = mapping_begin item;
       let i_end = mapping_end item;
       kassert (i_begin < i_end);
       if endd \<le> i_begin \<or> begin \<ge> i_end
       then do {
         (rest', pg') \<leftarrow> unmap_all K pwrite begin endd rest pg;
         Some (item # rest', pg')
       }
       else do {
         kassert (begin \<le> i_begin \<and> endd \<ge> i_end);
         pg1 \<leftarrow> unmap_completely K pwrite item pg;
         mem_mapping_destroy pg1 item;
         unmap_all K pwrite begin endd rest pg1
       }
     }"

definition mem_unmap ::
  "mem_consts \<Rightarrow> (fdref \<Rightarrow> u64 \<Rightarrow> nat \<times> errno) \<Rightarrow> u32 \<Rightarrow> u32 \<Rightarrow> vm \<Rightarrow> vm option" where
  "mem_unmap K pwrite begin num_pages vm =
     do {
       let endd = begin + num_pages * PAGE_SIZE;
       kassert (begin < endd);
       (items, _) \<leftarrow> iterate_mappings begin num_pages (\<lambda>m s. Some (m, s)) (mappings vm) ();
       (items', pg) \<leftarrow> unmap_all K pwrite begin endd items (paging vm);
       Some \<lparr>mappings = items', paging = pg\<rparr>
     }"

definition mem_protect :: "mem_consts \<Rightarrow> u32 \<Rightarrow> u32 \<Rightarrow> u8 \<Rightarrow> vm \<Rightarrow> vm option" where
  "mem_protect K addr num_pages prot vm =
     do {
       (items, pg) \<leftarrow> iterate_mappings addr num_pages (set_protection K prot) (mappings vm) (paging vm);
       Some \<lparr>mappings = items, paging = pg\<rparr>
     }"

definition mem_sync ::
  "mem_consts \<Rightarrow> (fdref \<Rightarrow> u64 \<Rightarrow> nat \<times> errno) \<Rightarrow> u32 \<Rightarrow> u32 \<Rightarrow> u8 \<Rightarrow> vm \<Rightarrow> (errno \<times> vm) option" where
  "mem_sync K pwrite addr num_pages flags vm =
     do {
       (items, res, pg) \<leftarrow>
         iterate_mappings addr num_pages
           (\<lambda>m (res, pg).
              if res = ESUCCESS
              then do { (res', pg') \<leftarrow> sync_completely K pwrite flags m pg; Some (m, res', pg') }
              else Some (m, res, pg))
           (mappings vm) (ESUCCESS, paging vm);
       Some (res, \<lparr>mappings = items, paging = pg\<rparr>)
     }"

definition mappings_overlap :: "u32 \<Rightarrow> u32 \<Rightarrow> mem_mapping \<Rightarrow> bool" where
  "mappings_overlap begin endd item \<longleftrightarrow> endd > mapping_begin item \<and> begin < mapping_end item"

definition add_mem_mapping ::
  "mem_consts \<Rightarrow> (fdref \<Rightarrow> u64 \<Rightarrow> nat \<times> errno) \<Rightarrow> mem_mapping \<Rightarrow> bool \<Rightarrow> vm \<Rightarrow> vm option" where
  "add_mem_mapping K pwrite mapping overwrite vm =
     do {
       let begin = mapping_begin mapping;
       let endd = mapping_end mapping;
       kassert (number_of_pages mapping > 0);
       vm1 \<leftarrow> (if overwrite
               then mem_unmap K pwrite (virtual_address mapping) (number_of_pages mapping) vm
               else Some vm);
       kassert (\<not> list_ex (mappings_overlap begin endd) (mappings vm1));
       Some (vm1\<lparr>mappings := mappings vm1 @ [mapping]\<rparr>)
     }"

fun pagefault_mapping ::
  "u32 \<Rightarrow> mem_mapping list \<Rightarrow> (mem_mapping \<times> u32) option \<Rightarrow> (mem_mapping \<times> u32) option option" where
  "pagefault_mapping addr [] found = Some found"
| "pagefault_mapping addr (item # rest) found =
     (case page_num item addr of
        None \<Rightarrow> pagefault_mapping addr rest found
      | Some pgnum \<Rightarrow>
          do { kassert (found = None); pagefault_mapping addr rest (Some (item, pgnum)) })"

definition handle_pagefault ::
  "mem_consts \<Rightarrow> u32 option \<Rightarrow> u32 option \<Rightarrow> u32 \<Rightarrow> bool \<Rightarrow> bool \<Rightarrow> vm \<Rightarrow> (bool \<times> vm) option" where
  "handle_pagefault K tbl frame addr for_writing for_exec vm =
     do {
       found \<leftarrow> pagefault_mapping addr (mappings vm) None;
       case found of
         None \<Rightarrow> Some (False, vm)
       | Some (mapping, page_i) \<Rightarrow>
           if for_writing \<and> \<not> has (protection mapping) (K PROT_WRITE) then Some (False, vm)
           else if for_exec \<and> \<not> has (protection mapping) (K PROT_EXEC) then Some (False, vm)
           else do {
             backed \<leftarrow> is_backed (paging vm) mapping page_i;
             if backed then Some (False, vm)
             else do {
               pg \<leftarrow> ensure_backed K (paging vm) tbl frame mapping page_i;
               Some (True, vm\<lparr>paging := pg\<rparr>)
             }
           }
     }"

definition lowest_after :: "u32 \<Rightarrow> mem_mapping list \<Rightarrow> mem_mapping option" where
  "lowest_after address items =
     fold (\<lambda>item lowest.
       if mapping_end item > address
       then case lowest of
              None \<Rightarrow> Some item
            | Some l \<Rightarrow> if virtual_address l > virtual_address item then Some item else lowest
       else lowest) items None"

partial_function (option) find_free_from :: "u32 \<Rightarrow> mem_mapping list \<Rightarrow> u32 \<Rightarrow> u32 option" where
  "find_free_from num_pages items address =
     (if address + num_pages * PAGE_SIZE < kernel_virtual_base
      then case lowest_after address items of
             None \<Rightarrow> Some address
           | Some lowest \<Rightarrow>
               if address + num_pages * PAGE_SIZE \<le> virtual_address lowest then Some address
               else find_free_from num_pages items (mapping_end lowest)
      else Some 0)"

definition find_free_virtual_range :: "u32 \<Rightarrow> vm \<Rightarrow> u32 option" where
  "find_free_virtual_range num_pages vm = find_free_from num_pages (mappings vm) 0x90000000"

subsection \<open>Ranges of pages\<close>

text \<open>\<open>page_addr a P\<close>: the address \<open>a\<close> is the start of page \<open>P\<close>.\<close>

definition page_addr :: "u32 \<Rightarrow> nat \<Rightarrow> bool" where
  "page_addr a P \<longleftrightarrow> unat a = P * 4096"

lemma page_addr_le: "page_addr a A \<Longrightarrow> page_addr b B \<Longrightarrow> a \<le> b \<longleftrightarrow> A \<le> B"
  by (simp add: page_addr_def word_le_nat_alt)

lemma page_addr_less: "page_addr a A \<Longrightarrow> page_addr b B \<Longrightarrow> a < b \<longleftrightarrow> A < B"
  by (simp add: page_addr_def word_less_nat_alt)

lemma page_addr_eq: "page_addr a A \<Longrightarrow> page_addr b A \<Longrightarrow> a = b"
  by (simp add: page_addr_def word_unat_eq_iff)

lemma page_addr_diff:
  assumes "page_addr a A" "page_addr b B" "B \<le> A"
  shows "(a - b) mod PAGE_SIZE = 0" "unat ((a - b) div PAGE_SIZE) = A - B"
proof -
  have "b \<le> a"
    using assms by (simp add: page_addr_le)
  then have "unat (a - b) = (A - B) * 4096"
    using assms by (simp add: unat_sub page_addr_def diff_mult_distrib)
  then show "(a - b) mod PAGE_SIZE = 0" "unat ((a - b) div PAGE_SIZE) = A - B"
    by (simp_all add: word_unat_eq_iff unat_mod unat_div)
qed

lemma mapping_begin_addr: "mapping_wf m \<Longrightarrow> page_addr (mapping_begin m) (first_page m)"
  by (simp add: page_addr_def mapping_begin_def wf_address)

lemma mapping_end_addr: "mapping_wf m \<Longrightarrow> page_addr (mapping_end m) (first_page m + page_count m)"
  by (simp add: page_addr_def mapping_end_def wf_end)

lemma virtual_address_addr: "mapping_wf m \<Longrightarrow> page_addr (virtual_address m) (first_page m)"
  by (simp add: page_addr_def wf_address)

lemma page_virtual_address_addr:
  "mapping_wf m \<Longrightarrow> unat page < page_count m
   \<Longrightarrow> page_addr (page_virtual_address m page) (first_page m + unat page)"
  by (simp add: page_addr_def unat_page_virtual_address)

text \<open>The range of a call, if the assertion on it holds.\<close>

lemma range_pages:
  assumes "page_addr begin B" "num_pages \<le> 0x100000" "begin < begin + num_pages * PAGE_SIZE"
  shows "page_addr (begin + num_pages * PAGE_SIZE) (B + unat num_pages)" "0 < unat num_pages"
proof -
  have n: "unat num_pages \<le> 0x100000"
    using assms(2) by (simp add: word_le_nat_alt)
  have "unat num_pages \<noteq> 0x100000"
  proof
    assume "unat num_pages = 0x100000"
    then have "num_pages = 0x100000"
      by (simp add: word_unat_eq_iff)
    moreover have "(0x100000 :: u32) * PAGE_SIZE = 0"
      by (simp add: PAGE_SIZE_def word_unat_eq_iff)
    ultimately show False
      using assms(3) by simp
  qed
  with n have n': "unat num_pages < 0x100000"
    by linarith
  then have mult: "unat (num_pages * PAGE_SIZE) = unat num_pages * 4096"
    by (subst unat_mult_u32) simp_all
  have b: "B * 4096 < 4294967296"
    using assms(1) unat_u32_lt[of "begin"] by (simp add: page_addr_def)
  have "unat begin < unat (begin + num_pages * PAGE_SIZE)"
    using assms(3) by (simp add: word_less_nat_alt)
  moreover have "unat (begin + num_pages * PAGE_SIZE)
      = (B * 4096 + unat num_pages * 4096) mod 4294967296"
    using assms(1) mult by (simp add: unat_word_ariths page_addr_def)
  ultimately have lt: "B * 4096 + unat num_pages * 4096 < 4294967296"
    using assms(1) b n' by (auto simp: page_addr_def mod_if split: if_splits)
  then show "page_addr (begin + num_pages * PAGE_SIZE) (B + unat num_pages)"
    using assms(1) mult unfolding page_addr_def
    by (subst unat_add_u32) (simp_all add: add_mult_distrib)
  show "0 < unat num_pages"
    using assms(3) by (cases "num_pages = 0") (auto simp: unat_gt_0)
qed

subsection \<open>The abstract address space\<close>

primrec space :: "mem_mapping list \<Rightarrow> nat \<rightharpoonup> page_attr" where
  "space [] = Map.empty"
| "space (m # ms) = space ms ++ page_attrs m"

definition disjoint_mappings :: "mem_mapping list \<Rightarrow> bool" where
  "disjoint_mappings ms = sorted_wrt (\<lambda>a b. mapped_pages a \<inter> mapped_pages b = {}) ms"

definition vm_wf :: "vm \<Rightarrow> bool" where
  "vm_wf vm \<longleftrightarrow>
     list_all mapping_wf (mappings vm) \<and> disjoint_mappings (mappings vm) \<and> paging_wf (paging vm)
     \<and> (\<forall>P. has (pte (paging vm) P) 1 \<longrightarrow> (\<exists>m \<in> set (mappings vm). P \<in> mapped_pages m))"

lemma dom_page_attrs: "dom (page_attrs m) = mapped_pages m"
  by (auto simp: page_attrs_def dom_def split: if_splits)

lemma dom_space: "dom (space ms) = (\<Union>m \<in> set ms. mapped_pages m)"
  by (induction ms) (auto simp: dom_page_attrs)

lemma space_append: "space (as @ bs) = space bs ++ space as"
  by (induction as) auto

lemma disjoint_append:
  "disjoint_mappings (as @ bs) \<longleftrightarrow>
     disjoint_mappings as \<and> disjoint_mappings bs
     \<and> (\<forall>a \<in> set as. \<forall>b \<in> set bs. mapped_pages a \<inter> mapped_pages b = {})"
  by (simp add: disjoint_mappings_def sorted_wrt_append)

subsection \<open>Splitting the mappings at the ends of a range\<close>

definition outside :: "u32 \<Rightarrow> u32 \<Rightarrow> mem_mapping \<Rightarrow> bool" where
  "outside begin endd m \<longleftrightarrow> endd \<le> mapping_begin m \<or> begin \<ge> mapping_end m"

definition inside :: "u32 \<Rightarrow> u32 \<Rightarrow> mem_mapping \<Rightarrow> bool" where
  "inside begin endd m \<longleftrightarrow> begin \<le> mapping_begin m \<and> endd \<ge> mapping_end m"

definition unshare :: "mem_mapping \<Rightarrow> mem_mapping" where
  "unshare m = m\<lparr>shared := False\<rparr>"

definition pieces :: "u32 \<Rightarrow> u32 \<Rightarrow> mem_mapping \<Rightarrow> mem_mapping list" where
  "pieces begin endd m =
     (let low = (begin - mapping_begin m) div PAGE_SIZE;
          high = (endd - mapping_begin m) div PAGE_SIZE;
          middle = (endd - begin) div PAGE_SIZE
      in if outside begin endd m \<or> inside begin endd m then [m]
         else if begin \<le> mapping_begin m then [left_part m high, unshare (right_part m high)]
         else if endd \<ge> mapping_end m then [unshare (left_part m low), right_part m low]
         else [unshare (left_part m low), left_part (right_part m low) middle,
               unshare (right_part (right_part m low) middle)])"

lemma unshare_simps [simp]:
  "mapping_wf (unshare m) = mapping_wf m" "first_page (unshare m) = first_page m"
  "page_count (unshare m) = page_count m" "mapped_pages (unshare m) = mapped_pages m"
  "page_attrs (unshare m) = page_attrs m"
  by (simp_all add: unshare_def)

lemma outside_iff:
  "mapping_wf m \<Longrightarrow> page_addr begin B \<Longrightarrow> page_addr endd E \<Longrightarrow>
   outside begin endd m \<longleftrightarrow> E \<le> first_page m \<or> first_page m + page_count m \<le> B"
  unfolding outside_def by (metis mapping_begin_addr mapping_end_addr page_addr_le)

lemma inside_iff:
  "mapping_wf m \<Longrightarrow> page_addr begin B \<Longrightarrow> page_addr endd E \<Longrightarrow>
   inside begin endd m \<longleftrightarrow> B \<le> first_page m \<and> first_page m + page_count m \<le> E"
  unfolding inside_def by (metis mapping_begin_addr mapping_end_addr page_addr_le)


lemma proper_part:
  assumes "mapping_wf m" "page_addr x X" "first_page m < X" "X < first_page m + page_count m"
  defines "k \<equiv> (x - mapping_begin m) div PAGE_SIZE"
  shows "0 < k" "k < number_of_pages m" "unat k = X - first_page m"
    "(x - mapping_begin m) mod PAGE_SIZE = 0"
proof -
  show k: "unat k = X - first_page m" and "(x - mapping_begin m) mod PAGE_SIZE = 0"
    using page_addr_diff[OF assms(2) mapping_begin_addr[OF assms(1)]] assms(3) by (simp_all add: k_def)
  show "0 < k"
    using k assms(3) by (simp add: word_less_nat_alt)
  show "k < number_of_pages m"
    using k assms(3,4) unfolding word_less_nat_alt page_count_def[symmetric] by linarith
qed

lemma cut_correct:
  assumes "mapping_wf m" "page_addr x X" "first_page m < X" "X < first_page m + page_count m"
  defines "k \<equiv> (x - mapping_begin m) div PAGE_SIZE"
  shows "mapping_wf (left_part m k)" "mapping_wf (right_part m k)"
    "first_page (left_part m k) = first_page m" "page_count (left_part m k) = X - first_page m"
    "first_page (right_part m k) = X" "page_count (right_part m k) = first_page m + page_count m - X"
    "page_attrs m = page_attrs (left_part m k) ++ page_attrs (right_part m k)"
    "split_at m k True = Some (right_part m k, unshare (left_part m k))"
    "split_at m k False = Some (left_part m k, unshare (right_part m k))"
proof -
  note k = proper_part[OF assms(1-4), folded k_def]
  show "mapping_wf (left_part m k)" "mapping_wf (right_part m k)"
    "first_page (left_part m k) = first_page m" "page_count (left_part m k) = X - first_page m"
    "first_page (right_part m k) = X" "page_count (right_part m k) = first_page m + page_count m - X"
    using split_parts[OF assms(1) k(1,2)] k(3) assms(3,4) by simp_all
  show "page_attrs m = page_attrs (left_part m k) ++ page_attrs (right_part m k)"
    by (rule split_attrs[OF assms(1) k(1,2)])
  show "split_at m k True = Some (right_part m k, unshare (left_part m k))"
    "split_at m k False = Some (left_part m k, unshare (right_part m k))"
    using split_at_left[OF assms(1) k(1,2)] split_at_right[OF assms(1) k(1,2)]
    by (simp_all add: unshare_def)
qed

lemma middle_cut:
  assumes "mapping_wf m" "page_addr x X" "page_addr y Y" "first_page m < X" "X < Y"
    "Y < first_page m + page_count m"
  defines "k \<equiv> (x - mapping_begin m) div PAGE_SIZE"
  shows "mapping_begin (right_part m k) = x" "virtual_address (right_part m k) = x"
    "first_page (right_part m k) < Y" "Y < first_page (right_part m k) + page_count (right_part m k)"
proof -
  have X: "X < first_page m + page_count m"
    using assms(5,6) by simp
  note c = cut_correct[OF assms(1,2,4) X, folded k_def]
  show "mapping_begin (right_part m k) = x" "virtual_address (right_part m k) = x"
    using mapping_begin_addr[OF c(2)] c(5) assms(2) page_addr_eq
    unfolding mapping_begin_def by metis+
  show "first_page (right_part m k) < Y" "Y < first_page (right_part m k) + page_count (right_part m k)"
    using c(5,6) assms(5,6) X by simp_all
qed

lemma sorted_two: "disjoint_mappings [a, b] \<longleftrightarrow> mapped_pages a \<inter> mapped_pages b = {}"
  by (simp add: disjoint_mappings_def)

lemma pieces_correct:
  assumes "mapping_wf m" "page_addr begin B" "page_addr endd E" "B < E"
  shows "list_all mapping_wf (pieces begin endd m) \<and> disjoint_mappings (pieces begin endd m)
    \<and> space (pieces begin endd m) = page_attrs m
    \<and> (\<Union>x \<in> set (pieces begin endd m). mapped_pages x) = mapped_pages m
    \<and> (\<forall>x \<in> set (pieces begin endd m). outside begin endd x \<or> inside begin endd x)"
proof -
  note iff = outside_iff[OF _ assms(2,3)] inside_iff[OF _ assms(2,3)]
  have le: "begin \<le> mapping_begin m \<longleftrightarrow> B \<le> first_page m"
    "endd \<ge> mapping_end m \<longleftrightarrow> first_page m + page_count m \<le> E"
    using assms mapping_begin_addr mapping_end_addr page_addr_le by metis+
  consider (whole) "outside begin endd m \<or> inside begin endd m"
    | (head) "\<not> outside begin endd m" "\<not> inside begin endd m" "B \<le> first_page m"
    | (tail) "\<not> outside begin endd m" "\<not> inside begin endd m" "first_page m < B"
        "first_page m + page_count m \<le> E"
    | (mid) "\<not> outside begin endd m" "\<not> inside begin endd m" "first_page m < B"
        "E < first_page m + page_count m"
    by linarith
  then show ?thesis
  proof cases
    case whole
    then show ?thesis
      using assms(1) by (simp add: pieces_def disjoint_mappings_def)
  next
    case head
    define k where "k = (endd - mapping_begin m) div PAGE_SIZE"
    have E: "first_page m < E" "E < first_page m + page_count m"
      using head assms(1) by (auto simp: iff)
    note c = cut_correct[OF assms(1,3) E, folded k_def]
    have "pieces begin endd m = [left_part m k, unshare (right_part m k)]"
      using head le by (simp add: pieces_def k_def Let_def)
    moreover have "page_attrs (right_part m k) ++ page_attrs (left_part m k) = page_attrs m"
      using c E by (subst c(7), intro map_add_comm) (auto simp: dom_page_attrs)
    ultimately show ?thesis
      using c E head(3) by (auto simp: disjoint_mappings_def iff)
  next
    case tail
    define k where "k = (begin - mapping_begin m) div PAGE_SIZE"
    have E: "B < first_page m + page_count m"
      using tail assms(1) by (auto simp: iff)
    note c = cut_correct[OF assms(1,2) tail(3) E, folded k_def]
    have "pieces begin endd m = [unshare (left_part m k), right_part m k]"
      using tail le by (simp add: pieces_def k_def Let_def)
    moreover have "page_attrs (right_part m k) ++ page_attrs (left_part m k) = page_attrs m"
      using c E by (subst c(7), intro map_add_comm) (auto simp: dom_page_attrs)
    ultimately show ?thesis
      using c E tail by (auto simp: disjoint_mappings_def iff)
  next
    case mid
    define k where "k = (begin - mapping_begin m) div PAGE_SIZE"
    define r where "r = right_part m k"
    define j where "j = (endd - mapping_begin r) div PAGE_SIZE"
    have E: "B < first_page m + page_count m"
      using mid assms(4) by simp
    note c = cut_correct[OF assms(1,2) mid(3) E, folded k_def, folded r_def]
    note mc = middle_cut[OF assms(1-3) mid(3) assms(4) mid(4), folded k_def, folded r_def]
    note d = cut_correct[OF c(2) assms(3) mc(3,4), folded j_def]
    have "pieces begin endd m = [unshare (left_part m k), left_part r j, unshare (right_part r j)]"
      using mid le mc(1) by (simp add: pieces_def k_def j_def r_def Let_def)
    moreover have "page_attrs (right_part r j) ++ page_attrs (left_part r j) = page_attrs r"
      using d c mid by (subst d(7), intro map_add_comm) (auto simp: dom_page_attrs)
    moreover have "page_attrs r ++ page_attrs (left_part m k) = page_attrs m"
      using c E by (subst c(7), intro map_add_comm) (auto simp: dom_page_attrs)
    ultimately show ?thesis
      using c d E mid assms(4) by (auto simp: disjoint_mappings_def iff simp flip: map_add_assoc)
  qed
qed

fun apply_inside ::
  "u32 \<Rightarrow> u32 \<Rightarrow> (mem_mapping \<Rightarrow> 's \<Rightarrow> (mem_mapping \<times> 's) option) \<Rightarrow> mem_mapping list \<Rightarrow> 's
    \<Rightarrow> (mem_mapping list \<times> 's) option" where
  "apply_inside begin endd f [] s = Some ([], s)"
| "apply_inside begin endd f (m # ms) s =
     do {
       (m', s1) \<leftarrow> (if outside begin endd m then Some (m, s) else f m s);
       (ms', s') \<leftarrow> apply_inside begin endd f ms s1;
       Some (m' # ms', s')
     }"

definition split_mappings :: "u32 \<Rightarrow> u32 \<Rightarrow> mem_mapping list \<Rightarrow> mem_mapping list" where
  "split_mappings begin endd ms = concat (map (pieces begin endd) ms)"

lemma wf_nonempty: "mapping_wf m \<Longrightarrow> mapping_begin m < mapping_end m"
  using page_addr_less[OF mapping_begin_addr mapping_end_addr] wf_page_count by auto

lemma iterate_outside:
  assumes "mapping_wf m" "outside begin endd m"
  shows "iterate_mappings_from begin endd f (m # rest) s =
    do { (rest', s') \<leftarrow> iterate_mappings_from begin endd f rest s; Some (m # rest', s') }"
  using assms wf_nonempty[OF assms(1)]
  by (subst iterate_mappings_from.simps) (simp add: Let_def outside_def)

lemma not_inside_outside:
  "mapping_wf m \<Longrightarrow> inside begin endd m \<Longrightarrow> begin < endd \<Longrightarrow> \<not> outside begin endd m"
  using wf_nonempty[of m] unfolding inside_def outside_def by auto

lemma iterate_mappings_split:
  assumes "list_all mapping_wf ms" "page_addr begin B" "page_addr endd E" "B < E"
  shows "iterate_mappings_from begin endd f ms s
           = apply_inside begin endd f (split_mappings begin endd ms) s"
  using assms(1)
proof (induction ms arbitrary: s)
  case Nil
  then show ?case
    by (subst iterate_mappings_from.simps) (simp add: split_mappings_def)
next
  case (Cons m ms)
  then have wf: "mapping_wf m" and IH: "\<And>s. iterate_mappings_from begin endd f ms s
      = apply_inside begin endd f (split_mappings begin endd ms) s"
    by simp_all
  note iff = outside_iff[OF _ assms(2,3)] inside_iff[OF _ assms(2,3)]
  note ne = wf_nonempty[OF wf]
  have le: "begin \<le> mapping_begin m \<longleftrightarrow> B \<le> first_page m"
    "endd \<ge> mapping_end m \<longleftrightarrow> first_page m + page_count m \<le> E"
    "mapping_begin m < begin \<longleftrightarrow> first_page m < B"
    "mapping_begin m < endd \<longleftrightarrow> first_page m < E"
    using assms wf mapping_begin_addr mapping_end_addr page_addr_le page_addr_less by metis+
  have lt: "begin < endd"
    using assms(2-4) page_addr_less by metis
  have sp: "split_mappings begin endd (m # ms) = pieces begin endd m @ split_mappings begin endd ms"
    by (simp add: split_mappings_def)
  consider (out) "outside begin endd m" | (ins) "inside begin endd m" "\<not> outside begin endd m"
    | (head) "\<not> outside begin endd m" "\<not> inside begin endd m" "B \<le> first_page m"
    | (tail) "\<not> outside begin endd m" "\<not> inside begin endd m" "first_page m < B"
        "first_page m + page_count m \<le> E"
    | (mid) "\<not> outside begin endd m" "\<not> inside begin endd m" "first_page m < B"
        "E < first_page m + page_count m"
    by linarith
  then show ?case
  proof cases
    case out
    then have "pieces begin endd m = [m]"
      by (simp add: pieces_def Let_def)
    with out show ?thesis
      unfolding iterate_outside[OF wf out] IH sp by simp
  next
    case ins
    then have "pieces begin endd m = [m]"
      by (simp add: pieces_def Let_def)
    with ins ne show ?thesis
      unfolding sp by (subst iterate_mappings_from.simps) (simp add: IH Let_def inside_def outside_def)
  next
    case head
    define k where "k = (endd - mapping_begin m) div PAGE_SIZE"
    have E: "first_page m < E" "E < first_page m + page_count m"
      using head wf by (auto simp: iff)
    note c = cut_correct[OF wf assms(3) E, folded k_def]
    note pp = proper_part[OF wf assms(3) E, folded k_def]
    have new: "number_of_pages (unshare (right_part m k)) > 0" "virtual_address (unshare (right_part m k)) = endd"
      using c(2,5) page_addr_eq[OF virtual_address_addr[OF c(2)]] assms(3)
      by (simp_all add: mapping_wf_def unshare_def)
    have out: "outside begin endd (unshare (right_part m k))" "\<not> outside begin endd (left_part m k)"
      using c E head(3) assms(4) by (simp_all add: iff)
    have "pieces begin endd m = [left_part m k, unshare (right_part m k)]"
      using head le by (simp add: pieces_def k_def Let_def)
    moreover have "iterate_mappings_from begin endd f (m # ms) s =
      do { (item', s1) \<leftarrow> f (left_part m k) s;
           (rest', s') \<leftarrow> iterate_mappings_from begin endd f (unshare (right_part m k) # ms) s1;
           Some (item' # rest', s') }"
      using head(1,2) ne le head(3) E pp(4) c(9) new lt
      by (subst iterate_mappings_from.simps) (simp add: Let_def inside_def outside_def flip: k_def)
    moreover have "iterate_mappings_from begin endd f (unshare (right_part m k) # ms) s1 =
      do { (rest', s') \<leftarrow> iterate_mappings_from begin endd f ms s1; Some (unshare (right_part m k) # rest', s') }"
      for s1
      using c(2) out(1) by (intro iterate_outside) simp_all
    ultimately show ?thesis
      using out by (simp add: sp IH case_prod_unfold)
  next
    case tail
    define k where "k = (begin - mapping_begin m) div PAGE_SIZE"
    have E: "B < first_page m + page_count m"
      using tail wf by (auto simp: iff)
    note c = cut_correct[OF wf assms(2) tail(3) E, folded k_def]
    note pp = proper_part[OF wf assms(2) tail(3) E, folded k_def]
    have new: "number_of_pages (unshare (left_part m k)) > 0" "virtual_address (right_part m k) = begin"
      using c(1,2,5) page_addr_eq[OF virtual_address_addr[OF c(2)]] assms(2)
      by (simp_all add: mapping_wf_def unshare_def)
    have out: "outside begin endd (unshare (left_part m k))" "\<not> outside begin endd (right_part m k)"
      using c E tail assms(4) by (simp_all add: iff)
    have "pieces begin endd m = [unshare (left_part m k), right_part m k]"
      using tail le by (simp add: pieces_def k_def Let_def)
    moreover have "iterate_mappings_from begin endd f (m # ms) s =
      do { (item', s1) \<leftarrow> f (right_part m k) s;
           (rest', s') \<leftarrow> iterate_mappings_from begin endd f ms s1;
           Some (unshare (left_part m k) # item' # rest', s') }"
      using tail(1,2) ne le tail(3,4) pp(4) c(8) new lt
      by (subst iterate_mappings_from.simps) (simp add: Let_def inside_def outside_def flip: k_def)
    ultimately show ?thesis
      using out by (simp add: sp IH case_prod_unfold)
  next
    case mid
    define k where "k = (begin - mapping_begin m) div PAGE_SIZE"
    define r where "r = right_part m k"
    define j where "j = (endd - mapping_begin r) div PAGE_SIZE"
    have E: "B < first_page m + page_count m"
      using mid assms(4) by simp
    note c = cut_correct[OF wf assms(2) mid(3) E, folded k_def, folded r_def]
    note pp = proper_part[OF wf assms(2) mid(3) E, folded k_def]
    note mc = middle_cut[OF wf assms(2,3) mid(3) assms(4) mid(4), folded k_def, folded r_def]
    note d = cut_correct[OF c(2) assms(3) mc(3,4), folded j_def]
    note qq = proper_part[OF c(2) assms(3) mc(3,4), folded j_def]
    have new: "number_of_pages (unshare (left_part m k)) > 0" "number_of_pages (unshare (right_part r j)) > 0"
      "virtual_address (unshare (right_part r j)) = endd"
      using c(1) d(2,5) page_addr_eq[OF virtual_address_addr[OF d(2)]] assms(3)
      by (simp_all add: mapping_wf_def unshare_def)
    have out: "outside begin endd (unshare (left_part m k))" "\<not> outside begin endd (left_part r j)"
      "outside begin endd (unshare (right_part r j))"
      using c d E mid assms(4) by (simp_all add: iff)
    have j': "(endd - begin) div PAGE_SIZE = j" "(endd - begin) mod PAGE_SIZE = 0"
      using qq(4) mc(1) by (simp_all add: j_def)
    have "pieces begin endd m = [unshare (left_part m k), left_part r j, unshare (right_part r j)]"
      using mid le mc(1) by (simp add: pieces_def k_def j_def r_def Let_def)
    moreover have "iterate_mappings_from begin endd f (m # ms) s =
      do { (item', s1) \<leftarrow> f (left_part r j) s;
           (rest', s') \<leftarrow> iterate_mappings_from begin endd f (unshare (right_part r j) # ms) s1;
           Some (unshare (left_part m k) # item' # rest', s') }"
      using mid(1,2) ne le mid(3,4) pp(4) c(8) d(9) new lt mc(2) j'
      by (subst iterate_mappings_from.simps) (simp add: Let_def inside_def outside_def flip: k_def)
    moreover have "iterate_mappings_from begin endd f (unshare (right_part r j) # ms) s1 =
      do { (rest', s') \<leftarrow> iterate_mappings_from begin endd f ms s1; Some (unshare (right_part r j) # rest', s') }"
      for s1
      using d(2) out(3) by (intro iterate_outside) simp_all
    ultimately show ?thesis
      using out by (simp add: sp IH case_prod_unfold)
  qed
qed

lemma apply_inside_id [simp]: "apply_inside begin endd (\<lambda>m s. Some (m, s)) ms s = Some (ms, s)"
  by (induction ms arbitrary: s) simp_all

lemma split_mappings_correct:
  assumes "page_addr begin B" "page_addr endd E" "B < E"
    "list_all mapping_wf ms" "disjoint_mappings ms"
  shows "list_all mapping_wf (split_mappings begin endd ms)
    \<and> disjoint_mappings (split_mappings begin endd ms)
    \<and> space (split_mappings begin endd ms) = space ms
    \<and> (\<Union>m \<in> set (split_mappings begin endd ms). mapped_pages m) = (\<Union>m \<in> set ms. mapped_pages m)
    \<and> (\<forall>m \<in> set (split_mappings begin endd ms). outside begin endd m \<or> inside begin endd m)"
  using assms(4,5)
proof (induction ms)
  case Nil
  then show ?case
    by (simp add: split_mappings_def disjoint_mappings_def)
next
  case (Cons m ms)
  let ?S = "split_mappings begin endd ms"
  have wf: "mapping_wf m" and dis: "disjoint_mappings ms"
      "\<forall>x \<in> set ms. mapped_pages m \<inter> mapped_pages x = {}"
    using Cons.prems by (simp_all add: disjoint_mappings_def)
  have U: "(\<Union>m \<in> set ?S. mapped_pages m) = (\<Union>m \<in> set ms. mapped_pages m)"
    and IH: "list_all mapping_wf ?S" "disjoint_mappings ?S" "space ?S = space ms"
      "\<forall>m \<in> set ?S. outside begin endd m \<or> inside begin endd m"
    using Cons.IH[OF _ dis(1)] Cons.prems(1) by simp_all
  note p = pieces_correct[OF wf assms(1-3)]
  have S: "split_mappings begin endd (m # ms) = pieces begin endd m @ ?S"
    by (simp add: split_mappings_def)
  have "mapped_pages a \<inter> mapped_pages b = {}" if "a \<in> set (pieces begin endd m)" "b \<in> set ?S" for a b
  proof -
    have "mapped_pages a \<subseteq> mapped_pages m"
      using p that(1) by blast
    moreover have "mapped_pages b \<subseteq> (\<Union>m \<in> set ms. mapped_pages m)"
      using U that(2) by blast
    ultimately show ?thesis
      using dis(2) by blast
  qed
  then have "disjoint_mappings (pieces begin endd m @ ?S)"
    using p IH(2) by (simp add: disjoint_append)
  moreover have "list_all mapping_wf (pieces begin endd m @ ?S)"
    "space (pieces begin endd m @ ?S) = space (m # ms)"
    "\<forall>m \<in> set (pieces begin endd m @ ?S). outside begin endd m \<or> inside begin endd m"
    using p IH by (auto simp: space_append)
  moreover have "(\<Union>m \<in> set (pieces begin endd m @ ?S). mapped_pages m)
      = (\<Union>m \<in> set (m # ms). mapped_pages m)"
    using p U by (simp only: set_append UN_Un) simp
  ultimately show ?case
    unfolding S by blast
qed

lemma split_keeps_unshared:
  assumes "page_addr begin B" "page_addr endd E" "B < E" "list_all mapping_wf ms"
    "m \<in> set (split_mappings begin endd ms)" "shared m"
  shows "\<exists>x \<in> set ms. shared x"
proof -
  obtain x where x: "x \<in> set ms" "m \<in> set (pieces begin endd x)"
    using assms(5) by (auto simp: split_mappings_def)
  moreover have "shared x"
    using x(2) assms(6)
    by (auto simp: pieces_def Let_def unshare_def left_part_def right_part_def split: if_splits)
  ultimately show ?thesis
    by blast
qed

definition frame_of :: "paging \<Rightarrow> nat \<Rightarrow> u32" where
  "frame_of pg P = pte pg P AND 0xfffff000"

lemma mset_freed_frames:
  "mset (map (\<lambda>Q. pte pg Q AND 0xfffff000) (filter (\<lambda>Q. has (pte pg Q) 1) [a ..< b]))
     = image_mset (frame_of pg) (mset_set {P. a \<le> P \<and> P < b \<and> has (pte pg P) 1})"
proof -
  have "{P \<in> {a ..< b}. has (pte pg P) 1} = {P. a \<le> P \<and> P < b \<and> has (pte pg P) 1}"
    by auto
  then show ?thesis
    by (simp add: mset_upt filter_mset_mset_set frame_of_def[abs_def])
qed

text \<open>The backed pages of the mappings that a call removes.\<close>

definition backed_in :: "paging \<Rightarrow> u32 \<Rightarrow> u32 \<Rightarrow> mem_mapping list \<Rightarrow> nat set" where
  "backed_in pg begin endd ms =
     {P. has (pte pg P) 1 \<and> (\<exists>m \<in> set ms. \<not> outside begin endd m \<and> P \<in> mapped_pages m)}"

lemma finite_backed_in: "finite (backed_in pg begin endd ms)"
  by (rule finite_subset[of _ "\<Union>m \<in> set ms. mapped_pages m"])
    (auto simp: backed_in_def mapped_pages_def)

lemma unmap_all_correct:
  assumes "ms_flags_ok K"
  shows "list_all mapping_wf ms \<Longrightarrow> disjoint_mappings ms \<Longrightarrow> paging_wf pg \<Longrightarrow>
    \<forall>m \<in> set ms. outside begin endd m \<or> inside begin endd m \<Longrightarrow>
    \<forall>m \<in> set ms. shared m \<longrightarrow> (\<forall>fd off. pwrite fd off = (4096, ESUCCESS)) \<Longrightarrow>
    \<exists>pg'. unmap_all K pwrite begin endd ms pg = Some (filter (outside begin endd) ms, pg')
      \<and> paging_wf pg'
      \<and> (\<forall>P. pte pg' P = (if P \<in> backed_in pg begin endd ms then 0 else pte pg P))
      \<and> mset (freed pg') = mset (freed pg) + image_mset (frame_of pg) (mset_set (backed_in pg begin endd ms))"
proof (induction ms arbitrary: pg)
  case Nil
  then show ?case
    by (simp add: backed_in_def)
next
  case (Cons m ms)
  then have wf: "mapping_wf m" and dis: "disjoint_mappings ms"
      "\<forall>x \<in> set ms. mapped_pages m \<inter> mapped_pages x = {}"
    by (simp_all add: disjoint_mappings_def)
  note ne = wf_nonempty[OF wf]
  show ?case
  proof (cases "outside begin endd m")
    case True
    then have "backed_in pg begin endd (m # ms) = backed_in pg begin endd ms"
      by (auto simp: backed_in_def)
    moreover obtain pg' where "unmap_all K pwrite begin endd ms pg = Some (filter (outside begin endd) ms, pg')"
      "paging_wf pg'" "\<forall>P. pte pg' P = (if P \<in> backed_in pg begin endd ms then 0 else pte pg P)"
      "mset (freed pg') = mset (freed pg) + image_mset (frame_of pg) (mset_set (backed_in pg begin endd ms))"
      using Cons.IH[of pg] Cons.prems dis(1) by auto
    ultimately show ?thesis
      using True ne by (auto simp: outside_def[of _ _ m])
  next
    case False
    then have ins: "inside begin endd m"
      using Cons.prems(4) by simp
    have pw: "shared m \<longrightarrow> (\<forall>fd off. pwrite fd off = (4096, ESUCCESS))"
      using Cons.prems(5) by simp
    let ?A = "{P. first_page m \<le> P \<and> P < first_page m + page_count m \<and> has (pte pg P) 1}"
    obtain pg1 where pg1: "unmap_completely K pwrite m pg = Some pg1" "paging_wf pg1"
      "mem_mapping_destroy pg1 m = Some ()"
      "\<forall>Q. pte pg1 Q = (if Q \<in> mapped_pages m \<and> has (pte pg Q) 1 then 0 else pte pg Q)"
      "freed pg1 = freed pg @ map (\<lambda>Q. pte pg Q AND 0xfffff000)
          (filter (\<lambda>Q. has (pte pg Q) 1) [first_page m ..< first_page m + page_count m])"
      using unmap_completely_correct[OF assms(1) pw wf Cons.prems(3)] by blast
    obtain pg2 where pg2:
      "unmap_all K pwrite begin endd ms pg1 = Some (filter (outside begin endd) ms, pg2)"
      "paging_wf pg2" "\<forall>P. pte pg2 P = (if P \<in> backed_in pg1 begin endd ms then 0 else pte pg1 P)"
      "mset (freed pg2) = mset (freed pg1) + image_mset (frame_of pg1) (mset_set (backed_in pg1 begin endd ms))"
      using Cons.IH[OF _ dis(1) pg1(2)] Cons.prems by auto
    have rest: "backed_in pg1 begin endd ms = backed_in pg begin endd ms"
      using pg1(4) dis(2) by (fastforce simp: backed_in_def)
    have whole: "backed_in pg begin endd (m # ms) = ?A \<union> backed_in pg begin endd ms"
      using False by (auto simp: backed_in_def)
    have disj: "?A \<inter> backed_in pg begin endd ms = {}"
      using dis(2) by (fastforce simp: backed_in_def)
    have frames: "image_mset (frame_of pg1) (mset_set (backed_in pg begin endd ms))
        = image_mset (frame_of pg) (mset_set (backed_in pg begin endd ms))"
      using disj pg1(4) finite_backed_in
      by (intro image_mset_cong) (auto simp: frame_of_def backed_in_def)
    have "unmap_all K pwrite begin endd (m # ms) pg = Some (filter (outside begin endd) (m # ms), pg2)"
      using False ins ne pg1(1,3) pg2(1) by (simp add: outside_def[of _ _ m] inside_def)
    moreover have "\<forall>P. pte pg2 P = (if P \<in> backed_in pg begin endd (m # ms) then 0 else pte pg P)"
      using pg2(3) pg1(4) unfolding rest whole by auto
    moreover have "mset (freed pg2) = mset (freed pg)
        + image_mset (frame_of pg) (mset_set (backed_in pg begin endd (m # ms)))"
      using pg2(4) mset_freed_frames[of pg "first_page m" "first_page m + page_count m"]
        mset_set_Union[OF _ finite_backed_in disj] unfolding rest whole frames pg1(5)
      by simp
    ultimately show ?thesis
      using pg2(2) by blast
  qed
qed

lemma apply_inside_unit [simp]: "apply_inside begin endd (\<lambda>m s. Some (m, ())) ms u = Some (ms, ())"
  by (induction ms) simp_all

lemma restrict_map_add: "(f ++ g) |` A = (f |` A) ++ (g |` A)"
  by (rule ext) (simp add: restrict_map_def map_add_def)

lemma page_attrs_restrict:
  "mapped_pages m \<subseteq> A \<Longrightarrow> page_attrs m |` A = page_attrs m"
  "mapped_pages m \<inter> A = {} \<Longrightarrow> page_attrs m |` A = Map.empty"
  by (auto simp: restrict_map_def fun_eq_iff page_attrs_def simp del: in_mapped_pages_iff)

lemma space_filter_outside:
  assumes "page_addr begin B" "page_addr endd E" "list_all mapping_wf ms"
    "\<forall>m \<in> set ms. outside begin endd m \<or> inside begin endd m"
  shows "space (filter (outside begin endd) ms) = space ms |` (- {B ..< E})"
  using assms(3,4)
proof (induction ms)
  case (Cons m ms)
  then have wf: "mapping_wf m"
    by simp
  note iff = outside_iff[OF wf assms(1,2)] inside_iff[OF wf assms(1,2)]
  have "page_attrs m |` (- {B ..< E}) = (if outside begin endd m then page_attrs m else Map.empty)"
    using Cons.prems(2) by (auto simp: iff intro!: page_attrs_restrict)
  with Cons show ?case
    by (simp add: restrict_map_add)
qed simp

lemma disjoint_filter: "disjoint_mappings ms \<Longrightarrow> disjoint_mappings (filter f ms)"
  by (simp add: disjoint_mappings_def sorted_wrt_filter)

text \<open>
  A call is proper if its range is page aligned and passes the assertion on its end. (The
  number of pages of a call is the result of \<^verbatim>\<open>len_to_pages\<close>, which is at most \<open>0x100000\<close>.)
\<close>

definition proper_range :: "u32 \<Rightarrow> u32 \<Rightarrow> bool" where
  "proper_range begin num_pages \<longleftrightarrow>
     begin mod PAGE_SIZE = 0 \<and> num_pages \<le> 0x100000 \<and> begin < begin + num_pages * PAGE_SIZE"

definition range_of :: "u32 \<Rightarrow> u32 \<Rightarrow> nat set" where
  "range_of begin num_pages =
     {unat begin div 4096 ..< unat begin div 4096 + unat num_pages}"

lemma proper_rangeE:
  assumes "proper_range begin num_pages"
  obtains B where "page_addr begin B" "page_addr (begin + num_pages * PAGE_SIZE) (B + unat num_pages)"
    "B < B + unat num_pages" "range_of begin num_pages = {B ..< B + unat num_pages}"
    "begin < begin + num_pages * PAGE_SIZE" "begin mod PAGE_SIZE = 0"
proof -
  have "unat begin mod 4096 = 0"
    using assms by (simp add: proper_range_def word_unat_eq_iff unat_mod)
  then have B: "page_addr begin (unat begin div 4096)"
    by (auto simp: page_addr_def)
  then show thesis
    using assms that[of "unat begin div 4096"] range_pages[OF B]
    by (simp add: proper_range_def range_of_def)
qed

lemma len_to_pages_bound: "len_to_pages len \<le> 0x100000"
proof -
  have "unat len div 4096 \<le> 0xfffff"
    using unat_u32_lt[of len] by (simp add: div_le_dividend less_mult_imp_div_less less_Suc_eq_le[symmetric])
  moreover have "unat (len div PAGE_SIZE + 1) = unat len div 4096 + 1"
    using calculation by (subst unat_add_u32) (simp_all add: unat_div)
  ultimately show ?thesis
    by (auto simp: len_to_pages_def Let_def word_le_nat_alt unat_div)
qed

definition writes_succeed :: "(fdref \<Rightarrow> u64 \<Rightarrow> nat \<times> errno) \<Rightarrow> vm \<Rightarrow> bool" where
  "writes_succeed pwrite vm \<longleftrightarrow>
     (\<forall>m \<in> set (mappings vm). shared m \<longrightarrow> (\<forall>fd off. pwrite fd off = (4096, ESUCCESS)))"

lemma backed_in_range:
  assumes "page_addr begin B" "page_addr endd E" "B < E" "list_all mapping_wf S"
    "\<forall>m \<in> set S. outside begin endd m \<or> inside begin endd m"
    "\<And>P. has (pte pg P) 1 \<Longrightarrow> \<exists>m \<in> set S. P \<in> mapped_pages m"
  shows "backed_in pg begin endd S = {P \<in> {B ..< E}. has (pte pg P) 1}"
proof -
  have "P \<in> {B ..< E} \<longleftrightarrow> \<not> outside begin endd m" if "m \<in> set S" "P \<in> mapped_pages m" for m P
  proof -
    have "mapping_wf m"
      using assms(4) that(1) by (simp add: list_all_iff)
    then show ?thesis
      using that assms(3,5) outside_iff[OF _ assms(1,2)] inside_iff[OF _ assms(1,2)] by fastforce
  qed
  then show ?thesis
    unfolding backed_in_def using assms(6) by blast
qed

lemma mem_unmap_correct:
  assumes "vm_wf vm" "ms_flags_ok K" "writes_succeed pwrite vm" "proper_range begin num_pages"
  shows "\<exists>vm'. mem_unmap K pwrite begin num_pages vm = Some vm' \<and> vm_wf vm'
    \<and> space (mappings vm') = space (mappings vm) |` (- range_of begin num_pages)
    \<and> (\<forall>P. pte (paging vm') P =
          (if P \<in> range_of begin num_pages \<and> has (pte (paging vm) P) 1 then 0 else pte (paging vm) P))
    \<and> mset (freed (paging vm')) = mset (freed (paging vm))
        + image_mset (frame_of (paging vm))
            (mset_set {P \<in> range_of begin num_pages. has (pte (paging vm) P) 1})"
proof -
  define endd where "endd = begin + num_pages * PAGE_SIZE"
  obtain B where B: "page_addr begin B" "page_addr endd (B + unat num_pages)" "B < B + unat num_pages"
    "range_of begin num_pages = {B ..< B + unat num_pages}" "begin < endd" "begin mod PAGE_SIZE = 0"
    using proper_rangeE[OF assms(4)] unfolding endd_def by metis
  define S where "S = split_mappings begin endd (mappings vm)"
  let ?pg = "paging vm"
  have wf: "list_all mapping_wf (mappings vm)" "disjoint_mappings (mappings vm)" "paging_wf ?pg"
    "\<And>P. has (pte ?pg P) 1 \<Longrightarrow> \<exists>m \<in> set (mappings vm). P \<in> mapped_pages m"
    using assms(1) by (auto simp: vm_wf_def)
  have S: "list_all mapping_wf S" "disjoint_mappings S" "space S = space (mappings vm)"
    "(\<Union>m \<in> set S. mapped_pages m) = (\<Union>m \<in> set (mappings vm). mapped_pages m)"
    "\<forall>m \<in> set S. outside begin endd m \<or> inside begin endd m"
    using split_mappings_correct[OF B(1-3) wf(1,2)] unfolding S_def by blast+
  have "\<forall>m \<in> set S. shared m \<longrightarrow> (\<forall>fd off. pwrite fd off = (4096, ESUCCESS))"
    using split_keeps_unshared[OF B(1-3) wf(1)] assms(3) unfolding S_def writes_succeed_def by blast
  from unmap_all_correct[OF assms(2) S(1,2) wf(3) S(5) this] obtain pg' where pg':
    "unmap_all K pwrite begin endd S ?pg = Some (filter (outside begin endd) S, pg')" "paging_wf pg'"
    "\<forall>P. pte pg' P = (if P \<in> backed_in ?pg begin endd S then 0 else pte ?pg P)"
    "mset (freed pg') = mset (freed ?pg) + image_mset (frame_of ?pg) (mset_set (backed_in ?pg begin endd S))"
    by blast
  have mapped: "\<exists>m \<in> set S. P \<in> mapped_pages m" if "has (pte ?pg P) 1" for P
    using wf(4)[OF that] S(4) by (metis UN_iff)
  have bk: "backed_in ?pg begin endd S = {P \<in> range_of begin num_pages. has (pte ?pg P) 1}"
    unfolding B(4) using backed_in_range[OF B(1-3) S(1,5)] mapped by blast
  define vm' where "vm' = \<lparr>mappings = filter (outside begin endd) S, paging = pg'\<rparr>"
  have "mem_unmap K pwrite begin num_pages vm = Some vm'"
    using B(5,6) pg'(1)
    by (simp add: mem_unmap_def iterate_mappings_def iterate_mappings_split[OF wf(1) B(1-3)] Let_def
        S_def vm'_def flip: endd_def)
  moreover have "space (mappings vm') = space (mappings vm) |` (- range_of begin num_pages)"
    using space_filter_outside[OF B(1,2) S(1,5)] S(3) B(4) by (simp add: vm'_def)
  moreover have "vm_wf vm'"
  proof -
    have "\<exists>m \<in> set (filter (outside begin endd) S). P \<in> mapped_pages m" if "has (pte pg' P) 1" for P
    proof -
      have p: "P \<notin> backed_in ?pg begin endd S" "has (pte ?pg P) 1"
        using that pg'(3) by (auto simp: has_def split: if_splits)
      then obtain m where "m \<in> set S" "P \<in> mapped_pages m"
        using mapped by blast
      then show ?thesis
        using p by (auto simp: backed_in_def)
    qed
    moreover have "list_all mapping_wf (filter (outside begin endd) S)"
      using S(1) by (simp add: list_all_iff)
    ultimately show ?thesis
      using pg'(2) disjoint_filter[OF S(2)] by (auto simp: vm_wf_def vm'_def)
  qed
  moreover have "\<forall>P. pte (paging vm') P =
      (if P \<in> range_of begin num_pages \<and> has (pte ?pg P) 1 then 0 else pte ?pg P)"
    using pg'(3) unfolding bk by (simp add: vm'_def)
  ultimately show ?thesis
    using pg'(4) unfolding bk by (simp add: vm'_def)
qed

subsection \<open>Changing the protection of a range\<close>

definition with_protection :: "u8 \<Rightarrow> nat set \<Rightarrow> (nat \<rightharpoonup> page_attr) \<Rightarrow> nat \<rightharpoonup> page_attr" where
  "with_protection prot R f P =
     (if P \<in> R then map_option (\<lambda>a. a\<lparr>attr_protection := prot\<rparr>) (f P) else f P)"

lemma protection_irrelevant [simp]:
  "mapping_wf (m\<lparr>protection := p\<rparr>) = mapping_wf m"
  "first_page (m\<lparr>protection := p\<rparr>) = first_page m"
  "page_count (m\<lparr>protection := p\<rparr>) = page_count m"
  "mapped_pages (m\<lparr>protection := p\<rparr>) = mapped_pages m"
  by (simp_all add: mapping_wf_def first_page_def page_count_def mapped_pages_def)

lemma page_attrs_protection:
  "mapped_pages m \<subseteq> R \<Longrightarrow> page_attrs (m\<lparr>protection := prot\<rparr>) = with_protection prot R (page_attrs m)"
  "mapped_pages m \<inter> R = {} \<Longrightarrow> with_protection prot R (page_attrs m) = page_attrs m"
  by (auto simp: page_attrs_def with_protection_def fun_eq_iff simp del: in_mapped_pages_iff)

lemma with_protection_add:
  "with_protection prot R (f ++ g) = with_protection prot R f ++ with_protection prot R g"
  by (rule ext) (simp add: with_protection_def map_add_def split: option.splits)

lemma apply_protection_correct:
  assumes "page_addr begin B" "page_addr endd E" "prot_to_bits K prot = Some bits"
  shows "list_all mapping_wf ms \<Longrightarrow> disjoint_mappings ms \<Longrightarrow> paging_wf pg \<Longrightarrow>
    \<forall>m \<in> set ms. outside begin endd m \<or> inside begin endd m \<Longrightarrow>
    \<exists>ms' pg'. apply_inside begin endd (set_protection K prot) ms pg = Some (ms', pg')
      \<and> map mapped_pages ms' = map mapped_pages ms \<and> list_all mapping_wf ms'
      \<and> space ms' = with_protection prot {B ..< E} (space ms) \<and> paging_wf pg'
      \<and> (\<forall>P. pte pg' P = (if P \<in> backed_in pg begin endd ms
                           then (pte pg P AND 0xfffffff9) OR bits else pte pg P))
      \<and> freed pg' = freed pg"
proof (induction ms arbitrary: pg)
  case Nil
  then show ?case
    by (simp add: backed_in_def with_protection_def fun_eq_iff)
next
  case (Cons m ms)
  then have wf: "mapping_wf m" and dis: "disjoint_mappings ms"
      "\<forall>x \<in> set ms. mapped_pages m \<inter> mapped_pages x = {}"
    by (simp_all add: disjoint_mappings_def)
  note iff = outside_iff[OF wf assms(1,2)] inside_iff[OF wf assms(1,2)]
  show ?case
  proof (cases "outside begin endd m")
    case True
    then have "backed_in pg begin endd (m # ms) = backed_in pg begin endd ms"
      by (auto simp: backed_in_def)
    moreover have "with_protection prot {B ..< E} (page_attrs m) = page_attrs m"
      using True iff by (intro page_attrs_protection(2)) auto
    ultimately show ?thesis
      using True wf Cons.IH[of pg] Cons.prems dis(1) by (auto simp: with_protection_add)
  next
    case False
    let ?m = "m\<lparr>protection := prot\<rparr>"
    have "mapped_pages m \<subseteq> {B ..< E}"
      using False Cons.prems(4) iff by auto
    then have attrs: "page_attrs ?m = with_protection prot {B ..< E} (page_attrs m)"
      by (rule page_attrs_protection(1))
    obtain pg1 where pg1: "set_protection K prot m pg = Some (?m, pg1)" "paging_wf pg1"
      "\<forall>Q. pte pg1 Q = (if Q \<in> mapped_pages m \<and> has (pte pg Q) 1
                          then (pte pg Q AND 0xfffffff9) OR bits else pte pg Q)"
      "freed pg1 = freed pg"
      using set_protection_correct[OF wf Cons.prems(3) assms(3)] by blast
    obtain ms' pg2 where pg2:
      "apply_inside begin endd (set_protection K prot) ms pg1 = Some (ms', pg2)"
      "map mapped_pages ms' = map mapped_pages ms" "list_all mapping_wf ms'"
      "space ms' = with_protection prot {B ..< E} (space ms)" "paging_wf pg2"
      "\<forall>P. pte pg2 P = (if P \<in> backed_in pg1 begin endd ms
                         then (pte pg1 P AND 0xfffffff9) OR bits else pte pg1 P)" "freed pg2 = freed pg1"
      using Cons.IH[OF _ dis(1) pg1(2)] Cons.prems by auto
    have rest: "backed_in pg1 begin endd ms = backed_in pg begin endd ms"
      using pg1(3) dis(2) by (fastforce simp: backed_in_def)
    have "pte pg2 P = (if P \<in> backed_in pg begin endd (m # ms)
            then (pte pg P AND 0xfffffff9) OR bits else pte pg P)" for P
    proof (cases "P \<in> mapped_pages m")
      case True
      then have "P \<notin> backed_in pg begin endd ms"
        using dis(2) unfolding backed_in_def by blast
      with True pg2(6) pg1(3) False show ?thesis
        unfolding rest by (auto simp: backed_in_def)
    next
      case out: False
      with pg2(6) pg1(3) show ?thesis
        unfolding rest by (auto simp: backed_in_def)
    qed
    with False pg1(1,4) pg2 wf attrs show ?thesis
      by (simp add: with_protection_add)
  qed
qed

lemma disjoint_mappings_map:
  "map mapped_pages ms' = map mapped_pages ms \<Longrightarrow> disjoint_mappings ms' = disjoint_mappings ms"
proof (induction ms arbitrary: ms')
  case (Cons m ms)
  then obtain m' ms'' where m: "ms' = m' # ms''" "mapped_pages m' = mapped_pages m"
    "map mapped_pages ms'' = map mapped_pages ms"
    by (cases ms') auto
  have "mapped_pages ` set ms'' = mapped_pages ` set ms"
    using m(3) by (metis list.set_map)
  then have "(\<forall>x \<in> set ms''. A \<inter> mapped_pages x = {}) \<longleftrightarrow> (\<forall>x \<in> set ms. A \<inter> mapped_pages x = {})" for A
    by (metis (no_types, lifting) image_iff)
  with Cons.IH[OF m(3)] m(1,2) show ?case
    by (simp add: disjoint_mappings_def)
qed simp

lemma mem_protect_correct:
  assumes "vm_wf vm" "proper_range begin num_pages" "prot_to_bits K prot = Some bits"
  shows "\<exists>vm'. mem_protect K begin num_pages prot vm = Some vm' \<and> vm_wf vm'
    \<and> space (mappings vm') = with_protection prot (range_of begin num_pages) (space (mappings vm))
    \<and> (\<forall>P. pte (paging vm') P =
          (if P \<in> range_of begin num_pages \<and> has (pte (paging vm) P) 1
           then (pte (paging vm) P AND 0xfffffff9) OR bits else pte (paging vm) P))
    \<and> freed (paging vm') = freed (paging vm)"
proof -
  define endd where "endd = begin + num_pages * PAGE_SIZE"
  obtain B where B: "page_addr begin B" "page_addr endd (B + unat num_pages)" "B < B + unat num_pages"
    "range_of begin num_pages = {B ..< B + unat num_pages}" "begin < endd" "begin mod PAGE_SIZE = 0"
    using proper_rangeE[OF assms(2)] unfolding endd_def by metis
  define S where "S = split_mappings begin endd (mappings vm)"
  let ?pg = "paging vm"
  have wf: "list_all mapping_wf (mappings vm)" "disjoint_mappings (mappings vm)" "paging_wf ?pg"
    "\<And>P. has (pte ?pg P) 1 \<Longrightarrow> \<exists>m \<in> set (mappings vm). P \<in> mapped_pages m"
    using assms(1) by (auto simp: vm_wf_def)
  have S: "list_all mapping_wf S" "disjoint_mappings S" "space S = space (mappings vm)"
    "(\<Union>m \<in> set S. mapped_pages m) = (\<Union>m \<in> set (mappings vm). mapped_pages m)"
    "\<forall>m \<in> set S. outside begin endd m \<or> inside begin endd m"
    using split_mappings_correct[OF B(1-3) wf(1,2)] unfolding S_def by blast+
  from apply_protection_correct[OF B(1,2) assms(3) S(1,2) wf(3) S(5)] obtain ms' pg' where r:
    "apply_inside begin endd (set_protection K prot) S ?pg = Some (ms', pg')"
    "map mapped_pages ms' = map mapped_pages S" "list_all mapping_wf ms'"
    "space ms' = with_protection prot {B ..< B + unat num_pages} (space S)" "paging_wf pg'"
    "\<forall>P. pte pg' P = (if P \<in> backed_in ?pg begin endd S
                       then (pte ?pg P AND 0xfffffff9) OR bits else pte ?pg P)" "freed pg' = freed ?pg"
    by blast
  have mapped: "\<exists>m \<in> set S. P \<in> mapped_pages m" if "has (pte ?pg P) 1" for P
    using wf(4)[OF that] S(4) by (metis UN_iff)
  have bk: "backed_in ?pg begin endd S = {P \<in> range_of begin num_pages. has (pte ?pg P) 1}"
    unfolding B(4) using backed_in_range[OF B(1-3) S(1,5)] mapped by blast
  define vm' where "vm' = \<lparr>mappings = ms', paging = pg'\<rparr>"
  have "mem_protect K begin num_pages prot vm = Some vm'"
    using B(5,6) r(1)
    by (simp add: mem_protect_def iterate_mappings_def iterate_mappings_split[OF wf(1) B(1-3)] Let_def
        S_def vm'_def flip: endd_def)
  moreover have "vm_wf vm'"
  proof -
    have "\<exists>m \<in> set ms'. P \<in> mapped_pages m" if "has (pte pg' P) 1" for P
    proof -
      have "has (pte ?pg P) 1"
        using that r(6) by (auto simp: backed_in_def split: if_splits)
      then have "P \<in> \<Union> (set (map mapped_pages S))"
        using mapped by auto
      then show ?thesis
        unfolding r(2)[symmetric] by auto
    qed
    then show ?thesis
      using r(3,5) S(2) disjoint_mappings_map[OF r(2)] by (auto simp: vm_wf_def vm'_def)
  qed
  ultimately show ?thesis
    using r(4,6,7) S(3) unfolding bk B(4)[symmetric] by (simp add: vm'_def)
qed

subsection \<open>Adding a mapping\<close>

lemma overlap_iff:
  assumes "mapping_wf m" "mapping_wf x"
  shows "mappings_overlap (mapping_begin m) (mapping_end m) x \<longleftrightarrow> mapped_pages m \<inter> mapped_pages x \<noteq> {}"
proof -
  have "mappings_overlap (mapping_begin m) (mapping_end m) x \<longleftrightarrow>
      first_page x < first_page m + page_count m \<and> first_page m < first_page x + page_count x"
    unfolding mappings_overlap_def
    using page_addr_less[OF mapping_begin_addr[OF assms(2)] mapping_end_addr[OF assms(1)]]
      page_addr_less[OF mapping_begin_addr[OF assms(1)] mapping_end_addr[OF assms(2)]] by simp
  moreover have "0 < page_count m" "0 < page_count x"
    using wf_page_count assms by auto
  ultimately show ?thesis
    by (auto simp: mapped_pages_def)
qed

lemma proper_range_mapping:
  assumes "mapping_wf m"
  shows "proper_range (virtual_address m) (number_of_pages m)"
    "range_of (virtual_address m) (number_of_pages m) = mapped_pages m"
proof -
  have "page_count m \<le> 0xc0000"
    using wf_page_count[OF assms] by simp
  then have "number_of_pages m \<le> 0x100000"
    by (simp add: word_le_nat_alt page_count_def)
  moreover have "virtual_address m < virtual_address m + number_of_pages m * PAGE_SIZE"
    using wf_nonempty[OF assms] by (simp add: mapping_begin_def mapping_end_def)
  moreover have "virtual_address m mod PAGE_SIZE = 0"
    using assms by (simp add: mapping_wf_def word_unat_eq_iff unat_mod)
  ultimately show "proper_range (virtual_address m) (number_of_pages m)"
    by (simp add: proper_range_def)
  show "range_of (virtual_address m) (number_of_pages m) = mapped_pages m"
    by (simp add: range_of_def mapped_pages_def first_page_def page_count_def)
qed

lemma vm_wf_add:
  assumes "vm_wf vm" "mapping_wf m" "\<forall>x \<in> set (mappings vm). mapped_pages m \<inter> mapped_pages x = {}"
  shows "vm_wf (vm\<lparr>mappings := mappings vm @ [m]\<rparr>)"
proof -
  have "disjoint_mappings (mappings vm @ [m])"
    using assms by (auto simp: vm_wf_def disjoint_append disjoint_mappings_def[of "[m]"])
  with assms(1,2) show ?thesis
    by (fastforce simp: vm_wf_def)
qed

lemma no_overlap_iff:
  assumes "vm_wf vm" "mapping_wf m"
  shows "\<not> list_ex (mappings_overlap (mapping_begin m) (mapping_end m)) (mappings vm) \<longleftrightarrow>
    mapped_pages m \<inter> dom (space (mappings vm)) = {}"
proof -
  have "list_ex (mappings_overlap (mapping_begin m) (mapping_end m)) (mappings vm) \<longleftrightarrow>
      (\<exists>x \<in> set (mappings vm). mapped_pages m \<inter> mapped_pages x \<noteq> {})"
    unfolding list_ex_iff using overlap_iff[OF assms(2)] assms(1)
    by (intro bex_cong refl) (simp add: vm_wf_def list_all_iff)
  then show ?thesis
    unfolding dom_space by blast
qed

lemma add_mem_mapping_free:
  assumes "vm_wf vm" "mapping_wf m"
  shows "add_mem_mapping K pwrite m False vm =
    (if mapped_pages m \<inter> dom (space (mappings vm)) = {}
     then Some (vm\<lparr>mappings := mappings vm @ [m]\<rparr>) else None)"
  using no_overlap_iff[OF assms] assms(2) by (simp add: add_mem_mapping_def mapping_wf_def)

lemma space_snoc:
  "mapped_pages m \<inter> dom (space ms) = {} \<Longrightarrow> space (ms @ [m]) = space ms ++ page_attrs m"
  unfolding space_append by (simp add: map_add_comm dom_page_attrs Int_commute)

lemma add_mem_mapping_overwrite:
  assumes "vm_wf vm" "mapping_wf m" "ms_flags_ok K" "writes_succeed pwrite vm"
  shows "\<exists>vm'. add_mem_mapping K pwrite m True vm = Some vm' \<and> vm_wf vm'
    \<and> space (mappings vm') = space (mappings vm) ++ page_attrs m"
proof -
  note pr = proper_range_mapping[OF assms(2)]
  obtain vm1 where vm1: "mem_unmap K pwrite (virtual_address m) (number_of_pages m) vm = Some vm1"
    "vm_wf vm1" "space (mappings vm1) = space (mappings vm) |` (- mapped_pages m)"
    using mem_unmap_correct[OF assms(1,3,4) pr(1)] unfolding pr(2) by blast
  have free: "mapped_pages m \<inter> dom (space (mappings vm1)) = {}"
    unfolding vm1(3) by auto
  then have "add_mem_mapping K pwrite m True vm = Some (vm1\<lparr>mappings := mappings vm1 @ [m]\<rparr>)"
    using vm1(1) no_overlap_iff[OF vm1(2) assms(2)] assms(2)
    by (simp add: add_mem_mapping_def mapping_wf_def)
  moreover have "vm_wf (vm1\<lparr>mappings := mappings vm1 @ [m]\<rparr>)"
    using free by (intro vm_wf_add[OF vm1(2) assms(2)]) (auto simp: dom_space)
  moreover have "space (mappings vm1 @ [m]) = space (mappings vm) ++ page_attrs m"
    unfolding space_snoc[OF free] vm1(3)
    by (rule ext) (auto simp: map_add_def restrict_map_def page_attrs_def split: option.splits)
  ultimately show ?thesis
    by auto
qed

subsection \<open>Finding a free range\<close>

lemma lowest_after_fold:
  "(case fold (\<lambda>item lowest.
       if mapping_end item > address
       then case lowest of
              None \<Rightarrow> Some item
            | Some l \<Rightarrow> if virtual_address l > virtual_address item then Some item else lowest
       else lowest) ms acc of
      None \<Rightarrow> acc = None \<and> (\<forall>m \<in> set ms. \<not> mapping_end m > address)
    | Some l \<Rightarrow> (l \<in> set ms \<and> mapping_end l > address \<or> acc = Some l)
        \<and> (\<forall>m \<in> set ms. mapping_end m > address \<longrightarrow> virtual_address l \<le> virtual_address m)
        \<and> (\<forall>a. acc = Some a \<longrightarrow> virtual_address l \<le> virtual_address a))"
proof (induction ms arbitrary: acc)
  case Nil
  then show ?case
    by (cases acc) simp_all
next
  case (Cons m ms)
  let ?g = "\<lambda>item lowest.
       if mapping_end item > address
       then case lowest of
              None \<Rightarrow> Some item
            | Some l \<Rightarrow> if virtual_address l > virtual_address item then Some item else lowest
       else lowest"
  let ?acc = "?g m acc"
  show ?case
  proof (cases "fold ?g ms ?acc")
    case None
    then show ?thesis
      using Cons.IH[of ?acc] by (auto split: if_splits option.splits)
  next
    case (Some l)
    then show ?thesis
      using Cons.IH[of ?acc] by (auto split: if_splits option.splits)
  qed
qed

lemma lowest_after_None: "lowest_after address ms = None \<Longrightarrow> m \<in> set ms \<Longrightarrow> mapping_end m \<le> address"
  using lowest_after_fold[where address = address and ms = ms and acc = None] unfolding lowest_after_def by auto

lemma lowest_after_Some:
  assumes "lowest_after address ms = Some l"
  shows "l \<in> set ms" "mapping_end l > address"
    "\<And>m. m \<in> set ms \<Longrightarrow> mapping_end m > address \<Longrightarrow> virtual_address l \<le> virtual_address m"
  using lowest_after_fold[where address = address and ms = ms and acc = None] assms unfolding lowest_after_def by auto


definition free_range :: "mem_mapping list \<Rightarrow> nat \<Rightarrow> nat \<Rightarrow> bool" where
  "free_range ms A n \<longleftrightarrow> {A ..< A + n} \<inter> dom (space ms) = {}"

lemma lowest_gap:
  assumes wf: "list_all mapping_wf ms" and A: "page_addr address A" and n: "0 < n"
    and low: "lowest_after address ms = Some l"
  shows "A + n \<le> first_page l \<Longrightarrow> free_range ms A n"
    "\<not> A + n \<le> first_page l \<Longrightarrow> A \<le> A' \<Longrightarrow> A' < first_page l + page_count l \<Longrightarrow> \<not> free_range ms A' n"
    "A < first_page l + page_count l" "mapping_wf l"
proof -
  show l: "mapping_wf l"
    using wf lowest_after_Some(1)[OF low] by (simp add: list_all_iff)
  show end_l: "A < first_page l + page_count l"
    using lowest_after_Some(2)[OF low] page_addr_less[OF A mapping_end_addr[OF l]] by simp
  have after: "first_page l \<le> first_page m" if "m \<in> set ms" "A < first_page m + page_count m" for m
  proof -
    have m: "mapping_wf m"
      using wf that(1) by (simp add: list_all_iff)
    then have "mapping_end m > address"
      using that(2) page_addr_less[OF A mapping_end_addr] by simp
    then have "virtual_address l \<le> virtual_address m"
      using lowest_after_Some(3)[OF low that(1)] by simp
    then show ?thesis
      using page_addr_le[OF virtual_address_addr[OF l] virtual_address_addr[OF m]] by simp
  qed
  show "free_range ms A n" if "A + n \<le> first_page l"
    using that after by (fastforce simp: free_range_def dom_space)
  show "\<not> free_range ms A' n" if "\<not> A + n \<le> first_page l" "A \<le> A'" "A' < first_page l + page_count l"
  proof -
    let ?P = "max A' (first_page l)"
    have "?P \<in> {A' ..< A' + n}" "?P \<in> mapped_pages l"
      using that n wf_page_count[OF l] by auto
    then show ?thesis
      using lowest_after_Some(1)[OF low] unfolding free_range_def dom_space by blast
  qed
qed

lemma range_end_addr:
  assumes "page_addr address A" "A \<le> 0xc0000" "unat num_pages < 0x40000"
  shows "page_addr (address + num_pages * PAGE_SIZE) (A + unat num_pages)"
proof -
  have "unat (num_pages * PAGE_SIZE) = unat num_pages * 4096"
    using assms(3) by (subst unat_mult_u32) simp_all
  then show ?thesis
    using assms unfolding page_addr_def by (subst unat_add_u32) (simp_all add: add_mult_distrib)
qed

lemma kernel_base_addr: "page_addr kernel_virtual_base 0xc0000"
  by (simp add: page_addr_def kernel_virtual_base_def)

lemma find_free_from_correct:
  assumes wf: "list_all mapping_wf ms" and n: "0 < unat num_pages" "unat num_pages < 0x40000"
  shows "page_addr address A \<Longrightarrow> 0 < A \<Longrightarrow> A \<le> 0xc0000 \<Longrightarrow>
    (\<exists>a F. find_free_from num_pages ms address = Some a \<and> page_addr a F \<and> A \<le> F
       \<and> F + unat num_pages < 0xc0000 \<and> free_range ms F (unat num_pages))
    \<or> (find_free_from num_pages ms address = Some 0
       \<and> (\<forall>F. A \<le> F \<and> F + unat num_pages < 0xc0000 \<longrightarrow> \<not> free_range ms F (unat num_pages)))"
proof (induction "0xc0000 - A" arbitrary: address A rule: less_induct)
  case less
  let ?n = "unat num_pages"
  have e: "page_addr (address + num_pages * PAGE_SIZE) (A + ?n)"
    using range_end_addr[OF less.prems(1,3) n(2)] .
  have c: "address + num_pages * PAGE_SIZE < kernel_virtual_base \<longleftrightarrow> A + ?n < 0xc0000"
    using page_addr_less[OF e kernel_base_addr] by simp
  show ?case
  proof (cases "A + ?n < 0xc0000")
    case False
    then have "find_free_from num_pages ms address = Some 0"
      using c by (subst find_free_from.simps) simp
    with False show ?thesis
      by auto
  next
    case True
    show ?thesis
    proof (cases "lowest_after address ms")
      case None
      have "free_range ms A ?n"
      proof -
        have "first_page m + page_count m \<le> A" if "m \<in> set ms" for m
          using lowest_after_None[OF None that] wf that less.prems(1) page_addr_le[OF mapping_end_addr]
          by (auto simp: list_all_iff)
        then show ?thesis
          by (fastforce simp: free_range_def dom_space)
      qed
      with None True c less.prems show ?thesis
        by (subst (1 2) find_free_from.simps) auto
    next
      case (Some l)
      note g = lowest_gap[OF wf less.prems(1) n(1) Some]
      have fits: "address + num_pages * PAGE_SIZE \<le> virtual_address l \<longleftrightarrow> A + ?n \<le> first_page l"
        using page_addr_le[OF e virtual_address_addr[OF g(4)]] .
      show ?thesis
      proof (cases "A + ?n \<le> first_page l")
        case fit: True
        with Some True c g(1) fits less.prems show ?thesis
          by (subst (1 2) find_free_from.simps) auto
      next
        case no: False
        let ?A = "first_page l + page_count l"
        have step: "find_free_from num_pages ms address = find_free_from num_pages ms (mapping_end l)"
          using Some True c fits no by (subst find_free_from.simps) simp
        have IH: "(\<exists>a F. find_free_from num_pages ms (mapping_end l) = Some a \<and> page_addr a F \<and> ?A \<le> F
             \<and> F + ?n < 0xc0000 \<and> free_range ms F ?n)
          \<or> (find_free_from num_pages ms (mapping_end l) = Some 0
             \<and> (\<forall>F. ?A \<le> F \<and> F + ?n < 0xc0000 \<longrightarrow> \<not> free_range ms F ?n))"
          using g(3) wf_limit[OF g(4)] True
          by (intro less.hyps[OF _ mapping_end_addr[OF g(4)]]) auto
        then show ?thesis
        proof
          assume "\<exists>a F. find_free_from num_pages ms (mapping_end l) = Some a \<and> page_addr a F \<and> ?A \<le> F
             \<and> F + ?n < 0xc0000 \<and> free_range ms F ?n"
          then show ?thesis
            unfolding step using g(3) by (meson less_imp_le order.trans)
        next
          assume r: "find_free_from num_pages ms (mapping_end l) = Some 0
             \<and> (\<forall>F. ?A \<le> F \<and> F + ?n < 0xc0000 \<longrightarrow> \<not> free_range ms F ?n)"
          moreover have "\<not> free_range ms F ?n" if "A \<le> F" "F + ?n < 0xc0000" for F
            using r that g(2)[OF no that(1)] by (cases "F < ?A") auto
          ultimately show ?thesis
            unfolding step by blast
        qed
      qed
    qed
  qed
qed

lemma find_free_virtual_range_correct:
  assumes "vm_wf vm" "0 < num_pages" "num_pages < 0x40000"
  shows "\<exists>a. find_free_virtual_range num_pages vm = Some a \<and>
    (if a = 0
     then \<forall>F. 0x90000 \<le> F \<and> F + unat num_pages < 0xc0000 \<longrightarrow> \<not> free_range (mappings vm) F (unat num_pages)
     else unat a mod 4096 = 0 \<and> 0x90000000 \<le> a \<and> unat a div 4096 + unat num_pages < 0xc0000
       \<and> free_range (mappings vm) (unat a div 4096) (unat num_pages))"
proof -
  have wf: "list_all mapping_wf (mappings vm)"
    using assms(1) by (simp add: vm_wf_def)
  have n: "0 < unat num_pages" "unat num_pages < 0x40000"
    using assms(2,3) by (simp_all add: word_less_nat_alt)
  have s: "page_addr 0x90000000 0x90000"
    by (simp add: page_addr_def)
  have big: "0x90000000 \<le> a \<and> a \<noteq> 0 \<and> unat a mod 4096 = 0 \<and> unat a div 4096 = F"
    if "page_addr a F" "0x90000 \<le> F" for a F
  proof -
    have "0x90000000 \<le> a"
      using page_addr_le[OF s that(1)] that(2) by simp
    moreover have "a \<noteq> 0"
      using that by (auto simp: page_addr_def)
    ultimately show ?thesis
      using that(1) by (simp add: page_addr_def)
  qed
  show ?thesis
    using find_free_from_correct[OF wf n s] big unfolding find_free_virtual_range_def by fastforce
qed

subsection \<open>Page faults\<close>

definition attr_valid :: "mem_consts \<Rightarrow> vm \<Rightarrow> bool" where
  "attr_valid K vm \<longleftrightarrow>
     (\<forall>m \<in> set (mappings vm). prot_to_bits K (protection m) \<noteq> None \<and> (shared m \<longrightarrow> backing_fd m \<noteq> None))"

lemma pagefault_mapping_none:
  "list_all mapping_wf ms \<Longrightarrow> \<forall>m \<in> set ms. unat addr div 4096 \<notin> mapped_pages m
   \<Longrightarrow> pagefault_mapping addr ms found = Some found"
  by (induction ms) (auto simp: page_num_correct simp del: in_mapped_pages_iff)

lemma pagefault_mapping_correct:
  assumes "list_all mapping_wf ms" "disjoint_mappings ms"
  shows "if unat addr div 4096 \<in> dom (space ms)
    then \<exists>m \<in> set ms. unat addr div 4096 \<in> mapped_pages m
       \<and> pagefault_mapping addr ms None = Some (Some (m, of_nat (unat addr div 4096 - first_page m)))
       \<and> space ms (unat addr div 4096) = page_attrs m (unat addr div 4096)
    else pagefault_mapping addr ms None = Some None"
  using assms
proof (induction ms)
  case (Cons m ms)
  let ?P = "unat addr div 4096"
  have wf: "mapping_wf m" "list_all mapping_wf ms" and dis: "disjoint_mappings ms"
      "\<forall>x \<in> set ms. mapped_pages m \<inter> mapped_pages x = {}"
    using Cons.prems by (simp_all add: disjoint_mappings_def)
  show ?case
  proof (cases "?P \<in> mapped_pages m")
    case True
    then have "\<forall>x \<in> set ms. ?P \<notin> mapped_pages x"
      using dis(2) by blast
    then have "pagefault_mapping addr (m # ms) None
        = Some (Some (m, of_nat (?P - first_page m)))"
      using True wf pagefault_mapping_none[OF wf(2)] by (simp add: page_num_correct del: in_mapped_pages_iff)
    moreover have "space (m # ms) ?P = page_attrs m ?P" "?P \<in> dom (space (m # ms))"
      using True by (auto simp: map_add_def domIff page_attrs_def)
    ultimately show ?thesis
      using True by auto
  next
    case False
    then have "page_attrs m ?P = None"
      using dom_page_attrs[of m] by blast
    then have sp: "space (m # ms) ?P = space ms ?P"
      by (simp add: map_add_def)
    have "pagefault_mapping addr (m # ms) None = pagefault_mapping addr ms None"
      using False wf(1) by (simp add: page_num_correct del: in_mapped_pages_iff)
    then show ?thesis
      using Cons.IH[OF wf(2) dis(1)] sp by (auto simp: domIff simp del: in_mapped_pages_iff space.simps split: if_splits)
  qed
qed simp

text \<open>
  The page fault handler allows an access exactly if the page is mapped, its protection admits
  the access and no physical page is there yet.
\<close>

definition fault_allowed :: "mem_consts \<Rightarrow> vm \<Rightarrow> nat \<Rightarrow> bool \<Rightarrow> bool \<Rightarrow> bool" where
  "fault_allowed K vm P for_writing for_exec \<longleftrightarrow>
     (case space (mappings vm) P of
        None \<Rightarrow> False
      | Some a \<Rightarrow> (for_writing \<longrightarrow> has (attr_protection a) (K PROT_WRITE))
          \<and> (for_exec \<longrightarrow> has (attr_protection a) (K PROT_EXEC))
          \<and> \<not> has (pte (paging vm) P) 1)"

lemma handle_pagefault_correct:
  assumes wf: "vm_wf vm" "attr_valid K vm"
    and alloc: "tbl = Some t" "t AND 0xfff = 0" "frame = Some phys" "phys AND 0xfff = 0"
    and P: "P = unat addr div 4096"
  shows "\<exists>vm'. handle_pagefault K tbl frame addr for_writing for_exec vm
        = Some (fault_allowed K vm P for_writing for_exec, vm')
      \<and> mappings vm' = mappings vm \<and> vm_wf vm'
      \<and> (if fault_allowed K vm P for_writing for_exec
         then \<exists>a bits. space (mappings vm) P = Some a \<and> prot_to_bits K (attr_protection a) = Some bits
            \<and> (\<forall>Q. pte (paging vm') Q = (if Q = P then phys OR bits OR 1 else pte (paging vm) Q))
         else vm' = vm)"
proof -
  have w: "list_all mapping_wf (mappings vm)" "disjoint_mappings (mappings vm)" "paging_wf (paging vm)"
    using wf(1) by (simp_all add: vm_wf_def)
  note f = pagefault_mapping_correct[OF w(1,2), of addr, folded P]
  show ?thesis
  proof (cases "P \<in> dom (space (mappings vm))")
    case False
    then have "space (mappings vm) P = None"
      by (simp add: domIff)
    with False f wf(1) show ?thesis
      by (simp add: handle_pagefault_def fault_allowed_def)
  next
    case True
    then obtain m where m: "m \<in> set (mappings vm)" "P \<in> mapped_pages m"
      "pagefault_mapping addr (mappings vm) None = Some (Some (m, of_nat (P - first_page m)))"
      "space (mappings vm) P = page_attrs m P"
      using f by auto
    define i where "i = (of_nat (P - first_page m) :: u32)"
    have mw: "mapping_wf m"
      using w(1) m(1) by (simp add: list_all_iff)
    have "P - first_page m < page_count m" "page_count m \<le> 0xc0000"
      using m(2) wf_page_count[OF mw] by auto
    then have i: "unat i = P - first_page m" "i < number_of_pages m"
      by (simp_all add: i_def unat_of_nat take_bit_nat_eq_self word_less_nat_alt page_count_def)
    have Pi: "P = first_page m + unat i"
      using i(1) m(2) by simp
    obtain a where a: "page_attrs m P = Some a" "attr_protection a = protection m"
      using m(2) by (auto simp: page_attrs_def)
    obtain bits where bits: "prot_to_bits K (protection m) = Some bits" "shared m \<longrightarrow> backing_fd m \<noteq> None"
      using wf(2) m(1) by (auto simp: attr_valid_def)
    have backed: "is_backed (paging vm) m i = Some (has (pte (paging vm) P) 1)"
      using is_backed_correct[OF w(3) mw i(2)] Pi by simp
    have run: "handle_pagefault K tbl frame addr for_writing for_exec vm =
      (if fault_allowed K vm P for_writing for_exec
       then do { pg \<leftarrow> ensure_backed K (paging vm) tbl frame m i; Some (True, vm\<lparr>paging := pg\<rparr>) }
       else Some (False, vm))"
      using m(3,4) a backed by (simp add: handle_pagefault_def fault_allowed_def i_def)
    show ?thesis
    proof (cases "fault_allowed K vm P for_writing for_exec")
      case no: False
      with run wf(1) show ?thesis
        by simp
    next
      case yes: True
      then have np: "\<not> has (pte (paging vm) P) 1"
        using m(4) a by (simp add: fault_allowed_def)
      obtain pg' where pg': "ensure_backed K (paging vm) tbl frame m i = Some pg'" "paging_wf pg'"
        "\<forall>Q. pte pg' Q = (if Q = P \<and> \<not> has (pte (paging vm) P) 1 then phys OR bits OR 1 else pte (paging vm) Q)"
        using ensure_backed_correct[OF mw w(3) i(2) Pi alloc bits(2,1)] by blast
      have "vm_wf (vm\<lparr>paging := pg'\<rparr>)"
        using wf(1) pg'(2,3) m(1,2) by (auto simp: vm_wf_def simp del: in_mapped_pages_iff split: if_splits)
      with yes run pg' np m(4) a bits(1) show ?thesis
        by auto
    qed
  qed
qed

subsection \<open>What happens at the edges\<close>

text \<open>
  A process that maps 1.75 GiB gets the range from 0x90000000 up to the end of the 32-bit
  address space, which contains the kernel: the sum in the loop condition wraps to 0, and so does
  the sum in the assertion of the constructor.
\<close>

lemma find_free_range_wraps:
  "find_free_virtual_range 0x70000 \<lparr>mappings = [], paging = pg\<rparr> = Some 0x90000000"
  "mem_mapping_create 0x90000000 0x70000 None 0 p False adv \<noteq> None"
proof -
  have z: "0x90000000 + 0x70000 * PAGE_SIZE = 0"
    by (simp add: PAGE_SIZE_def word_unat_eq_iff)
  have m: "(0x90000000 :: u32) mod PAGE_SIZE = 0"
    by (simp add: PAGE_SIZE_def word_unat_eq_iff unat_mod)
  show "find_free_virtual_range 0x70000 \<lparr>mappings = [], paging = pg\<rparr> = Some 0x90000000"
    unfolding find_free_virtual_range_def
    by (subst find_free_from.simps) (simp add: z kernel_virtual_base_def lowest_after_def)
  show "mem_mapping_create 0x90000000 0x70000 None 0 p False adv \<noteq> None"
    using z m by (simp add: mem_mapping_create_def kernel_virtual_base_def)
qed

text \<open>A page of which the file has only the first bytes is filled with zeroes altogether.\<close>

lemma short_read_discarded:
  "length bytes < 4096 \<Longrightarrow> initial_contents (Some (bytes, ESUCCESS)) = replicate 4096 0"
  by (simp add: initial_contents_def)

text \<open>Splitting a shared mapping leaves a part that is not shared, and so is never written back.\<close>

lemma split_drops_shared:
  "split_at m page return_left = Some (m', new) \<Longrightarrow> shared m' = shared m \<and> \<not> shared new"
  by (auto simp: split_at_def mem_mapping_create_def bind_eq_Some_iff split: if_splits)

subsection \<open>Properties\<close>

text \<open>A process with one anonymous mapping of four pages, none of them backed yet.\<close>

definition sample_mapping :: mem_mapping where
  "sample_mapping = \<lparr>protection = 6, virtual_address = 0x90000000, number_of_pages = 4,
     backing_fd = None, backing_offset = 0, shared = False, advice = 0\<rparr>"

definition sample_vm :: vm where
  "sample_vm = \<lparr>mappings = [sample_mapping], paging = new_paging (replicate 0x100 1)\<rparr>"

lemma sample_mapping_wf: "mapping_wf sample_mapping"
  by (simp add: mapping_wf_def sample_mapping_def)

lemma sample_pages: "mapped_pages sample_mapping = {0x90000 ..< 0x90004}"
  by (simp add: mapped_pages_def first_page_def page_count_def sample_mapping_def)

lemma sample_vm_wf: "vm_wf sample_vm" "writes_succeed pwrite sample_vm"
  using sample_mapping_wf new_paging_wf[of "replicate 0x100 1"]
  by (simp_all add: vm_wf_def sample_vm_def disjoint_mappings_def has_def writes_succeed_def)
    (simp add: sample_mapping_def)

lemma sample_flags: "ms_flags_ok sample_mem_consts"
  by (simp add: ms_flags_ok_def has_def)

lemma sample_space: "P \<in> {0x90000 ..< 0x90004} \<Longrightarrow> space (mappings sample_vm) P \<noteq> None"
  by (simp add: sample_vm_def page_attrs_def sample_pages del: in_mapped_pages_iff)

lemma sample_range: "proper_range 0x90001000 2" "range_of 0x90001000 2 = {0x90001 ..< 0x90003}"
  by (simp_all add: proper_range_def range_of_def PAGE_SIZE_def word_unat_eq_iff unat_mod)

text \<open>
  C6: Unmapping a page-aligned range succeeds, keeps the invariant of the address space, and
  implements the abstract operation: exactly the pages of the range disappear from the map of
  pages, however the mappings had to be split. Every physical page that backed a page
  of the range is given back to the page allocator exactly once, its page table entry is cleared,
  and no other entry changes. (Hypotheses: the flag constants are distinct bits, and writing back
  the dirty pages of shared mappings succeeds.)
\<close>

theorem mem_unmap_refines:
  assumes "vm_wf vm" "ms_flags_ok K" "writes_succeed pwrite vm" "proper_range begin num_pages"
  shows "\<exists>vm'. mem_unmap K pwrite begin num_pages vm = Some vm' \<and> vm_wf vm'
    \<and> space (mappings vm') = space (mappings vm) |` (- range_of begin num_pages)
    \<and> (\<forall>P. pte (paging vm') P =
          (if P \<in> range_of begin num_pages \<and> has (pte (paging vm) P) 1 then 0 else pte (paging vm) P))
    \<and> mset (freed (paging vm')) = mset (freed (paging vm))
        + image_mset (frame_of (paging vm))
            (mset_set {P \<in> range_of begin num_pages. has (pte (paging vm) P) 1})"
  using assms by (rule mem_unmap_correct)

theorem mem_unmap_refines_witness:
  "\<exists>vm'. mem_unmap sample_mem_consts (\<lambda>_ _. (0, EIO)) 0x90001000 2 sample_vm = Some vm'
     \<and> space (mappings vm') 0x90000 \<noteq> None \<and> space (mappings vm') 0x90001 = None
     \<and> space (mappings vm') 0x90003 \<noteq> None"
proof -
  obtain vm' where "mem_unmap sample_mem_consts (\<lambda>_ _. (0, EIO)) 0x90001000 2 sample_vm = Some vm'"
    "space (mappings vm') = space (mappings sample_vm) |` (- range_of 0x90001000 2)"
    using mem_unmap_refines[OF sample_vm_wf(1) sample_flags sample_vm_wf(2) sample_range(1)] by blast
  then show ?thesis
    using sample_space by (auto simp: sample_range restrict_map_def simp del: space.simps)
qed



text \<open>
  C8: Adding a mapping with \<^verbatim>\<open>MAP_FIXED\<close> (\<^verbatim>\<open>overwrite\<close>) succeeds, keeps the invariant, and overrides
  the abstract address space with the pages of the new mapping. The assertion that
  the mapping does not overlap an existing one never fails.
\<close>

theorem add_mem_mapping_refines:
  assumes "vm_wf vm" "mapping_wf m" "ms_flags_ok K" "writes_succeed pwrite vm"
  shows "\<exists>vm'. add_mem_mapping K pwrite m True vm = Some vm' \<and> vm_wf vm'
    \<and> space (mappings vm') = space (mappings vm) ++ page_attrs m"
  using assms by (rule add_mem_mapping_overwrite)

theorem add_mem_mapping_refines_witness:
  "\<exists>vm'. add_mem_mapping sample_mem_consts (\<lambda>_ _. (0, EIO)) (sample_mapping\<lparr>protection := 4\<rparr>) True sample_vm
     = Some vm' \<and> map_option attr_protection (space (mappings vm') 0x90002) = Some 4"
proof -
  have "mapping_wf (sample_mapping\<lparr>protection := 4\<rparr>)"
    using sample_mapping_wf by simp
  from add_mem_mapping_refines[OF sample_vm_wf(1) this sample_flags sample_vm_wf(2)] obtain vm' where
    "add_mem_mapping sample_mem_consts (\<lambda>_ _. (0, EIO)) (sample_mapping\<lparr>protection := 4\<rparr>) True sample_vm
      = Some vm'"
    "space (mappings vm') = space (mappings sample_vm) ++ page_attrs (sample_mapping\<lparr>protection := 4\<rparr>)"
    by blast
  then show ?thesis
    by (simp add: page_attrs_def map_add_def sample_pages del: in_mapped_pages_iff)
qed





end
