(* ===== verification/Fd.thy ===== *)
theory Fd
  imports Cloudabi
begin

text \<open>
  File descriptors, \<^verbatim>\<open>fd/fd.hpp\<close>. An \<^verbatim>\<open>fd_t\<close> is an object with virtual methods; a reference to
  one is a number, the state of all objects is a world of any type, and the virtual methods
  are the fields of a record (the table the compiler builds for the class). A method takes
  the reference and the world and gives what the method leaves in \<^verbatim>\<open>error\<close>, its result and the
  new world; it is \<^term>\<open>None\<close> if the method halts the kernel or never returns. The
  member itself is not part of the world here; a class whose methods do not always assign it
  keeps it in its own objects.

  The second part holds the methods that \<^verbatim>\<open>fd_t\<close> itself defines, and \<^verbatim>\<open>seekable_fd_t\<close>.
\<close>

type_synonym fdref = nat
type_synonym bytes = "u8 list"
type_synonym ('a, 'w) fd_method = "'w \<Rightarrow> (errno \<times> 'a \<times> 'w) option"

record 'w fd_class =
  fd_type :: "fdref \<Rightarrow> 'w \<Rightarrow> filetype"
  fd_flags :: "fdref \<Rightarrow> 'w \<Rightarrow> u16"
  fd_set_flags :: "fdref \<Rightarrow> u16 \<Rightarrow> 'w \<Rightarrow> 'w"
  fd_device :: "fdref \<Rightarrow> 'w \<Rightarrow> u64"
  op_seek :: "fdref \<Rightarrow> u64 \<Rightarrow> whence \<Rightarrow> (u64, 'w) fd_method"
  op_read :: "fdref \<Rightarrow> u32 \<Rightarrow> (bytes, 'w) fd_method"
  op_write :: "fdref \<Rightarrow> bytes \<Rightarrow> (u32, 'w) fd_method"
  op_pread :: "fdref \<Rightarrow> u32 \<Rightarrow> u32 \<Rightarrow> (bytes, 'w) fd_method"
  op_pwrite :: "fdref \<Rightarrow> bytes \<Rightarrow> u32 \<Rightarrow> (u32, 'w) fd_method"
  op_datasync :: "fdref \<Rightarrow> (unit, 'w) fd_method"
  op_sync :: "fdref \<Rightarrow> (unit, 'w) fd_method"
  op_lookup :: "fdref \<Rightarrow> bytes \<Rightarrow> u16 \<Rightarrow> (filestat, 'w) fd_method"
  op_inode_open :: "fdref \<Rightarrow> u64 \<Rightarrow> u64 \<Rightarrow> fdstat \<Rightarrow> (fdref option, 'w) fd_method"
  op_readdir :: "fdref \<Rightarrow> u32 \<Rightarrow> u64 \<Rightarrow> (bytes, 'w) fd_method"
  op_file_allocate :: "fdref \<Rightarrow> u64 \<Rightarrow> u64 \<Rightarrow> (unit, 'w) fd_method"
  op_file_create :: "fdref \<Rightarrow> bytes \<Rightarrow> filetype \<Rightarrow> (u64, 'w) fd_method"
  op_file_link :: "fdref \<Rightarrow> bytes \<Rightarrow> fdref \<Rightarrow> bytes \<Rightarrow> (unit, 'w) fd_method"
  op_file_readlink :: "fdref \<Rightarrow> bytes \<Rightarrow> u32 \<Rightarrow> (bytes, 'w) fd_method"
  op_file_rename :: "fdref \<Rightarrow> bytes \<Rightarrow> fdref \<Rightarrow> bytes \<Rightarrow> (unit, 'w) fd_method"
  op_file_symlink :: "fdref \<Rightarrow> bytes \<Rightarrow> bytes \<Rightarrow> (unit, 'w) fd_method"
  op_file_unlink :: "fdref \<Rightarrow> bytes \<Rightarrow> u8 \<Rightarrow> (unit, 'w) fd_method"
  op_file_stat_fget :: "fdref \<Rightarrow> (filestat, 'w) fd_method"
  op_file_stat_put :: "fdref \<Rightarrow> bytes \<Rightarrow> filestat \<Rightarrow> u16 \<Rightarrow> (unit, 'w) fd_method"
  op_file_stat_fput :: "fdref \<Rightarrow> filestat \<Rightarrow> u16 \<Rightarrow> (unit, 'w) fd_method"
  op_sock_shutdown :: "fdref \<Rightarrow> u8 \<Rightarrow> (unit, 'w) fd_method"

subsection \<open>The methods of \<open>fd_t\<close>\<close>

text \<open>
  The class \<^verbatim>\<open>fd_t\<close>: a method that a subclass does not override fails with a fixed error.
  Only \<^verbatim>\<open>file_stat_fget\<close> succeeds, with what the base class knows. The accessors of the three
  data members are arguments.
\<close>

definition fd_t_filestat :: "u64 \<Rightarrow> filetype \<Rightarrow> filestat" where
  "fd_t_filestat dev t = \<lparr>st_dev = dev, st_ino = 0, st_filetype = t, st_nlink = 0, st_size = 0,
     st_atim = 0, st_mtim = 0, st_ctim = 0\<rparr>"

definition fd_t_class ::
  "(fdref \<Rightarrow> 'w \<Rightarrow> filetype) \<Rightarrow> (fdref \<Rightarrow> 'w \<Rightarrow> u16) \<Rightarrow> (fdref \<Rightarrow> u16 \<Rightarrow> 'w \<Rightarrow> 'w) \<Rightarrow> (fdref \<Rightarrow> 'w \<Rightarrow> u64)
   \<Rightarrow> filestat \<Rightarrow> 'w fd_class" where
  "fd_t_class ty fl sfl dev junk = \<lparr>
     fd_type = ty, fd_flags = fl, fd_set_flags = sfl, fd_device = dev,
     op_seek = (\<lambda>_ _ _ w. Some (EBADF, 0, w)),
     op_read = (\<lambda>_ _ w. Some (EINVAL, [], w)),
     op_write = (\<lambda>_ _ w. Some (EINVAL, 0, w)),
     op_pread = (\<lambda>_ _ _ w. Some (EPIPE, [], w)),
     op_pwrite = (\<lambda>_ _ _ w. Some (EPIPE, 0, w)),
     op_datasync = (\<lambda>_ w. Some (EINVAL, (), w)),
     op_sync = (\<lambda>_ w. Some (EINVAL, (), w)),
     op_lookup = (\<lambda>_ _ _ w. Some (EINVAL, junk, w)),
     op_inode_open = (\<lambda>_ _ _ _ w. Some (EINVAL, None, w)),
     op_readdir = (\<lambda>_ _ _ w. Some (ENOTDIR, [], w)),
     op_file_allocate = (\<lambda>_ _ _ w. Some (EINVAL, (), w)),
     op_file_create = (\<lambda>_ _ _ w. Some (EINVAL, 0, w)),
     op_file_link = (\<lambda>_ _ _ _ w. Some (EINVAL, (), w)),
     op_file_readlink = (\<lambda>_ _ _ w. Some (EINVAL, [], w)),
     op_file_rename = (\<lambda>_ _ _ _ w. Some (EINVAL, (), w)),
     op_file_symlink = (\<lambda>_ _ _ w. Some (EINVAL, (), w)),
     op_file_unlink = (\<lambda>_ _ _ w. Some (EINVAL, (), w)),
     op_file_stat_fget = (\<lambda>f w. Some (ESUCCESS, fd_t_filestat (dev f w) (ty f w), w)),
     op_file_stat_put = (\<lambda>_ _ _ _ w. Some (EINVAL, (), w)),
     op_file_stat_fput = (\<lambda>_ _ _ w. Some (EINVAL, (), w)),
     op_sock_shutdown = (\<lambda>_ _ w. Some (ENOTSOCK, (), w))\<rparr>"

subsection \<open>Seekable file descriptors\<close>

text \<open>
  \<^verbatim>\<open>seekable_fd_t::seek\<close> on the position alone. The offset is a signed 64-bit number, the
  position an unsigned one; \<open>endpos\<close> is the outcome of \<^verbatim>\<open>file_stat_fget\<close>, only used for
  \<^verbatim>\<open>CLOUDABI_WHENCE_END\<close>. The result is the error and the new position, which is also the
  value returned.
\<close>

definition seek_cur :: "u64 \<Rightarrow> u64 \<Rightarrow> errno \<times> u64" where
  "seek_cur offset p =
     (if 0 <s offset \<and> offset > - 1 - p then (EOVERFLOW, p)
      else if offset <s 0 \<and> - offset > p then (EINVAL, p)
      else (ESUCCESS, p + offset))"

definition seekable_seek :: "errno \<times> u64 \<Rightarrow> u64 \<Rightarrow> whence \<Rightarrow> u64 \<Rightarrow> errno \<times> u64" where
  "seekable_seek endpos offset whence p =
     (case whence of
        WHENCE_END \<Rightarrow> (case endpos of (e, len) \<Rightarrow> if e \<noteq> ESUCCESS then (e, p) else seek_cur offset len)
      | WHENCE_CUR \<Rightarrow> seek_cur offset p
      | WHENCE_SET \<Rightarrow> if offset <s 0 then (EINVAL, p) else (ESUCCESS, offset)
      | WHENCE_OTHER \<Rightarrow> (EINVAL, p))"

text \<open>
  \<^verbatim>\<open>pread\<close> and \<^verbatim>\<open>pwrite\<close> of \<^verbatim>\<open>seekable_fd_t\<close> move the position, use the \<^verbatim>\<open>read\<close> or \<^verbatim>\<open>write\<close> of the
  subclass and move the position back. \<open>get_pos\<close> and \<open>set_pos\<close> access the member \<^verbatim>\<open>pos\<close>. The
  offset is a \<^verbatim>\<open>size_t\<close>, so it is never negative as a 64-bit number.
\<close>

definition seekable_pread ::
  "(fdref \<Rightarrow> 'w \<Rightarrow> u64) \<Rightarrow> (fdref \<Rightarrow> u64 \<Rightarrow> 'w \<Rightarrow> 'w) \<Rightarrow> (fdref \<Rightarrow> u32 \<Rightarrow> (bytes, 'w) fd_method)
   \<Rightarrow> fdref \<Rightarrow> u32 \<Rightarrow> u32 \<Rightarrow> (bytes, 'w) fd_method" where
  "seekable_pread get_pos set_pos rd f cnt offset w =
     (let oldpos = get_pos f w;
          (e, p) = seekable_seek (ESUCCESS, 0) (ucast offset) WHENCE_SET oldpos;
          w = set_pos f p w
      in if e \<noteq> ESUCCESS then Some (e, [], w)
         else do {
           kassert (get_pos f w = ucast offset);
           (read_error, data, w) \<leftarrow> rd f cnt w;
           let (e, p) = seekable_seek (ESUCCESS, 0) oldpos WHENCE_SET (get_pos f w);
           Some (if read_error \<noteq> ESUCCESS then read_error else e, data, set_pos f p w)
         })"

definition seekable_pwrite ::
  "cloudabi \<Rightarrow> (fdref \<Rightarrow> 'w \<Rightarrow> u64) \<Rightarrow> (fdref \<Rightarrow> u64 \<Rightarrow> 'w \<Rightarrow> 'w) \<Rightarrow> (fdref \<Rightarrow> 'w \<Rightarrow> u16) \<Rightarrow> (fdref \<Rightarrow> u16 \<Rightarrow> 'w \<Rightarrow> 'w)
   \<Rightarrow> (fdref \<Rightarrow> bytes \<Rightarrow> (u32, 'w) fd_method) \<Rightarrow> fdref \<Rightarrow> bytes \<Rightarrow> u32 \<Rightarrow> (u32, 'w) fd_method" where
  "seekable_pwrite A get_pos set_pos get_flags set_flags wr f data offset w =
     (let oldpos = get_pos f w;
          (e, p) = seekable_seek (ESUCCESS, 0) (ucast offset) WHENCE_SET oldpos;
          w = set_pos f p w
      in if e \<noteq> ESUCCESS then Some (e, 0, w)
         else do {
           kassert (get_pos f w = ucast offset);
           let had_append = has (get_flags f w) (FILE_CONST A FDFLAG_APPEND);
           let w = set_flags f (get_flags f w AND NOT (FILE_CONST A FDFLAG_APPEND)) w;
           (write_error, written, w) \<leftarrow> wr f data w;
           let w = (if had_append then set_flags f (get_flags f w OR FILE_CONST A FDFLAG_APPEND) w else w);
           let (e, p) = seekable_seek (ESUCCESS, 0) oldpos WHENCE_SET (get_pos f w);
           Some (if write_error \<noteq> ESUCCESS then write_error else e, written, set_pos f p w)
         })"

text \<open>
  A successful seek never wraps around: the new position is the mathematical sum of the base
  and the signed offset, and a relative seek fails exactly if that sum is not a position.
\<close>

lemma uint_word_of_int_64: "0 \<le> i \<Longrightarrow> i < 2 ^ 64 \<Longrightarrow> uint (word_of_int i :: u64) = i"
  by (simp add: uint_word_of_int)

lemma seek_cur_exact:
  "seek_cur offset p =
     (if uint p + sint offset < 0 then (EINVAL, p)
      else if uint p + sint offset \<ge> 2 ^ 64 then (EOVERFLOW, p)
      else (ESUCCESS, word_of_int (uint p + sint offset)))"
proof -
  have p: "0 \<le> uint p" "uint p < 2 ^ 64" using uint_lt2p[of p] by simp_all
  have s: "- (2 ^ 63) \<le> sint offset" "sint offset < 2 ^ 63"
    using sint_ge[of offset] sint_lt[of offset] by simp_all
  show ?thesis
  proof (cases "0 \<le> sint offset")
    case True
    then have u: "uint offset = sint offset"
      using p uint_lt2p[of offset] by (auto simp: sint_uint_64 split: if_splits)
    have "(offset > - 1 - p) = (uint p + sint offset \<ge> 2 ^ 64)"
    proof -
      have "(2 ^ 64 - 1 - uint p) mod 2 ^ 64 = 2 ^ 64 - 1 - uint p"
        by (rule mod_pos_pos_trivial) (insert p, linarith+)
      then have v: "uint (- 1 - p) = 2 ^ 64 - 1 - uint p"
        by (simp add: uint_word_ariths)
      show ?thesis unfolding word_less_def v u by linarith
    qed
    moreover have "\<not> uint p + sint offset < 0" using True p(1) by linarith
    ultimately show ?thesis using True p(2)
      by (auto simp: seek_cur_def word_sless_alt)
  next
    case False
    have "uint (- offset) = - sint offset"
    proof -
      have "uint (word_of_int (- sint offset) :: u64) = - sint offset"
        by (rule uint_word_of_int_64) (insert False s, simp_all)
      then show ?thesis by simp
    qed
    then have "(- offset > p) = (uint p + sint offset < 0)"
      unfolding word_less_def by linarith
    moreover have "\<not> uint p + sint offset \<ge> 2 ^ 64" using False p(2) by linarith
    ultimately show ?thesis using False
      by (auto simp: seek_cur_def word_sless_alt)
  qed
qed

lemma seek_cur_success:
  assumes "seek_cur offset p = (ESUCCESS, q)"
  shows "uint q = uint p + sint offset"
proof -
  define i where "i = uint p + sint offset"
  have "0 \<le> i" "i < 2 ^ 64" "q = word_of_int i"
    using assms unfolding seek_cur_exact i_def[symmetric] by (auto split: if_splits)
  then have "uint q = i" by (simp add: uint_word_of_int)
  then show ?thesis by (simp add: i_def)
qed

lemma seekable_seek_exact:
  assumes "seekable_seek endpos offset whence p = (ESUCCESS, q)"
  shows "uint q = (case whence of WHENCE_SET \<Rightarrow> 0 | WHENCE_CUR \<Rightarrow> uint p | _ \<Rightarrow> uint (snd endpos)) + sint offset"
  using assms uint_lt2p[of offset]
  by (auto simp: seekable_seek_def word_sless_alt sint_uint_64 dest!: seek_cur_success
           split: whence.splits if_splits prod.splits)

lemma seekable_seek_set:
  "seekable_seek endpos offset WHENCE_SET p = (if uint offset < 2 ^ 63 then (ESUCCESS, offset) else (EINVAL, p))"
  using uint_lt2p[of offset] by (auto simp: seekable_seek_def word_sless_alt sint_uint_64)

lemma uint_ucast_32_64 [simp]: "uint (ucast (x :: u32) :: u64) = uint x"
  by (simp add: unsigned_ucast_eq take_bit_int_eq_self_iff less_le_trans[OF uint_lt2p[of x]])

lemma ucast_32_small: "uint (ucast (x :: u32) :: u64) < 2 ^ 63"
  using uint_lt2p[of x] by simp

text \<open>
  C16: A seek never wraps around: the target is the sum, as integers, of the base (zero, the
  position or the size of the file) and the signed offset; it becomes the position exactly if it
  is not negative and fits in 64 bits.
\<close>

theorem seek_exact:
  "seekable_seek (ESUCCESS, len) offset whence p =
     (let t = (case whence of WHENCE_CUR \<Rightarrow> uint p | WHENCE_END \<Rightarrow> uint len | _ \<Rightarrow> 0) + sint offset;
          kept = (if whence = WHENCE_END then len else p)
      in if whence = WHENCE_OTHER \<or> t < 0 then (EINVAL, kept)
         else if t \<ge> 2 ^ 64 then (EOVERFLOW, kept)
         else (ESUCCESS, word_of_int t))"
proof (cases whence)
  case WHENCE_SET
  have "sint offset < 2 ^ 63" using sint_lt[of offset] by simp
  then show ?thesis by (simp add: WHENCE_SET seekable_seek_def word_sless_alt Let_def)
qed (simp_all add: seekable_seek_def seek_cur_exact Let_def)

end
