(* ===== verification/Fd_Table.thy ===== *)
theory Fd_Table
  imports Fd
begin

text \<open>
  The file descriptors of a process: \<^verbatim>\<open>fd_mapping_t\<close> of \<^verbatim>\<open>fd/process_fd.hpp\<close> and the operations of
  \<^verbatim>\<open>process_fd\<close> on the array \<^verbatim>\<open>fds\<close>. The array is a list of optional mappings whose length is
  \<^verbatim>\<open>fd_capacity\<close>; an empty \<^verbatim>\<open>shared_ptr\<close> in a mapping is \<^term>\<open>None\<close>.
\<close>

record fd_mapping =
  map_fd :: "fdref option"
  rights_base :: rights
  rights_inheriting :: rights

type_synonym fd_table = "fd_mapping option list"

definition fd_growth :: nat where "fd_growth = 100"

fun find_free :: "fd_table \<Rightarrow> nat \<Rightarrow> nat option" where
  "find_free [] n = None"
| "find_free (m # ms) n = (if m = None then Some n else find_free ms (n + 1))"

definition add_fd :: "fd_table \<Rightarrow> fdref option \<Rightarrow> rights \<Rightarrow> rights \<Rightarrow> (nat \<times> fd_table) option" where
  "add_fd fds f base inheriting =
     (let (fdnum, fds) =
        (case find_free fds 0 of
           Some n \<Rightarrow> (n, fds)
         | None \<Rightarrow> (length fds, fds @ replicate fd_growth None))
      in do {
        kassert (f \<noteq> None);
        Some (fdnum, fds[fdnum := Some \<lparr>map_fd = f, rights_base = base, rights_inheriting = inheriting\<rparr>])
      })"

definition get_fd :: "fd_table \<Rightarrow> u32 \<Rightarrow> rights \<Rightarrow> errno + fd_mapping" where
  "get_fd fds num has_rights =
     (if unat num \<ge> length fds then Inl EBADF
      else case fds ! unat num of
        None \<Rightarrow> Inl EBADF
      | Some m \<Rightarrow>
          if map_fd m = None then Inl EBADF
          else if rights_base m AND has_rights \<noteq> has_rights then Inl ENOTCAPABLE
          else Inr m)"

definition close_fd :: "fd_table \<Rightarrow> u32 \<Rightarrow> errno \<times> fd_table" where
  "close_fd fds num =
     (case get_fd fds num 0 of
        Inl e \<Rightarrow> (e, fds)
      | Inr _ \<Rightarrow> (ESUCCESS, fds[unat num := None]))"

definition replace_fd :: "fd_table \<Rightarrow> u32 \<Rightarrow> fdref option \<Rightarrow> rights \<Rightarrow> rights \<Rightarrow> errno \<times> fd_table" where
  "replace_fd fds num f base inheriting =
     (case get_fd fds num 0 of
        Inl e \<Rightarrow> (e, fds)
      | Inr _ \<Rightarrow>
          (ESUCCESS, fds[unat num := Some \<lparr>map_fd = f, rights_base = base, rights_inheriting = inheriting\<rparr>]))"

subsection \<open>The table as a map\<close>

text \<open>
  The specification: a finite map from numbers to mappings. Every mapping in a table that the
  kernel has built refers to an object.
\<close>

definition table_map :: "fd_table \<Rightarrow> nat \<rightharpoonup> fd_mapping" where
  "table_map fds n = (if n < length fds then fds ! n else None)"

definition table_wf :: "fd_table \<Rightarrow> bool" where
  "table_wf fds \<longleftrightarrow> (\<forall>n m. table_map fds n = Some m \<longrightarrow> map_fd m \<noteq> None)"

lemma table_wf_Nil [simp]: "table_wf []"
  by (simp add: table_wf_def table_map_def)

lemma table_map_update:
  "n < length fds \<Longrightarrow> table_map (fds[n := m]) = (table_map fds)(n := m)"
  by (auto simp: table_map_def fun_eq_iff nth_list_update)

lemma table_map_grow: "table_map (fds @ replicate k None) = table_map fds"
  by (auto simp: table_map_def fun_eq_iff nth_append)

lemma find_free_Some:
  "find_free fds k = Some n \<Longrightarrow>
   k \<le> n \<and> n < k + length fds \<and> fds ! (n - k) = None \<and> (\<forall>i < n - k. fds ! i \<noteq> None)"
proof (induction fds k arbitrary: n rule: find_free.induct)
  case (2 m ms k)
  show ?case
  proof (cases m)
    case None
    with 2 show ?thesis by simp
  next
    case (Some x)
    with 2 have IH: "k + 1 \<le> n" "n < k + 1 + length ms" "ms ! (n - (k + 1)) = None"
      "\<forall>i < n - (k + 1). ms ! i \<noteq> None" by simp_all
    obtain d where d: "n = k + 1 + d" using le_Suc_ex[OF IH(1)] by blast
    have "(m # ms) ! i \<noteq> None" if "i < n - k" for i
      using that IH(4) Some d by (cases i) auto
    moreover have "(m # ms) ! (n - k) = None"
      using IH(3) by (simp add: d)
    ultimately show ?thesis using IH by auto
  qed
qed simp

lemma find_free_None: "find_free fds k = None \<Longrightarrow> i < length fds \<Longrightarrow> fds ! i \<noteq> None"
proof (induction fds k arbitrary: i rule: find_free.induct)
  case (2 m ms k)
  then show ?case by (cases i) (auto split: if_splits)
qed simp

lemma get_fd_table_map:
  "get_fd fds num r =
     (case table_map fds (unat num) of
        None \<Rightarrow> Inl EBADF
      | Some m \<Rightarrow> if map_fd m = None then Inl EBADF
                  else if within r (rights_base m) then Inr m else Inl ENOTCAPABLE)"
  by (auto simp: get_fd_def table_map_def within_def and.commute split: option.splits)

lemma get_fd_Inl:
  "get_fd fds num 0 = Inl e \<Longrightarrow> table_wf fds \<Longrightarrow> table_map fds (unat num) = None \<and> e = EBADF"
  by (fastforce simp: get_fd_table_map table_wf_def split: option.splits if_splits)

lemma add_fd_correct:
  "\<exists>n fds'. add_fd fds (Some f) base inh = Some (n, fds') \<and>
     table_map fds n = None \<and> (\<forall>k < n. table_map fds k \<noteq> None) \<and>
     table_map fds' = (table_map fds)(n \<mapsto> \<lparr>map_fd = Some f, rights_base = base, rights_inheriting = inh\<rparr>)"
proof (cases "find_free fds 0")
  case None
  let ?g = "fds @ replicate fd_growth None"
  have "length fds < length ?g" by (simp add: fd_growth_def)
  moreover have "\<forall>k < length fds. table_map fds k \<noteq> None"
    using find_free_None[OF None] by (simp add: table_map_def)
  ultimately show ?thesis
    by (simp add: add_fd_def None table_map_update table_map_grow) (simp add: table_map_def)
next
  case (Some n)
  from find_free_Some[OF Some] show ?thesis
    by (simp add: add_fd_def Some table_map_update) (simp add: table_map_def)
qed

lemma get_fd_lt: "get_fd fds num r = Inr m \<Longrightarrow> unat num < length fds"
  by (auto simp: get_fd_def split: if_splits)

lemma get_fd_InrD:
  assumes "get_fd fds num r = Inr m"
  shows "table_map fds (unat num) = Some m" "within r (rights_base m)" "map_fd m \<noteq> None"
  using assms by (auto simp: get_fd_table_map split: option.splits if_splits)

lemma close_fd_correct:
  "close_fd fds num = (e, fds') \<Longrightarrow> table_wf fds \<Longrightarrow>
   e = (if unat num \<in> dom (table_map fds) then ESUCCESS else EBADF) \<and>
   table_map fds' = (table_map fds)(unat num := None)"
proof -
  assume a: "close_fd fds num = (e, fds')" "table_wf fds"
  show ?thesis
  proof (cases "get_fd fds num 0")
    case (Inl e')
    with a(1) get_fd_Inl[OF Inl a(2)] show ?thesis by (auto simp: close_fd_def)
  next
    case (Inr m)
    with a(1) get_fd_InrD[OF Inr] get_fd_lt[OF Inr] show ?thesis
      by (auto simp: close_fd_def table_map_update)
  qed
qed

lemma replace_fd_correct:
  "replace_fd fds num (Some f) base inh = (e, fds') \<Longrightarrow> table_wf fds \<Longrightarrow>
   (if unat num \<in> dom (table_map fds)
    then e = ESUCCESS \<and>
      table_map fds' = (table_map fds)(unat num \<mapsto> \<lparr>map_fd = Some f, rights_base = base, rights_inheriting = inh\<rparr>)
    else e = EBADF \<and> fds' = fds)"
proof -
  assume a: "replace_fd fds num (Some f) base inh = (e, fds')" "table_wf fds"
  show ?thesis
  proof (cases "get_fd fds num 0")
    case (Inl e')
    with a(1) get_fd_Inl[OF Inl a(2)] show ?thesis by (auto simp: replace_fd_def)
  next
    case (Inr m)
    with a(1) get_fd_InrD[OF Inr] get_fd_lt[OF Inr] show ?thesis
      by (auto simp: replace_fd_def table_map_update)
  qed
qed

text \<open>
  C11: The descriptor table implements a finite map: a new descriptor gets the lowest free number,
  closing removes exactly its number, replacing overwrites exactly an open number, and a
  lookup gives the mapping exactly if it has the rights asked for.
\<close>

theorem fd_table_refines_map:
  assumes "table_wf fds"
  shows "(\<exists>n fds'. add_fd fds (Some f) base inh = Some (n, fds') \<and> table_map fds n = None \<and> (\<forall>k < n. table_map fds k \<noteq> None) \<and>
      table_map fds' = (table_map fds)(n \<mapsto> \<lparr>map_fd = Some f, rights_base = base, rights_inheriting = inh\<rparr>) \<and> table_wf fds') \<and>
    (case close_fd fds num of (e, fds') \<Rightarrow> e = (if table_map fds (unat num) = None then EBADF else ESUCCESS) \<and>
      table_map fds' = (table_map fds)(unat num := None) \<and> table_wf fds') \<and>
    (case replace_fd fds num (Some f) base inh of (e, fds') \<Rightarrow>
      e = (if table_map fds (unat num) = None then EBADF else ESUCCESS) \<and>
      table_map fds' = (if table_map fds (unat num) = None then table_map fds
        else (table_map fds)(unat num \<mapsto> \<lparr>map_fd = Some f, rights_base = base, rights_inheriting = inh\<rparr>)) \<and> table_wf fds') \<and>
    get_fd fds num r = (case table_map fds (unat num) of None \<Rightarrow> Inl EBADF
      | Some m \<Rightarrow> if within r (rights_base m) then Inr m else Inl ENOTCAPABLE)"
proof (intro conjI)
  have wf: "table_wf fds'" if "table_map fds' = (table_map fds)(n := x)" "\<And>m. x = Some m \<Longrightarrow> map_fd m \<noteq> None" for fds' n x
    using assms that unfolding table_wf_def by (auto split: if_splits)
  obtain n fds' where "add_fd fds (Some f) base inh = Some (n, fds')" "table_map fds n = None" "\<forall>k < n. table_map fds k \<noteq> None"
    "table_map fds' = (table_map fds)(n \<mapsto> \<lparr>map_fd = Some f, rights_base = base, rights_inheriting = inh\<rparr>)"
    using add_fd_correct[of fds f base inh] by blast
  with wf[of fds' n "Some \<lparr>map_fd = Some f, rights_base = base, rights_inheriting = inh\<rparr>"] show "\<exists>n fds'. add_fd fds (Some f) base inh = Some (n, fds') \<and> table_map fds n = None \<and> (\<forall>k < n. table_map fds k \<noteq> None) \<and>
      table_map fds' = (table_map fds)(n \<mapsto> \<lparr>map_fd = Some f, rights_base = base, rights_inheriting = inh\<rparr>) \<and> table_wf fds'"
    by (intro exI[of _ n] exI[of _ fds']) simp
  obtain e1 t1 where c: "close_fd fds num = (e1, t1)" by fastforce
  show "case close_fd fds num of (e, fds') \<Rightarrow> e = (if table_map fds (unat num) = None then EBADF else ESUCCESS) \<and>
      table_map fds' = (table_map fds)(unat num := None) \<and> table_wf fds'"
    using close_fd_correct[OF c assms] wf[of t1 "unat num" None] by (auto simp: c)
  obtain e2 t2 where r: "replace_fd fds num (Some f) base inh = (e2, t2)" by fastforce
  show "case replace_fd fds num (Some f) base inh of (e, fds') \<Rightarrow>
      e = (if table_map fds (unat num) = None then EBADF else ESUCCESS) \<and>
      table_map fds' = (if table_map fds (unat num) = None then table_map fds
        else (table_map fds)(unat num \<mapsto> \<lparr>map_fd = Some f, rights_base = base, rights_inheriting = inh\<rparr>)) \<and> table_wf fds'"
    using replace_fd_correct[OF r assms] wf[of t2 "unat num" "Some \<lparr>map_fd = Some f, rights_base = base, rights_inheriting = inh\<rparr>"] assms by (auto simp: r split: if_splits)
  show "get_fd fds num r = (case table_map fds (unat num) of None \<Rightarrow> Inl EBADF
      | Some m \<Rightarrow> if within r (rights_base m) then Inr m else Inl ENOTCAPABLE)" for r
    using assms[unfolded table_wf_def, rule_format, of "unat num"] by (auto simp: get_fd_table_map split: option.splits)
qed

definition sample_table :: fd_table where
  "sample_table = [Some \<lparr>map_fd = Some 7, rights_base = 3, rights_inheriting = 0\<rparr>, None]"

theorem fd_table_refines_map_witness:
  "table_wf sample_table \<and> get_fd sample_table 0 1 = Inr \<lparr>map_fd = Some 7, rights_base = 3, rights_inheriting = 0\<rparr> \<and>
   get_fd sample_table 0 4 = Inl ENOTCAPABLE \<and>
   (\<exists>fds'. add_fd sample_table (Some 8) 1 1 = Some (1, fds') \<and> table_wf fds')"
proof -
  have wf: "table_wf sample_table" by (auto simp: sample_table_def table_wf_def table_map_def less_Suc_eq)
  from fd_table_refines_map[OF wf, of 8 1 1 0 1] fd_table_refines_map[OF wf, of 8 1 1 0 4] wf show ?thesis
    by (auto simp: sample_table_def table_map_def within_def add_fd_def)
qed

end
