(* ===== verification/Vfs.thy ===== *)
theory Vfs
  imports Fd
begin

text \<open>
  The virtual file system layer, \<^verbatim>\<open>fd/vfs.cpp\<close>: path traversal from a directory descriptor and
  the operations on paths built on it. Directories are file descriptors of any class.

  A path is a buffer of bytes with a length; the buffer holds what follows the path in memory
  as well, because the traversal reads one byte past a path that ends in a slash. The paths
  that the kernel builds itself from the contents of a symbolic link lie at the end of a heap
  block; the byte after the block built for the \<open>n\<close>-th link is \<open>past n\<close>.
\<close>

definition slash :: u8 where "slash = 0x2f"

definition dotdot :: bytes where "dotdot = [0x2e, 0x2e]"

definition dot :: bytes where "dot = [0x2e]"

definition NAME_MAX :: nat where "NAME_MAX = 255"

definition max_symlinks_followed :: nat where "max_symlinks_followed = 30"

definition path_at :: "bytes \<Rightarrow> nat \<Rightarrow> u8 option" where
  "path_at path i = (if i < length path then Some (path ! i) else None)"

record traverse_result =
  tr_directory :: fdref
  tr_filename :: bytes
  tr_lookup_errno :: errno
  tr_entry :: filestat

subsection \<open>Splitting off a component\<close>

function find_splitter :: "bytes \<Rightarrow> nat \<Rightarrow> nat \<Rightarrow> nat option" where
  "find_splitter path pathlen splitter =
     (if splitter < pathlen then do {
        c \<leftarrow> path_at path splitter;
        if c = slash then Some splitter else find_splitter path pathlen (splitter + 1)
      } else Some splitter)"
  by pat_completeness auto
termination by (relation "measure (\<lambda>(_, n, i). n - i)") auto

function skip_slashes :: "bytes \<Rightarrow> nat \<Rightarrow> nat \<Rightarrow> nat option" where
  "skip_slashes path pathlen splitter =
     (if splitter < pathlen then do {
        c \<leftarrow> path_at path (splitter + 1);
        if c = slash then skip_slashes path pathlen (splitter + 1) else Some splitter
      } else Some splitter)"
  by pat_completeness auto
termination by (relation "measure (\<lambda>(_, n, i). n - i)") auto

declare find_splitter.simps [simp del] skip_slashes.simps [simp del]

lemma find_splitter_ge: "find_splitter path n i = Some s \<Longrightarrow> i \<le> s"
proof (induction path n i rule: find_splitter.induct)
  case (1 path n i)
  then show ?case
    by (subst (asm) find_splitter.simps) (fastforce simp: bind_eq_Some_iff split: if_splits)
qed

lemma skip_slashes_ge: "skip_slashes path n i = Some s \<Longrightarrow> i \<le> s"
proof (induction path n i rule: skip_slashes.induct)
  case (1 path n i)
  then show ?case
    by (subst (asm) skip_slashes.simps) (fastforce simp: bind_eq_Some_iff split: if_splits)
qed

lemma skip_slashes_le: "skip_slashes path n i = Some s \<Longrightarrow> i \<le> n \<Longrightarrow> s \<le> n"
proof (induction path n i rule: skip_slashes.induct)
  case (1 path n i)
  then show ?case
    by (subst (asm) skip_slashes.simps) (fastforce simp: bind_eq_Some_iff split: if_splits)
qed

lemma find_splitter_correct:
  "n \<le> length path \<Longrightarrow> i \<le> n \<Longrightarrow>
   find_splitter path n i = Some (i + length (takeWhile (\<lambda>c. c \<noteq> slash) (drop i (take n path))))"
proof (induction path n i rule: find_splitter.induct)
  case (1 path n i)
  show ?case
  proof (cases "i < n")
    case True
    then have "drop i (take n path) = path ! i # drop (Suc i) (take n path)"
      using 1 by (metis Cons_nth_drop_Suc length_take min.absorb2 nth_take)
    then show ?thesis
      using 1 True by (subst find_splitter.simps) (simp add: path_at_def)
  next
    case False
    with 1 show ?thesis by (subst find_splitter.simps) simp
  qed
qed

subsection \<open>Traversal\<close>

text \<open>
  A round of the \<^verbatim>\<open>while(1)\<close> loop leaves the loop or goes around again with new values of the
  local variables: \<open>entered\<close>, the directories entered so far with the innermost first, the path,
  its length and the number of links followed. It leaves through the label \<^verbatim>\<open>error\<close>, with its
  assertion that an error has been set, or through \<^verbatim>\<open>success\<close>.
\<close>

datatype 'w traverse_round =
    Leave "errno + traverse_result" 'w
  | Again "fdref list" bytes nat nat 'w

definition traverse_error :: "errno \<Rightarrow> 'w \<Rightarrow> 'w traverse_round option" where
  "traverse_error e w = do { kassert (e \<noteq> ESUCCESS); Some (Leave (Inl e) w) }"

definition traverse_success :: "fdref \<Rightarrow> bytes \<Rightarrow> errno \<Rightarrow> filestat \<Rightarrow> 'w \<Rightarrow> 'w traverse_round option" where
  "traverse_success dir name e st w =
     Some (Leave (Inr \<lparr>tr_directory = dir, tr_filename = name, tr_lookup_errno = e, tr_entry = st\<rparr>) w)"

text \<open>The last component of a path: looked up with the open flags, a link followed on demand.\<close>

definition traverse_final ::
  "cloudabi \<Rightarrow> 'w fd_class \<Rightarrow> (nat \<Rightarrow> u8) \<Rightarrow> u32 \<Rightarrow> u16 \<Rightarrow> fdref \<Rightarrow> fdref list \<Rightarrow> bytes \<Rightarrow> nat \<Rightarrow> nat \<Rightarrow> nat \<Rightarrow> 'w
   \<Rightarrow> 'w traverse_round option" where
  "traverse_final A C past lookupflags oflags this_directory rest path component_len pathlen symlinks w =
     (let name = take component_len path in
      if name = dotdot \<and> rest = [] then traverse_error ENOTCAPABLE w
      else do {
       (e, st, w) \<leftarrow> op_lookup C this_directory name oflags w;
       if component_len < pathlen \<and> e = ESUCCESS \<and> st_filetype st \<noteq> FT_DIRECTORY
       then traverse_error ENOTDIR w
       else if has lookupflags (LOOKUP_SYMLINK_FOLLOW A) \<and> e = ESUCCESS \<and> st_filetype st = FT_SYMBOLIC_LINK then
        let sz = (ucast (st_size st) :: u32) in
        if sz = 0 \<or> symlinks + 1 \<ge> max_symlinks_followed then traverse_error ELOOP w
        else if unat sz > NAME_MAX then traverse_error ENAMETOOLONG w
        else do {
         (e, link, w) \<leftarrow> op_file_readlink C this_directory name sz w;
         if e \<noteq> ESUCCESS then traverse_error e w
         else do {
          kassert (length link \<le> unat sz);
          Some (Again (this_directory # rest) (link @ [past (symlinks + 1)]) (length link) (symlinks + 1) w)
         }
        }
       else traverse_success this_directory name e st w
      })"

text \<open>A component before the last one: a link is replaced, a directory entered.\<close>

definition traverse_inner ::
  "'w fd_class \<Rightarrow> (nat \<Rightarrow> u8) \<Rightarrow> fdstat \<Rightarrow> fdref \<Rightarrow> fdref list \<Rightarrow> bytes \<Rightarrow> nat \<Rightarrow> nat \<Rightarrow> nat \<Rightarrow> nat \<Rightarrow> 'w
   \<Rightarrow> 'w traverse_round option" where
  "traverse_inner C past fds this_directory rest path component_len splitter pathlen symlinks w =
     (let name = take component_len path in
      if component_len = 0 \<or> name = dot then
        Some (Again (this_directory # rest) (drop (splitter + 1) path) (pathlen - (splitter + 1)) symlinks w)
      else if name = dotdot then
        (if rest = [] then traverse_error ENOTCAPABLE w
         else Some (Again rest (drop (splitter + 1) path) (pathlen - (splitter + 1)) symlinks w))
      else do {
       (e, st, w) \<leftarrow> op_lookup C this_directory name 0 w;
       if e \<noteq> ESUCCESS then traverse_error e w
       else if st_filetype st = FT_SYMBOLIC_LINK then
        if st_size st = 0 \<or> symlinks + 1 \<ge> max_symlinks_followed then traverse_error ELOOP w
        else if unat (st_size st) > NAME_MAX then traverse_error ENAMETOOLONG w
        else do {
         (e, link, w) \<leftarrow> op_file_readlink C this_directory name (ucast (st_size st)) w;
         if e \<noteq> ESUCCESS then traverse_error e w
         else do {
          kassert (length link \<le> unat (st_size st));
          Some (Again (this_directory # rest)
                 (link @ take (pathlen - splitter) (drop splitter path) @ [past (symlinks + 1)])
                 (length link + (pathlen - splitter)) (symlinks + 1) w)
         }
        }
       else if st_filetype st \<noteq> FT_DIRECTORY then traverse_error ENOTDIR w
       else if splitter + 1 = pathlen then traverse_success this_directory name e st w
       else do {
        (e, new_directory, w) \<leftarrow> op_inode_open C this_directory (st_dev st) (st_ino st) fds w;
        if e \<noteq> ESUCCESS \<or> new_directory = None then traverse_error e w
        else Some (Again (the new_directory # this_directory # rest) (drop (splitter + 1) path)
                    (pathlen - (splitter + 1)) symlinks w)
       }
      })"

definition traverse_step ::
  "cloudabi \<Rightarrow> 'w fd_class \<Rightarrow> (nat \<Rightarrow> u8) \<Rightarrow> u32 \<Rightarrow> u16 \<Rightarrow> fdstat \<Rightarrow> fdref list \<Rightarrow> bytes \<Rightarrow> nat \<Rightarrow> nat \<Rightarrow> 'w
   \<Rightarrow> 'w traverse_round option" where
  "traverse_step A C past lookupflags oflags fds entered path pathlen symlinks w =
   (case entered of [] \<Rightarrow> None | this_directory # rest \<Rightarrow>
    if fd_type C this_directory w \<noteq> FT_DIRECTORY then traverse_error ENOTDIR w
    else if pathlen = 0 then traverse_error ENOENT w
    else do {
     c0 \<leftarrow> path_at path 0;
     if c0 = slash then traverse_error ENOTCAPABLE w
     else do {
      component_len \<leftarrow> find_splitter path pathlen 0;
      kassert (component_len > 0);
      if component_len > NAME_MAX then traverse_error ENAMETOOLONG w
      else do {
       splitter \<leftarrow> skip_slashes path pathlen component_len;
       kassert (component_len \<le> pathlen);
       if splitter = pathlen
       then traverse_final A C past lookupflags oflags this_directory rest path component_len pathlen symlinks w
       else traverse_inner C past fds this_directory rest path component_len splitter pathlen symlinks w
      }
     }
    })"

text \<open>
  A round that goes around again has followed one more link, less than
  \<^const>\<open>max_symlinks_followed\<close> in all, or has shortened the path.
\<close>

lemma traverse_error_eq: "traverse_error e w = Some r \<longleftrightarrow> e \<noteq> ESUCCESS \<and> r = Leave (Inl e) w"
  by (auto simp: traverse_error_def)

lemma traverse_success_eq: "traverse_success d name e st w = Some r \<longleftrightarrow>
    r = Leave (Inr \<lparr>tr_directory = d, tr_filename = name, tr_lookup_errno = e, tr_entry = st\<rparr>) w"
  by (auto simp: traverse_success_def)

lemmas traverse_round_simps = bind_eq_Some_iff traverse_error_eq traverse_success_eq Let_def

lemma traverse_final_Again:
  assumes "traverse_final A C past lf ofl d rest path clen pathlen n w = Some (Again entered' path' pathlen' n' w')"
  shows "n' = n + 1" "n' < max_symlinks_followed" "entered' = d # rest"
  using assms
  by (auto simp: traverse_final_def traverse_round_simps split: if_splits)

lemma traverse_inner_Again:
  assumes "traverse_inner C past fds d rest path clen s pathlen n w = Some (Again entered' path' pathlen' n' w')"
    and "s < pathlen"
  shows "n' = n + 1 \<and> n' < max_symlinks_followed \<or> n' = n \<and> pathlen' < pathlen"
  using assms
  by (auto simp: traverse_inner_def traverse_round_simps split: if_splits)

lemma traverse_step_cases:
  assumes "traverse_step A C past lf ofl fds entered path pathlen n w = Some r"
  obtains (error) e where "e \<noteq> ESUCCESS" "r = Leave (Inl e) w"
  | (final) d rest clen where "entered = d # rest" "fd_type C d w = FT_DIRECTORY"
      "find_splitter path pathlen 0 = Some clen" "0 < clen" "clen \<le> NAME_MAX" "clen \<le> pathlen"
      "traverse_final A C past lf ofl d rest path clen pathlen n w = Some r"
  | (inner) d rest clen s where "entered = d # rest" "fd_type C d w = FT_DIRECTORY"
      "find_splitter path pathlen 0 = Some clen" "0 < clen" "clen \<le> NAME_MAX" "clen \<le> s" "s < pathlen"
      "traverse_inner C past fds d rest path clen s pathlen n w = Some r"
proof -
  obtain d rest where ent: "entered = d # rest"
    using assms by (cases entered) (simp_all add: traverse_step_def)
  show thesis
  proof (cases "\<exists>e. e \<noteq> ESUCCESS \<and> r = Leave (Inl e) w")
    case True
    then show thesis using error by blast
  next
    case False
    then have "\<exists>clen s. fd_type C d w = FT_DIRECTORY \<and> find_splitter path pathlen 0 = Some clen
        \<and> 0 < clen \<and> clen \<le> NAME_MAX \<and> clen \<le> pathlen \<and> skip_slashes path pathlen clen = Some s
        \<and> (if s = pathlen then traverse_final A C past lf ofl d rest path clen pathlen n w
          else traverse_inner C past fds d rest path clen s pathlen n w) = Some r"
      using assms unfolding ent traverse_step_def
      by (cases "path_at path 0"; cases "find_splitter path pathlen 0")
         (auto simp: traverse_round_simps not_less split: if_splits)
    then obtain clen s where *: "fd_type C d w = FT_DIRECTORY" "find_splitter path pathlen 0 = Some clen"
        "0 < clen" "clen \<le> NAME_MAX" "clen \<le> pathlen" "skip_slashes path pathlen clen = Some s"
        "(if s = pathlen then traverse_final A C past lf ofl d rest path clen pathlen n w
          else traverse_inner C past fds d rest path clen s pathlen n w) = Some r"
      by blast
    have "s \<le> pathlen" "clen \<le> s"
      using skip_slashes_le[OF *(6)] skip_slashes_ge[OF *(6)] *(5) by simp_all
    with * ent final inner show thesis
      by (cases "s = pathlen") auto
  qed
qed

lemma traverse_step_measure:
  assumes "traverse_step A C past lf ofl fds entered path pathlen n w = Some (Again entered' path' pathlen' n' w')"
  shows "n' = n + 1 \<and> n' < max_symlinks_followed \<or> n' = n \<and> pathlen' < pathlen"
  using assms
proof (cases rule: traverse_step_cases)
  case (final d rest clen)
  then show ?thesis using traverse_final_Again[OF final(7)] by simp
next
  case (inner d rest clen s)
  show ?thesis by (rule traverse_inner_Again[OF inner(8,7)])
qed simp

function traverse_loop ::
  "cloudabi \<Rightarrow> 'w fd_class \<Rightarrow> (nat \<Rightarrow> u8) \<Rightarrow> u32 \<Rightarrow> u16 \<Rightarrow> fdstat \<Rightarrow> fdref list \<Rightarrow> bytes \<Rightarrow> nat \<Rightarrow> nat \<Rightarrow> 'w
   \<Rightarrow> ((errno + traverse_result) \<times> 'w) option" where
  "traverse_loop A C past lookupflags oflags fds entered path pathlen symlinks w =
     (case traverse_step A C past lookupflags oflags fds entered path pathlen symlinks w of
        None \<Rightarrow> None
      | Some (Leave r w) \<Rightarrow> Some (r, w)
      | Some (Again entered path pathlen symlinks w) \<Rightarrow>
          traverse_loop A C past lookupflags oflags fds entered path pathlen symlinks w)"
  by pat_completeness auto
termination
  by (relation "measures [\<lambda>(_, _, _, _, _, _, _, _, _, symlinks, _). max_symlinks_followed - symlinks,
                          \<lambda>(_, _, _, _, _, _, _, _, pathlen, _, _). pathlen]")
     (auto dest!: traverse_step_measure)

declare traverse_loop.simps [simp del]

definition traverse ::
  "cloudabi \<Rightarrow> 'w fd_class \<Rightarrow> (nat \<Rightarrow> u8) \<Rightarrow> fdref \<Rightarrow> bytes \<Rightarrow> nat \<Rightarrow> u32 \<Rightarrow> u16 \<Rightarrow> fdstat \<Rightarrow> 'w
   \<Rightarrow> ((errno + traverse_result) \<times> 'w) option" where
  "traverse A C past rootdir path pathlen lookupflags oflags fds w =
     (if oflags AND NOT (FILE_CONST A O_CREAT OR FILE_CONST A O_DIRECTORY OR FILE_CONST A O_EXCL
           OR FILE_CONST A O_TRUNC) \<noteq> 0 then Some (Inl EINVAL, w)
      else if oflags AND (FILE_CONST A O_CREAT OR FILE_CONST A O_DIRECTORY)
           = FILE_CONST A O_CREAT OR FILE_CONST A O_DIRECTORY then Some (Inl EINVAL, w)
      else traverse_loop A C past lookupflags oflags fds [rootdir] path pathlen 0 w)"

subsection \<open>Opening\<close>

text \<open>
  \<^verbatim>\<open>openat\<close>: the rights and flags asked for are in \<open>fds\<close>, and come back without the rights that
  make no sense for the kind of file that was opened.
\<close>

definition directory_only_rights :: "cloudabi \<Rightarrow> rights" where
  "directory_only_rights A =
     RIGHT A RIGHT_FILE_CREATE_DIRECTORY OR RIGHT A RIGHT_FILE_CREATE_FILE
     OR RIGHT A RIGHT_FILE_LINK_SOURCE OR RIGHT A RIGHT_FILE_LINK_TARGET
     OR RIGHT A RIGHT_FILE_OPEN OR RIGHT A RIGHT_FILE_READDIR OR RIGHT A RIGHT_FILE_READLINK
     OR RIGHT A RIGHT_FILE_RENAME_SOURCE OR RIGHT A RIGHT_FILE_RENAME_TARGET
     OR RIGHT A RIGHT_FILE_STAT_GET OR RIGHT A RIGHT_FILE_STAT_PUT_TIMES
     OR RIGHT A RIGHT_FILE_SYMLINK OR RIGHT A RIGHT_FILE_UNLINK"

definition nondirectory_rights :: "cloudabi \<Rightarrow> rights" where
  "nondirectory_rights A =
     RIGHT A RIGHT_FD_READ OR RIGHT A RIGHT_FD_SEEK OR RIGHT A RIGHT_FD_TELL
     OR RIGHT A RIGHT_MEM_MAP OR RIGHT A RIGHT_MEM_MAP_EXEC"

definition drop_rights :: "cloudabi \<Rightarrow> filetype \<Rightarrow> fdstat \<Rightarrow> fdstat" where
  "drop_rights A t fds =
     (let inheriting = (if t \<noteq> FT_DIRECTORY then 0 else fs_rights_inheriting fds);
          base = (if t \<noteq> FT_REGULAR_FILE then fs_rights_base fds AND NOT (RIGHT A RIGHT_PROC_EXEC)
                  else fs_rights_base fds);
          base = (if t \<noteq> FT_DIRECTORY then base AND NOT (directory_only_rights A)
                  else base AND NOT (nondirectory_rights A))
      in fds\<lparr>fs_rights_base := base, fs_rights_inheriting := inheriting\<rparr>)"

definition openat ::
  "cloudabi \<Rightarrow> 'w fd_class \<Rightarrow> (nat \<Rightarrow> u8) \<Rightarrow> fdref \<Rightarrow> bytes \<Rightarrow> nat \<Rightarrow> u32 \<Rightarrow> u16 \<Rightarrow> fdstat
   \<Rightarrow> (fdref option \<times> fdstat, 'w) fd_method" where
  "openat A C past rootdir path pathlen lookupflags oflags fds w = do {
     (r, w) \<leftarrow> traverse A C past rootdir path pathlen lookupflags oflags fds w;
     (case r of Inl e \<Rightarrow> Some (e, (None, fds), w) | Inr tr \<Rightarrow>
      if tr_lookup_errno tr \<noteq> ESUCCESS then Some (tr_lookup_errno tr, (None, fds), w)
      else if has oflags (FILE_CONST A O_DIRECTORY) \<and> st_filetype (tr_entry tr) \<noteq> FT_DIRECTORY
      then Some (ENOTDIR, (None, fds), w)
      else do {
       (e, new_fd, w) \<leftarrow> op_inode_open C (tr_directory tr) (st_dev (tr_entry tr)) (st_ino (tr_entry tr)) fds w;
       if e \<noteq> ESUCCESS then do { kassert (new_fd = None); Some (e, (None, fds), w) }
       else (case new_fd of None \<Rightarrow> None | Some f \<Rightarrow>
        if fd_type C f w = FT_DIRECTORY \<and> has (fs_rights_base fds) (RIGHT A RIGHT_FD_WRITE)
        then Some (EISDIR, (None, fds), w)
        else if has oflags (FILE_CONST A O_TRUNC) \<and> \<not> has (fs_rights_base fds) (RIGHT A RIGHT_FD_WRITE)
        then Some (EINVAL, (None, fds), w)
        else do {
         (e, _, w) \<leftarrow> (if has oflags (FILE_CONST A O_TRUNC)
                       then op_file_stat_fput C f (tr_entry tr\<lparr>st_size := 0\<rparr>) (FILE_CONST A FILESTAT_SIZE) w
                       else Some (ESUCCESS, (), w));
         if e \<noteq> ESUCCESS then Some (e, (None, fds), w)
         else Some (ESUCCESS, (Some f, drop_rights A (fd_type C f w) fds), w)
        })
      })
   }"

subsection \<open>Operations on paths\<close>

text \<open>
  The file name in a result of the traversal is a C string: the operations below pass on
  what lies before its first NUL. Where the code hands an uninitialised
  \<^verbatim>\<open>cloudabi_fdstat_t\<close> to the traversal, its contents are the argument \<open>fds\<close>.
\<close>

definition cstr :: "bytes \<Rightarrow> bytes" where
  "cstr name = takeWhile (\<lambda>c. c \<noteq> 0) name"

definition file_create ::
  "cloudabi \<Rightarrow> 'w fd_class \<Rightarrow> (nat \<Rightarrow> u8) \<Rightarrow> fdstat \<Rightarrow> fdref \<Rightarrow> bytes \<Rightarrow> nat \<Rightarrow> filetype \<Rightarrow> (u64, 'w) fd_method" where
  "file_create A C past fds directory path pathlen filetype w = do {
     (r, w) \<leftarrow> traverse A C past directory path pathlen 0 0 fds w;
     (case r of Inl e \<Rightarrow> Some (e, 0, w) | Inr tr \<Rightarrow>
      if tr_lookup_errno tr = ESUCCESS then Some (EEXIST, 0, w)
      else if tr_lookup_errno tr \<noteq> ENOENT then Some (tr_lookup_errno tr, 0, w)
      else op_file_create C (tr_directory tr) (cstr (tr_filename tr)) filetype w)
   }"

definition file_unlink ::
  "cloudabi \<Rightarrow> 'w fd_class \<Rightarrow> (nat \<Rightarrow> u8) \<Rightarrow> fdstat \<Rightarrow> fdref \<Rightarrow> bytes \<Rightarrow> nat \<Rightarrow> u8 \<Rightarrow> (unit, 'w) fd_method" where
  "file_unlink A C past fds directory path pathlen flags w = do {
     (r, w) \<leftarrow> traverse A C past directory path pathlen 0 0 fds w;
     (case r of Inl e \<Rightarrow> Some (e, (), w) | Inr tr \<Rightarrow>
      op_file_unlink C (tr_directory tr) (cstr (tr_filename tr)) flags w)
   }"

definition file_stat_get ::
  "cloudabi \<Rightarrow> 'w fd_class \<Rightarrow> (nat \<Rightarrow> u8) \<Rightarrow> fdref \<Rightarrow> bytes \<Rightarrow> nat \<Rightarrow> u32 \<Rightarrow> fdstat \<Rightarrow> (filestat option, 'w) fd_method" where
  "file_stat_get A C past directory path pathlen lookupflags fds w = do {
     (r, w) \<leftarrow> traverse A C past directory path pathlen lookupflags 0 fds w;
     (case r of Inl e \<Rightarrow> Some (e, None, w) | Inr tr \<Rightarrow>
      if tr_lookup_errno tr = ESUCCESS then Some (ESUCCESS, Some (tr_entry tr), w)
      else Some (tr_lookup_errno tr, None, w))
   }"

definition file_stat_put ::
  "cloudabi \<Rightarrow> 'w fd_class \<Rightarrow> (nat \<Rightarrow> u8) \<Rightarrow> fdref \<Rightarrow> bytes \<Rightarrow> nat \<Rightarrow> u32 \<Rightarrow> fdstat \<Rightarrow> filestat \<Rightarrow> u16 \<Rightarrow> (unit, 'w) fd_method" where
  "file_stat_put A C past directory path pathlen lookupflags fds entry flags w = do {
     (r, w) \<leftarrow> traverse A C past directory path pathlen lookupflags 0 fds w;
     (case r of Inl e \<Rightarrow> Some (e, (), w) | Inr tr \<Rightarrow>
      if tr_lookup_errno tr \<noteq> ESUCCESS then Some (tr_lookup_errno tr, (), w)
      else op_file_stat_put C (tr_directory tr) (cstr (tr_filename tr)) entry flags w)
   }"

definition file_readlink ::
  "cloudabi \<Rightarrow> 'w fd_class \<Rightarrow> (nat \<Rightarrow> u8) \<Rightarrow> fdstat \<Rightarrow> fdref \<Rightarrow> bytes \<Rightarrow> nat \<Rightarrow> u32 \<Rightarrow> (bytes, 'w) fd_method" where
  "file_readlink A C past fds directory path pathlen buflen w = do {
     (r, w) \<leftarrow> traverse A C past directory path pathlen 0 0 fds w;
     (case r of Inl e \<Rightarrow> Some (e, [], w) | Inr tr \<Rightarrow>
      if tr_lookup_errno tr \<noteq> ESUCCESS then Some (tr_lookup_errno tr, [], w)
      else if st_filetype (tr_entry tr) \<noteq> FT_SYMBOLIC_LINK then Some (EINVAL, [], w)
      else op_file_readlink C (tr_directory tr) (cstr (tr_filename tr)) buflen w)
   }"

definition file_symlink ::
  "cloudabi \<Rightarrow> 'w fd_class \<Rightarrow> (nat \<Rightarrow> u8) \<Rightarrow> fdstat \<Rightarrow> fdref \<Rightarrow> bytes \<Rightarrow> nat \<Rightarrow> bytes \<Rightarrow> (unit, 'w) fd_method" where
  "file_symlink A C past fds directory path pathlen target w = do {
     (r, w) \<leftarrow> traverse A C past directory path pathlen 0 0 fds w;
     (case r of Inl e \<Rightarrow> Some (e, (), w) | Inr tr \<Rightarrow>
      if tr_lookup_errno tr = ESUCCESS then Some (EEXIST, (), w)
      else if tr_lookup_errno tr \<noteq> ENOENT then Some (tr_lookup_errno tr, (), w)
      else op_file_symlink C (tr_directory tr) target (cstr (tr_filename tr)) w)
   }"

definition file_link ::
  "cloudabi \<Rightarrow> 'w fd_class \<Rightarrow> (nat \<Rightarrow> u8) \<Rightarrow> fdstat \<Rightarrow> fdstat \<Rightarrow> fdref \<Rightarrow> bytes \<Rightarrow> nat \<Rightarrow> u32 \<Rightarrow> fdref \<Rightarrow> bytes \<Rightarrow> nat
   \<Rightarrow> (unit, 'w) fd_method" where
  "file_link A C past fds1 fds2 sourcedir sourcepath sourcepathlen lookupflags destdir destination destlen w = do {
     (r, w) \<leftarrow> traverse A C past sourcedir sourcepath sourcepathlen lookupflags 0 fds1 w;
     (case r of Inl e \<Rightarrow> Some (e, (), w) | Inr tr1 \<Rightarrow>
      if tr_lookup_errno tr1 \<noteq> ESUCCESS then Some (tr_lookup_errno tr1, (), w)
      else if st_filetype (tr_entry tr1) = FT_DIRECTORY then Some (EPERM, (), w)
      else do {
       (r, w) \<leftarrow> traverse A C past destdir destination destlen 0 0 fds2 w;
       (case r of Inl e \<Rightarrow> Some (e, (), w) | Inr tr2 \<Rightarrow>
        if tr_lookup_errno tr2 = ESUCCESS then Some (EEXIST, (), w)
        else if tr_lookup_errno tr2 \<noteq> ENOENT then Some (tr_lookup_errno tr2, (), w)
        else op_file_link C (tr_directory tr1) (cstr (tr_filename tr1)) (tr_directory tr2) (cstr (tr_filename tr2)) w)
      })
   }"

definition file_rename ::
  "cloudabi \<Rightarrow> 'w fd_class \<Rightarrow> (nat \<Rightarrow> u8) \<Rightarrow> fdstat \<Rightarrow> fdstat \<Rightarrow> fdref \<Rightarrow> bytes \<Rightarrow> nat \<Rightarrow> fdref \<Rightarrow> bytes \<Rightarrow> nat
   \<Rightarrow> (unit, 'w) fd_method" where
  "file_rename A C past fds1 fds2 sourcedir sourcepath sourcepathlen destdir destination destlen w = do {
     (r, w) \<leftarrow> traverse A C past sourcedir sourcepath sourcepathlen 0 0 fds1 w;
     (case r of Inl e \<Rightarrow> Some (e, (), w) | Inr tr1 \<Rightarrow>
      if tr_lookup_errno tr1 \<noteq> ESUCCESS then Some (tr_lookup_errno tr1, (), w)
      else do {
       (r, w) \<leftarrow> traverse A C past destdir destination destlen 0 0 fds2 w;
       (case r of Inl e \<Rightarrow> Some (e, (), w) | Inr tr2 \<Rightarrow>
        if tr_lookup_errno tr2 \<noteq> ENOENT then Some (tr_lookup_errno tr2, (), w)
        else op_file_rename C (tr_directory tr1) (cstr (tr_filename tr1)) (tr_directory tr2) (cstr (tr_filename tr2)) w)
      })
   }"

subsection \<open>Confinement\<close>

text \<open>The rule for invariants of the loop.\<close>

lemma traverse_loop_invariant:
  assumes "traverse_loop A C past lf ofl fds entered path pathlen n w = Some (r, w')"
    and "I entered path pathlen n w"
    and "\<And>entered path pathlen n w entered' path' pathlen' n' w'.
      traverse_step A C past lf ofl fds entered path pathlen n w = Some (Again entered' path' pathlen' n' w') \<Longrightarrow>
      I entered path pathlen n w \<Longrightarrow> I entered' path' pathlen' n' w'"
    and "\<And>entered path pathlen n w.
      traverse_step A C past lf ofl fds entered path pathlen n w = Some (Leave r w') \<Longrightarrow>
      I entered path pathlen n w \<Longrightarrow> Q"
  shows Q
  using assms
proof (induction A C past lf ofl fds entered path pathlen n w rule: traverse_loop.induct)
  case (1 A C past lf ofl fds entered path pathlen n w)
  show ?case
  proof (cases "traverse_step A C past lf ofl fds entered path pathlen n w")
    case None
    with "1.prems"(1) show ?thesis by (subst (asm) traverse_loop.simps) simp
  next
    case (Some rd)
    show ?thesis
    proof (cases rd)
      case (Leave r' w'')
      with "1.prems"(1) Some have "r' = r" "w'' = w'"
        by (subst (asm) traverse_loop.simps, simp)+
      with "1.prems"(2,4) Some Leave show ?thesis by blast
    next
      case (Again entered' path' pathlen' n' w'')
      have "traverse_loop A C past lf ofl fds entered' path' pathlen' n' w'' = Some (r, w')"
        using "1.prems"(1) Some Again by (subst (asm) traverse_loop.simps) simp
      moreover have "I entered' path' pathlen' n' w''"
        using "1.prems"(2,3) Some Again by blast
      ultimately show ?thesis
        using "1.IH"[OF Some Again] "1.prems"(3,4) by blast
    qed
  qed
qed

text \<open>
  \<open>inside C fds root k d\<close>: the descriptor \<open>d\<close> was opened by \<open>k\<close> descents from \<open>root\<close>, each the opening of
  a directory found under a proper name, neither \<^verbatim>\<open>.\<close> nor \<^verbatim>\<open>..\<close> and without a slash.
\<close>

definition proper_name :: "bytes \<Rightarrow> bool" where
  "proper_name n \<longleftrightarrow> n \<noteq> [] \<and> length n \<le> NAME_MAX \<and> slash \<notin> set n"

inductive inside :: "'w fd_class \<Rightarrow> fdstat \<Rightarrow> fdref \<Rightarrow> nat \<Rightarrow> fdref \<Rightarrow> bool" for C fds root where
  inside_root: "inside C fds root 0 root"
| inside_open:
    "inside C fds root k d \<Longrightarrow> proper_name n \<Longrightarrow> n \<noteq> dot \<Longrightarrow> n \<noteq> dotdot \<Longrightarrow>
     op_lookup C d n 0 w = Some (ESUCCESS, st, w') \<Longrightarrow> st_filetype st = FT_DIRECTORY \<Longrightarrow>
     op_inode_open C d (st_dev st) (st_ino st) fds w' = Some (ESUCCESS, Some d', w'') \<Longrightarrow>
     inside C fds root (Suc k) d'"

fun trail :: "'w fd_class \<Rightarrow> fdstat \<Rightarrow> fdref \<Rightarrow> fdref list \<Rightarrow> bool" where
  "trail C fds root [] \<longleftrightarrow> True"
| "trail C fds root (d # ds) \<longleftrightarrow> inside C fds root (length ds) d \<and> trail C fds root ds"

lemma find_splitter_no_slash:
  "find_splitter path n i = Some s \<Longrightarrow> i \<le> j \<Longrightarrow> j < s \<Longrightarrow> j < length path \<and> path ! j \<noteq> slash"
proof (induction path n i rule: find_splitter.induct)
  case (1 path n i)
  from "1.prems" have i: "i < n" "i < length path" "path ! i \<noteq> slash" "find_splitter path n (i + 1) = Some s"
    by (subst (asm) find_splitter.simps,
        auto simp: bind_eq_Some_iff path_at_def split: if_splits)+
  show ?case
  proof (cases "j = i")
    case False
    with i "1.prems" show ?thesis by (intro "1.IH"[of "path ! i"]) (auto simp: path_at_def)
  qed (use i in auto)
qed

lemma component_proper:
  assumes "find_splitter path n 0 = Some s" "0 < s" "s \<le> NAME_MAX"
  shows "proper_name (take s path)" "s \<le> length path"
proof -
  have *: "j < s \<Longrightarrow> j < length path \<and> path ! j \<noteq> slash" for j
    using find_splitter_no_slash[OF assms(1), of j] by simp
  from *[of "s - 1"] assms(2) show "s \<le> length path" by auto
  with * assms show "proper_name (take s path)"
    by (auto simp: proper_name_def in_set_conv_nth)
qed

definition confined :: "'w fd_class \<Rightarrow> fdstat \<Rightarrow> fdref \<Rightarrow> traverse_result \<Rightarrow> bool" where
  "confined C fds root tr \<longleftrightarrow>
     proper_name (tr_filename tr) \<and>
     (\<exists>k. inside C fds root k (tr_directory tr) \<and> (tr_filename tr = dotdot \<longrightarrow> k > 0))"

lemma traverse_step_trail:
  assumes "traverse_step A C past lf ofl fds entered path pathlen n w = Some (Again entered' path' pathlen' n' w')"
    and "trail C fds root entered"
  shows "trail C fds root entered'"
  using assms(1)
proof (cases rule: traverse_step_cases)
  case (final d rest clen)
  then show ?thesis using traverse_final_Again(3)[OF final(7)] assms(2) by simp
next
  case (inner d rest clen s)
  then show ?thesis using assms(2) component_proper(1)[OF inner(3-5)]
    by (auto simp: traverse_inner_def traverse_round_simps split: if_splits
             intro: inside_open)
qed simp

lemma traverse_step_confined:
  assumes "traverse_step A C past lf ofl fds entered path pathlen n w = Some (Leave (Inr tr) w')"
    and "trail C fds root entered"
  shows "confined C fds root tr"
  using assms(1)
proof (cases rule: traverse_step_cases)
  case (final d rest clen)
  then show ?thesis using assms(2) component_proper(1)[OF final(3-5)]
    by (auto simp: traverse_final_def traverse_round_simps confined_def split: if_splits)
next
  case (inner d rest clen s)
  then show ?thesis using assms(2) component_proper(1)[OF inner(3-5)]
    by (auto simp: traverse_inner_def traverse_round_simps confined_def split: if_splits)
qed simp

lemma traverse_confined:
  assumes "traverse A C past root path pathlen lf ofl fds w = Some (Inr tr, w')"
  shows "confined C fds root tr"
proof -
  have "traverse_loop A C past lf ofl fds [root] path pathlen 0 w = Some (Inr tr, w')"
    using assms by (simp add: traverse_def split: if_splits)
  then show ?thesis
  proof (rule traverse_loop_invariant[where I = "\<lambda>entered _ _ _ _. trail C fds root entered"])
    show "trail C fds root [root]" by (simp add: inside_root)
  qed (auto intro: traverse_step_trail traverse_step_confined)
qed

lemma traverse_rounds_induct:
  assumes "\<And>entered path pathlen n w.
      (\<And>entered' path' pathlen' n' w'.
        traverse_step A C past lf ofl fds entered path pathlen n w = Some (Again entered' path' pathlen' n' w') \<Longrightarrow>
        P entered' path' pathlen' n' w') \<Longrightarrow> P entered path pathlen n w"
  shows "P entered path pathlen n w"
  using assms
proof (induction A C past lf ofl fds entered path pathlen n w rule: traverse_loop.induct)
  case (1 A C past lf ofl fds entered path pathlen n w)
  show ?case
  proof (rule "1.prems")
    fix entered' path' pathlen' n' w'
    assume "traverse_step A C past lf ofl fds entered path pathlen n w = Some (Again entered' path' pathlen' n' w')"
    then show "P entered' path' pathlen' n' w'" by (rule "1.IH") (simp, rule "1.prems")
  qed
qed

lemma skip_slashes_returns: "n < length path \<Longrightarrow> \<exists>s. skip_slashes path n i = Some s"
proof (induction path n i rule: skip_slashes.induct)
  case (1 path n i)
  then show ?case by (subst skip_slashes.simps) (auto simp: path_at_def)
qed

subsection \<open>What the kernel needs from a directory\<close>

text \<open>
  The contract of the directory methods under which the operations on paths return: each
  method comes back, keeps the invariant and the descriptors that are alive with their types;
  a link is no longer than asked for, and opening gives a descriptor exactly if it succeeds.
\<close>

locale directory_server =
  fixes C :: "'w fd_class"
    and inv :: "'w \<Rightarrow> bool"
    and live :: "'w \<Rightarrow> fdref \<Rightarrow> bool"
  assumes lookup_returns:
    "inv w \<Longrightarrow> live w d \<Longrightarrow> fd_type C d w = FT_DIRECTORY \<Longrightarrow> proper_name n \<Longrightarrow>
     \<exists>e st w'. op_lookup C d n fl w = Some (e, st, w') \<and> inv w' \<and>
       (\<forall>f. live w f \<longrightarrow> live w' f \<and> fd_type C f w' = fd_type C f w)"
    and readlink_returns:
    "inv w \<Longrightarrow> live w d \<Longrightarrow> fd_type C d w = FT_DIRECTORY \<Longrightarrow> proper_name n \<Longrightarrow>
     \<exists>e link w'. op_file_readlink C d n sz w = Some (e, link, w') \<and> inv w' \<and>
       (e = ESUCCESS \<longrightarrow> length link \<le> unat sz) \<and>
       (\<forall>f. live w f \<longrightarrow> live w' f \<and> fd_type C f w' = fd_type C f w)"
    and inode_open_returns:
    "inv w0 \<Longrightarrow> live w0 d \<Longrightarrow> fd_type C d w0 = FT_DIRECTORY \<Longrightarrow> proper_name n \<Longrightarrow>
     op_lookup C d n fl w0 = Some (ESUCCESS, st, w) \<Longrightarrow>
     \<exists>e r w'. op_inode_open C d (st_dev st) (st_ino st) fds w = Some (e, r, w') \<and> inv w' \<and>
       (e = ESUCCESS \<longleftrightarrow> r \<noteq> None) \<and> (\<forall>f. r = Some f \<longrightarrow> live w' f) \<and>
       (\<forall>f. live w f \<longrightarrow> live w' f \<and> fd_type C f w' = fd_type C f w)"
    and stat_fput_returns:
    "inv w \<Longrightarrow> live w f \<Longrightarrow>
     \<exists>e w'. op_file_stat_fput C f st fl w = Some (e, (), w') \<and> inv w' \<and>
       (\<forall>f. live w f \<longrightarrow> live w' f \<and> fd_type C f w' = fd_type C f w)"
begin

definition keeps :: "'w \<Rightarrow> 'w \<Rightarrow> bool" where
  "keeps w w' \<longleftrightarrow> inv w' \<and> (\<forall>f. live w f \<longrightarrow> live w' f \<and> fd_type C f w' = fd_type C f w)"

lemma keeps_trans: "keeps w w' \<Longrightarrow> keeps w' w'' \<Longrightarrow> keeps w w''"
  by (simp add: keeps_def)

text \<open>A directory is only asked to open what it has just found.\<close>

definition looked_up :: "fdref \<Rightarrow> filestat \<Rightarrow> 'w \<Rightarrow> bool" where
  "looked_up d st w \<longleftrightarrow> (\<exists>w0 n fl. inv w0 \<and> live w0 d \<and> fd_type C d w0 = FT_DIRECTORY \<and> proper_name n \<and>
     op_lookup C d n fl w0 = Some (ESUCCESS, st, w))"

lemma looked_up_opens:
  assumes "looked_up d st w"
  obtains e r w' where "op_inode_open C d (st_dev st) (st_ino st) fds w = Some (e, r, w')"
    "e = ESUCCESS \<longleftrightarrow> r \<noteq> None" "\<And>f. r = Some f \<Longrightarrow> live w' f" "keeps w w'"
proof -
  obtain w0 n fl where "inv w0" "live w0 d" "fd_type C d w0 = FT_DIRECTORY" "proper_name n"
    "op_lookup C d n fl w0 = Some (ESUCCESS, st, w)"
    using assms by (auto simp: looked_up_def)
  from inode_open_returns[OF this, of fds] that show thesis by (auto simp: keeps_def)
qed

text \<open>What holds of the local variables at the head of the loop.\<close>

definition loop_ok :: "'w \<Rightarrow> fdref list \<Rightarrow> bytes \<Rightarrow> nat \<Rightarrow> 'w \<Rightarrow> bool" where
  "loop_ok w0 entered path pathlen w \<longleftrightarrow>
     keeps w0 w \<and> entered \<noteq> [] \<and> (\<forall>d \<in> set entered. live w d) \<and> pathlen < length path"

definition leave_ok :: "'w \<Rightarrow> errno + traverse_result \<Rightarrow> 'w \<Rightarrow> bool" where
  "leave_ok w0 r w \<longleftrightarrow> keeps w0 w \<and>
     (case r of Inl e \<Rightarrow> e \<noteq> ESUCCESS
      | Inr tr \<Rightarrow> live w (tr_directory tr) \<and> fd_type C (tr_directory tr) w = FT_DIRECTORY \<and>
          (tr_lookup_errno tr = ESUCCESS \<longrightarrow> looked_up (tr_directory tr) (tr_entry tr) w))"

definition round_ok :: "'w \<Rightarrow> 'w traverse_round \<Rightarrow> bool" where
  "round_ok w0 rd \<longleftrightarrow>
     (case rd of Leave r w \<Rightarrow> leave_ok w0 r w
      | Again entered path pathlen n w \<Rightarrow> loop_ok w0 entered path pathlen w)"

lemma traverse_error_ok:
  "keeps w0 w \<Longrightarrow> e \<noteq> ESUCCESS \<Longrightarrow> \<exists>rd. traverse_error e w = Some rd \<and> round_ok w0 rd"
  by (simp add: traverse_error_def round_ok_def leave_ok_def)

lemma traverse_success_ok:
  "keeps w0 w \<Longrightarrow> live w d \<Longrightarrow> fd_type C d w = FT_DIRECTORY \<Longrightarrow> (e = ESUCCESS \<Longrightarrow> looked_up d st w) \<Longrightarrow>
   \<exists>rd. traverse_success d n e st w = Some rd \<and> round_ok w0 rd"
  by (simp add: traverse_success_def round_ok_def leave_ok_def)

lemma traverse_final_ok:
  assumes w: "keeps w0 w" "\<forall>d \<in> set (d # rest). live w d" "fd_type C d w = FT_DIRECTORY"
    and n: "proper_name (take clen path)"
  shows "\<exists>rd. traverse_final A C past lf ofl d rest path clen pathlen n w = Some rd \<and> round_ok w0 rd"
proof -
  let ?n = "take clen path"
  obtain e st w1 where l: "op_lookup C d ?n ofl w = Some (e, st, w1)" and k1: "keeps w w1"
    using lookup_returns[of w d ?n ofl] w n by (auto simp: keeps_def)
  have lu: "e = ESUCCESS \<Longrightarrow> looked_up d st w1"
    using l w n unfolding looked_up_def keeps_def by (metis list.set_intros(1))
  have w1: "keeps w0 w1" "live w1 d" "fd_type C d w1 = FT_DIRECTORY"
    using keeps_trans[OF w(1) k1] k1 w(2,3) by (auto simp: keeps_def)
  obtain e2 link w2 where rl: "op_file_readlink C d ?n (ucast (st_size st)) w1 = Some (e2, link, w2)"
    and len: "e2 = ESUCCESS \<Longrightarrow> length link \<le> unat (ucast (st_size st) :: u32)" and k2: "keeps w1 w2"
    using readlink_returns[of w1 d ?n "ucast (st_size st)"] w1 n by (auto simp: keeps_def)
  have w2: "keeps w0 w2" "\<forall>d \<in> set (d # rest). live w2 d"
    using keeps_trans[OF w1(1) k2] k1 k2 w(2) by (auto simp: keeps_def)
  show ?thesis
    using traverse_error_ok[OF w(1)] traverse_error_ok[OF w1(1)] traverse_error_ok[OF w2(1)]
      traverse_success_ok[OF w1, of e st] lu l rl len w2
    by (simp add: traverse_final_def Let_def round_ok_def loop_ok_def)
qed

lemma traverse_inner_ok:
  assumes w: "keeps w0 w" "\<forall>d \<in> set (d # rest). live w d" "fd_type C d w = FT_DIRECTORY"
    and n: "proper_name (take clen path)" and s: "s < pathlen" "pathlen < length path"
  shows "\<exists>rd. traverse_inner C past fds d rest path clen s pathlen n w = Some rd \<and> round_ok w0 rd"
proof -
  let ?n = "take clen path"
  obtain e st w1 where l: "op_lookup C d ?n 0 w = Some (e, st, w1)" and k1: "keeps w w1"
    using lookup_returns[of w d ?n 0] w n by (auto simp: keeps_def)
  have lu: "e = ESUCCESS \<Longrightarrow> looked_up d st w1"
    using l w n unfolding looked_up_def keeps_def by (metis list.set_intros(1))
  have w1: "keeps w0 w1" "live w1 d" "fd_type C d w1 = FT_DIRECTORY"
    using keeps_trans[OF w(1) k1] k1 w(2,3) by (auto simp: keeps_def)
  obtain e2 link w2 where rl: "op_file_readlink C d ?n (ucast (st_size st)) w1 = Some (e2, link, w2)"
    and len: "e2 = ESUCCESS \<Longrightarrow> length link \<le> unat (ucast (st_size st) :: u32)" and k2: "keeps w1 w2"
    using readlink_returns[of w1 d ?n "ucast (st_size st)"] w1 n by (auto simp: keeps_def)
  have w2: "keeps w0 w2" "\<forall>d \<in> set (d # rest). live w2 d"
    using keeps_trans[OF w1(1) k2] k1 k2 w(2) by (auto simp: keeps_def)
  have u: "unat (ucast (st_size st) :: u32) \<le> unat (st_size st)"
    by (simp add: unsigned_ucast_eq take_bit_nat_less_eq_self)
  have len': "e2 = ESUCCESS \<Longrightarrow> length link \<le> unat (st_size st)" using len u by simp
  have c: "clen \<noteq> 0" using n by (auto simp: proper_name_def)
  consider "?n = dot" | "?n \<noteq> dot" "?n = dotdot" | "?n \<noteq> dot" "?n \<noteq> dotdot" "e \<noteq> ESUCCESS"
    | "?n \<noteq> dot" "?n \<noteq> dotdot" "e = ESUCCESS" "st_filetype st = FT_SYMBOLIC_LINK"
    | "?n \<noteq> dot" "?n \<noteq> dotdot" "e = ESUCCESS" "st_filetype st \<noteq> FT_SYMBOLIC_LINK"
    by blast
  then show ?thesis
  proof cases
    case 1
    with w s show ?thesis by (simp add: traverse_inner_def round_ok_def loop_ok_def)
  next
    case 2
    with c w s traverse_error_ok[OF w(1)] show ?thesis
      by (cases "rest = []") (auto simp: traverse_inner_def round_ok_def loop_ok_def)
  next
    case 3
    with c l traverse_error_ok[OF w1(1)] show ?thesis by (simp add: traverse_inner_def)
  next
    case 4
    with c l rl len' w2 s traverse_error_ok[OF w1(1)] traverse_error_ok[OF w2(1)] show ?thesis
      by (simp add: traverse_inner_def round_ok_def loop_ok_def)
  next
    case 5
    obtain e3 nd w3 where op: "op_inode_open C d (st_dev st) (st_ino st) fds w1 = Some (e3, nd, w3)"
      and nd: "e3 = ESUCCESS \<longleftrightarrow> nd \<noteq> None" "\<And>f. nd = Some f \<Longrightarrow> live w3 f" and k3: "keeps w1 w3"
      using looked_up_opens[OF lu[OF 5(3)], of fds] by blast
    have w3: "keeps w0 w3" "\<forall>d \<in> set (d # rest). live w3 d"
      using keeps_trans[OF w1(1) k3] k1 k3 w(2) by (auto simp: keeps_def)
    from 5 have "traverse_inner C past fds d rest path clen s pathlen n w =
        (if st_filetype st \<noteq> FT_DIRECTORY then traverse_error ENOTDIR w1
         else if s + 1 = pathlen then traverse_success d ?n e st w1
         else if e3 \<noteq> ESUCCESS \<or> nd = None then traverse_error e3 w3
         else Some (Again (the nd # d # rest) (drop (s + 1) path) (pathlen - (s + 1)) n w3))"
      using c l op by (simp add: traverse_inner_def)
    moreover have "\<exists>rd. traverse_error e3 w3 = Some rd \<and> round_ok w0 rd" if "e3 \<noteq> ESUCCESS \<or> nd = None"
      using that nd(1) traverse_error_ok[OF w3(1)] by blast
    moreover have "round_ok w0 (Again (the nd # d # rest) (drop (s + 1) path) (pathlen - (s + 1)) n w3)"
      if "\<not> (e3 \<noteq> ESUCCESS \<or> nd = None)"
      using that nd(2) w3 s by (auto simp: round_ok_def loop_ok_def)
    ultimately show ?thesis
      using traverse_error_ok[OF w1(1), of ENOTDIR] traverse_success_ok[OF w1 lu, of e ?n] by simp
  qed
qed

lemma traverse_step_ok:
  assumes "loop_ok w0 entered path pathlen w"
  shows "\<exists>rd. traverse_step A C past lf ofl fds entered path pathlen n w = Some rd \<and> round_ok w0 rd"
proof -
  obtain d rest where e: "entered = d # rest" using assms by (cases entered) (auto simp: loop_ok_def)
  have w: "keeps w0 w" "\<forall>d \<in> set (d # rest). live w d" and p: "pathlen < length path"
    using assms by (auto simp: loop_ok_def e)
  let ?clen = "length (takeWhile (\<lambda>c. c \<noteq> slash) (take pathlen path))"
  have f: "find_splitter path pathlen 0 = Some ?clen"
    using find_splitter_correct[of pathlen path 0] p by simp
  obtain s where s: "skip_slashes path pathlen ?clen = Some s"
    using skip_slashes_returns[OF p] by blast
  have cp: "?clen \<le> pathlen" using length_takeWhile_le[of _ "take pathlen path"] p
    by (metis length_take min.absorb4 min.commute)
  then have sp: "s \<le> pathlen" using skip_slashes_le[OF s] by simp
  have "\<exists>rd. (if s = pathlen then traverse_final A C past lf ofl d rest path ?clen pathlen n w
           else traverse_inner C past fds d rest path ?clen s pathlen n w) = Some rd \<and> round_ok w0 rd"
    if "fd_type C d w = FT_DIRECTORY" "0 < ?clen" "\<not> NAME_MAX < ?clen"
  proof -
    have "proper_name (take ?clen path)" using component_proper(1)[OF f] that by simp
    then show ?thesis
      using traverse_final_ok[OF w that(1), of ?clen path] traverse_inner_ok[OF w that(1), of ?clen path s pathlen] sp p
      by simp
  qed
  moreover have "0 < ?clen" if "pathlen \<noteq> 0" "path ! 0 \<noteq> slash"
    using that p by (cases path; cases pathlen) auto
  ultimately show ?thesis
    using traverse_error_ok[OF w(1)] f s cp p
    by (simp add: traverse_step_def e path_at_def Let_def del: length_greater_0_conv)
qed

lemma traverse_loop_ok:
  assumes "loop_ok w0 entered path pathlen w"
  shows "\<exists>r w'. traverse_loop A C past lf ofl fds entered path pathlen n w = Some (r, w') \<and> leave_ok w0 r w'"
  using assms
proof (induction entered path pathlen n w rule: traverse_rounds_induct[of A C past lf ofl fds])
  case (1 entered path pathlen n w)
  obtain rd where rd: "traverse_step A C past lf ofl fds entered path pathlen n w = Some rd" "round_ok w0 rd"
    using traverse_step_ok[OF "1.prems"] by blast
  show ?case
  proof (cases rd)
    case (Leave r w')
    with rd show ?thesis by (subst traverse_loop.simps) (simp add: round_ok_def)
  next
    case (Again entered' path' pathlen' n' w')
    with rd "1.IH" show ?thesis by (subst traverse_loop.simps) (simp add: round_ok_def)
  qed
qed

lemma traverse_ok:
  assumes "inv w" "live w root" "pathlen < length path"
  shows "\<exists>r w'. traverse A C past root path pathlen lf ofl fds w = Some (r, w') \<and> leave_ok w r w'"
proof -
  have "loop_ok w [root] path pathlen w" "keeps w w"
    using assms by (simp_all add: loop_ok_def keeps_def)
  then show ?thesis
    using traverse_loop_ok[of w "[root]" path pathlen w] by (simp add: traverse_def leave_ok_def)
qed

lemma openat_ok:
  assumes "inv w" "live w root" "pathlen < length path"
  shows "\<exists>e r w'. openat A C past root path pathlen lf ofl fds w = Some (e, r, w') \<and> keeps w w' \<and>
           (e = ESUCCESS \<longleftrightarrow> fst r \<noteq> None) \<and> (\<forall>f. fst r = Some f \<longrightarrow> live w' f)"
proof -
  obtain r w1 where t: "traverse A C past root path pathlen lf ofl fds w = Some (r, w1)" "leave_ok w r w1"
    using traverse_ok[OF assms] by blast
  show ?thesis
  proof (cases r)
    case (Inl e)
    with t show ?thesis by (simp add: openat_def leave_ok_def)
  next
    case (Inr tr)
    with t have w1: "keeps w w1" "live w1 (tr_directory tr)" "fd_type C (tr_directory tr) w1 = FT_DIRECTORY"
      by (simp_all add: leave_ok_def)
    show ?thesis
    proof (cases "tr_lookup_errno tr = ESUCCESS")
      case False
      with t(1) Inr w1 show ?thesis by (simp add: openat_def)
    next
      case True
      with t Inr have lu: "looked_up (tr_directory tr) (tr_entry tr) w1" by (simp add: leave_ok_def)
      obtain e f w2 where o: "op_inode_open C (tr_directory tr) (st_dev (tr_entry tr)) (st_ino (tr_entry tr)) fds w1
          = Some (e, f, w2)" "e = ESUCCESS \<longleftrightarrow> f \<noteq> None" "\<And>g. f = Some g \<Longrightarrow> live w2 g" and k2: "keeps w1 w2"
        using looked_up_opens[OF lu, of fds] by blast
      have k: "keeps w w2" using keeps_trans[OF w1(1) k2] .
      show ?thesis
      proof (cases f)
        case None
        with t(1) Inr o k w1 show ?thesis by (simp add: openat_def)
      next
        case (Some g)
        obtain e3 w3 where p: "op_file_stat_fput C g (tr_entry tr\<lparr>st_size := 0\<rparr>) (FILE_CONST A FILESTAT_SIZE) w2
            = Some (e3, (), w3)" and k3: "keeps w2 w3"
          using stat_fput_returns[of w2 g "tr_entry tr\<lparr>st_size := 0\<rparr>" "FILE_CONST A FILESTAT_SIZE"] o(3) Some k
          by (auto simp: keeps_def)
        have "keeps w w3" "live w3 g" using keeps_trans[OF k k3] k3 o(3) Some by (auto simp: keeps_def)
        with t(1) Inr o k w1 Some p show ?thesis by (simp add: openat_def)
      qed
    qed
  qed
qed

end

subsection \<open>Opening never adds rights\<close>

lemma within_AND_left: "within a b \<Longrightarrow> within (a AND c) b"
  by (simp add: within_bits bit_and_iff)

lemma drop_rights_within:
  "within (fs_rights_base (drop_rights A t fds)) (fs_rights_base fds)"
  "within (fs_rights_inheriting (drop_rights A t fds)) (fs_rights_inheriting fds)"
  by (simp_all add: drop_rights_def Let_def within_AND_left)

lemma traverse_step_Inl:
  assumes "traverse_step A C past lf ofl fds entered path pathlen n w = Some (Leave (Inl e) w')"
  shows "e \<noteq> ESUCCESS"
  using assms
proof (cases rule: traverse_step_cases)
  case (final d rest clen)
  then show ?thesis by (auto simp: traverse_final_def traverse_round_simps split: if_splits)
next
  case (inner d rest clen s)
  then show ?thesis by (auto simp: traverse_inner_def traverse_round_simps split: if_splits)
qed simp

lemma traverse_Inl_error:
  assumes "traverse A C past root path pathlen lf ofl fds w = Some (Inl e, w')"
  shows "e \<noteq> ESUCCESS"
proof (cases "e = EINVAL")
  case False
  then have "traverse_loop A C past lf ofl fds [root] path pathlen 0 w = Some (Inl e, w')"
    using assms by (simp add: traverse_def split: if_splits)
  then show ?thesis
    by (rule traverse_loop_invariant[where I = "\<lambda>_ _ _ _ _. True"]) (auto dest: traverse_step_Inl)
qed simp

lemma openat_success:
  assumes "openat A C past root path pathlen lf ofl fds w = Some (ESUCCESS, r, w')"
  obtains f tr w1 w2 where "r = (Some f, drop_rights A (fd_type C f w') fds)"
    "traverse A C past root path pathlen lf ofl fds w = Some (Inr tr, w1)"
    "tr_lookup_errno tr = ESUCCESS"
    "op_inode_open C (tr_directory tr) (st_dev (tr_entry tr)) (st_ino (tr_entry tr)) fds w1 = Some (ESUCCESS, Some f, w2)"
    "\<not> (fd_type C f w2 = FT_DIRECTORY \<and> has (fs_rights_base fds) (RIGHT A RIGHT_FD_WRITE))"
    "\<not> has ofl (FILE_CONST A O_TRUNC) \<Longrightarrow> w2 = w'"
proof -
  obtain r1 w1 where r1: "traverse A C past root path pathlen lf ofl fds w = Some (r1, w1)"
    using assms by (auto simp: openat_def bind_eq_Some_iff)
  obtain tr where t: "traverse A C past root path pathlen lf ofl fds w = Some (Inr tr, w1)"
  proof (cases r1)
    case (Inl e)
    with assms r1 traverse_Inl_error[of A C past root path pathlen lf ofl fds w e w1] show ?thesis
      by (simp add: openat_def)
  qed (use r1 that in simp)
  have t0: "tr_lookup_errno tr = ESUCCESS"
    "\<not> (has ofl (FILE_CONST A O_DIRECTORY) \<and> st_filetype (tr_entry tr) \<noteq> FT_DIRECTORY)"
    using assms t by (auto simp: openat_def split: if_splits)
  obtain e nf w2 where o: "op_inode_open C (tr_directory tr) (st_dev (tr_entry tr)) (st_ino (tr_entry tr)) fds w1
     = Some (e, nf, w2)"
    using assms t t0 by (auto simp: openat_def bind_eq_Some_iff split: if_splits)
  have e: "e = ESUCCESS" using assms t t0 o by (simp add: openat_def split: if_splits)
  obtain f where f: "nf = Some f" using assms t t0 o e by (cases nf) (auto simp: openat_def split: if_splits)
  show thesis
    using assms t t0 o e f
    by (auto simp: openat_def bind_eq_Some_iff split: if_splits intro!: that)
qed

end
