(* ===== verification/File_Syscalls.thy ===== *)
theory File_Syscalls
  imports Fd_Table Vfs
begin

text \<open>
  The system calls on file descriptors and paths, \<^verbatim>\<open>proc/syscall/fd_syscalls.cpp\<close> and
  \<^verbatim>\<open>proc/syscall/file_syscalls.cpp\<close>. The state of a call is the descriptor table of the calling
  process and the world of descriptor objects. The arguments are what \<^verbatim>\<open>arguments_t\<close> takes from
  the stack, with the memory they point to already fetched: a path is a buffer and a length, a
  vector of buffers is the list of its lengths (reading) or contents (writing). A call gives
  the error number, the 64-bit \<^verbatim>\<open>c.result\<close>, what it stores for the caller, and the new state.
  Messages to the console are left out.
\<close>

record 'w proc =
  proc_fds :: fd_table
  proc_world :: 'w

text \<open>
  What the calls take from the rest of the kernel: the CloudABI values, the class table, the
  bytes behind heap blocks and the two kinds of objects that \<^verbatim>\<open>fd_create\<close> makes.
\<close>

record 'w kernel =
  k_abi :: cloudabi
  k_class :: "'w fd_class"
  k_past :: "nat \<Rightarrow> u8"
  k_junk :: fdstat
  k_get_shm :: "'w \<Rightarrow> (fdref \<times> 'w) option"
  k_socketpair :: "filetype \<Rightarrow> 'w \<Rightarrow> (fdref \<times> fdref \<times> 'w) option"

abbreviation krights :: "'w kernel \<Rightarrow> right \<Rightarrow> rights" where
  "krights K \<equiv> RIGHT (k_abi K)"

type_synonym ('a, 'w) syscall = "'w proc \<Rightarrow> (errno \<times> u64 \<times> 'a \<times> 'w proc) option"

definition all_rights :: rights where "all_rights = 0x0815ffff7ff"

text \<open>
  The pattern at the head of almost every call: look up the descriptor with the rights the
  call needs, and return the error if that fails.
\<close>

definition with_fd :: "u32 \<Rightarrow> rights \<Rightarrow> 'a \<Rightarrow> (fd_mapping \<Rightarrow> fdref \<Rightarrow> ('a, 'w) syscall) \<Rightarrow> ('a, 'w) syscall" where
  "with_fd num needed dflt body p =
     (case get_fd (proc_fds p) num needed of
        Inl e \<Rightarrow> Some (e, 0, dflt, p)
      | Inr m \<Rightarrow> body m (the (map_fd m)) p)"

text \<open>Calling a method of an object and returning its \<^verbatim>\<open>error\<close>.\<close>

definition call :: "('a, 'w) fd_method \<Rightarrow> ('a, 'w) syscall" where
  "call m p = do { (e, r, w) \<leftarrow> m (proc_world p); Some (e, 0, r, p\<lparr>proc_world := w\<rparr>) }"

subsection \<open>Calls on descriptors\<close>

definition syscall_fd_close :: "u32 \<Rightarrow> (unit, 'w) syscall" where
  "syscall_fd_close fdnum p =
     (let (e, fds) = close_fd (proc_fds p) fdnum in Some (e, 0, (), p\<lparr>proc_fds := fds\<rparr>))"

definition shm_rights :: "cloudabi \<Rightarrow> rights" where
  "shm_rights A = RIGHT A RIGHT_FD_READ OR RIGHT A RIGHT_FD_WRITE OR RIGHT A RIGHT_FILE_STAT_FGET
     OR RIGHT A RIGHT_FILE_STAT_FPUT_SIZE OR RIGHT A RIGHT_MEM_MAP OR RIGHT A RIGHT_MEM_MAP_EXEC"

definition syscall_fd_create1 :: "'w kernel \<Rightarrow> filetype \<Rightarrow> (unit, 'w) syscall" where
  "syscall_fd_create1 K type p =
     (if type = FT_SHARED_MEMORY then do {
        (shm, w) \<leftarrow> k_get_shm K (proc_world p);
        (n, fds) \<leftarrow> add_fd (proc_fds p) (Some shm) (shm_rights (k_abi K)) 0;
        Some (ESUCCESS, of_nat n, (), \<lparr>proc_fds = fds, proc_world = w\<rparr>)
      } else Some (EINVAL, 0, (), p))"

definition sock_rights :: "cloudabi \<Rightarrow> rights" where
  "sock_rights A = RIGHT A RIGHT_FD_READ OR RIGHT A RIGHT_FD_STAT_PUT_FLAGS OR RIGHT A RIGHT_FD_WRITE
     OR RIGHT A RIGHT_FILE_STAT_FGET OR RIGHT A RIGHT_POLL_FD_READWRITE OR RIGHT A RIGHT_SOCK_SHUTDOWN"

definition set_results :: "u32 \<Rightarrow> u32 \<Rightarrow> u64" where
  "set_results a b = push_bit 32 (ucast a) OR ucast b"

definition syscall_fd_create2 :: "'w kernel \<Rightarrow> filetype \<Rightarrow> (unit, 'w) syscall" where
  "syscall_fd_create2 K type p =
     (if type = FT_SOCKET_DGRAM \<or> type = FT_SOCKET_STREAM then do {
        (a, b, w) \<leftarrow> k_socketpair K type (proc_world p);
        (afd, fds) \<leftarrow> add_fd (proc_fds p) (Some a) (sock_rights (k_abi K)) all_rights;
        (bfd, fds) \<leftarrow> add_fd fds (Some b) (sock_rights (k_abi K)) all_rights;
        Some (ESUCCESS, set_results (of_nat afd) (of_nat bfd), (), \<lparr>proc_fds = fds, proc_world = w\<rparr>)
      } else Some (EINVAL, 0, (), p))"

definition syscall_fd_datasync :: "'w kernel \<Rightarrow> u32 \<Rightarrow> (unit, 'w) syscall" where
  "syscall_fd_datasync K fdnum =
     with_fd fdnum (krights K RIGHT_FD_DATASYNC) () (\<lambda>m f. call (op_datasync (k_class K) f))"

definition syscall_fd_dup :: "u32 \<Rightarrow> (unit, 'w) syscall" where
  "syscall_fd_dup fdnum =
     with_fd fdnum 0 () (\<lambda>m f p. do {
       (n, fds) \<leftarrow> add_fd (proc_fds p) (map_fd m) (rights_base m) (rights_inheriting m);
       Some (ESUCCESS, of_nat n, (), p\<lparr>proc_fds := fds\<rparr>)
     })"

text \<open>
  The loops of the reading calls stop after a buffer that received nothing; the result is the
  number of bytes. The buffers filled so far are part of the outcome even if a later read fails.
\<close>

fun pread_loop :: "'w fd_class \<Rightarrow> fdref \<Rightarrow> u32 list \<Rightarrow> u32 \<Rightarrow> u32 \<Rightarrow> 'w \<Rightarrow> (errno \<times> u32 \<times> bytes list \<times> 'w) option" where
  "pread_loop C f [] offset rd w = Some (ESUCCESS, rd, [], w)"
| "pread_loop C f (len # iov) offset rd w = do {
     (e, data, w) \<leftarrow> op_pread C f len (offset + rd) w;
     if e \<noteq> ESUCCESS then Some (e, rd, [data], w)
     else if data = [] then Some (ESUCCESS, rd, [data], w)
     else do {
       (e, rd, ds, w) \<leftarrow> pread_loop C f iov offset (rd + of_nat (length data)) w;
       Some (e, rd, data # ds, w)
     }
   }"

definition syscall_fd_pread :: "'w kernel \<Rightarrow> u32 \<Rightarrow> u32 list \<Rightarrow> u32 \<Rightarrow> (bytes list, 'w) syscall" where
  "syscall_fd_pread K fdnum iov offset =
     with_fd fdnum (krights K RIGHT_FD_READ OR krights K RIGHT_FD_SEEK) [] (\<lambda>m f p. do {
       (e, rd, ds, w) \<leftarrow> pread_loop (k_class K) f iov offset 0 (proc_world p);
       Some (e, if e = ESUCCESS then ucast rd else 0, ds, p\<lparr>proc_world := w\<rparr>)
     })"

fun pwrite_loop :: "'w fd_class \<Rightarrow> fdref \<Rightarrow> bytes list \<Rightarrow> u32 \<Rightarrow> u64 \<Rightarrow> 'w \<Rightarrow> (errno \<times> u64 \<times> 'w) option" where
  "pwrite_loop C f [] offset result w = Some (ESUCCESS, result, w)"
| "pwrite_loop C f (data # iov) offset result w = do {
     (e, _, w) \<leftarrow> op_pwrite C f data (ucast (ucast offset + result :: u64)) w;
     let result = result + of_nat (length data);
     if e \<noteq> ESUCCESS then Some (e, result, w) else pwrite_loop C f iov offset result w
   }"

definition syscall_fd_pwrite :: "'w kernel \<Rightarrow> u32 \<Rightarrow> bytes list \<Rightarrow> u32 \<Rightarrow> (unit, 'w) syscall" where
  "syscall_fd_pwrite K fdnum iov offset =
     with_fd fdnum (krights K RIGHT_FD_WRITE OR krights K RIGHT_FD_SEEK) () (\<lambda>m f p. do {
       (e, result, w) \<leftarrow> pwrite_loop (k_class K) f iov offset 0 (proc_world p);
       Some (e, result, (), p\<lparr>proc_world := w\<rparr>)
     })"

fun read_loop :: "'w fd_class \<Rightarrow> fdref \<Rightarrow> u32 list \<Rightarrow> u32 \<Rightarrow> 'w \<Rightarrow> (errno \<times> u32 \<times> bytes list \<times> 'w) option" where
  "read_loop C f [] rd w = Some (ESUCCESS, rd, [], w)"
| "read_loop C f (len # iov) rd w = do {
     (e, data, w) \<leftarrow> op_read C f len w;
     if e \<noteq> ESUCCESS then Some (e, rd, [data], w)
     else if data = [] then Some (ESUCCESS, rd, [data], w)
     else do {
       (e, rd, ds, w) \<leftarrow> read_loop C f iov (rd + of_nat (length data)) w;
       Some (e, rd, data # ds, w)
     }
   }"

definition syscall_fd_read :: "'w kernel \<Rightarrow> u32 \<Rightarrow> u32 list \<Rightarrow> (bytes list, 'w) syscall" where
  "syscall_fd_read K fdnum iov =
     with_fd fdnum (krights K RIGHT_FD_READ) [] (\<lambda>m f p. do {
       (e, rd, ds, w) \<leftarrow> read_loop (k_class K) f iov 0 (proc_world p);
       Some (e, if e = ESUCCESS then ucast rd else 0, ds, p\<lparr>proc_world := w\<rparr>)
     })"

definition syscall_fd_replace :: "u32 \<Rightarrow> u32 \<Rightarrow> (unit, 'w) syscall" where
  "syscall_fd_replace fromnum tonum =
     with_fd fromnum 0 () (\<lambda>m f p.
       if fromnum = tonum then Some (ESUCCESS, 0, (), p)
       else let (e, fds) = replace_fd (proc_fds p) tonum (map_fd m) (rights_base m) (rights_inheriting m)
            in Some (e, 0, (), p\<lparr>proc_fds := fds\<rparr>))"

definition syscall_fd_seek :: "'w kernel \<Rightarrow> u32 \<Rightarrow> u64 \<Rightarrow> whence \<Rightarrow> (unit, 'w) syscall" where
  "syscall_fd_seek K fdnum offset whence p =
     (if whence = WHENCE_OTHER then Some (EINVAL, 0, (), p)
      else with_fd fdnum
        (if whence \<noteq> WHENCE_CUR \<or> offset \<noteq> 0 then krights K RIGHT_FD_TELL OR krights K RIGHT_FD_SEEK
         else krights K RIGHT_FD_TELL) ()
        (\<lambda>m f p. do {
           (e, r, w) \<leftarrow> op_seek (k_class K) f offset whence (proc_world p);
           Some (e, r, (), p\<lparr>proc_world := w\<rparr>)
         }) p)"

definition syscall_fd_stat_get :: "'w kernel \<Rightarrow> u32 \<Rightarrow> (fdstat option, 'w) syscall" where
  "syscall_fd_stat_get K fdnum =
     with_fd fdnum 0 None (\<lambda>m f p.
       Some (ESUCCESS, 0,
         Some \<lparr>fs_filetype = fd_type (k_class K) f (proc_world p), fs_flags = fd_flags (k_class K) f (proc_world p),
               fs_rights_base = rights_base m, fs_rights_inheriting = rights_inheriting m\<rparr>, p))"

definition syscall_fd_stat_put :: "'w kernel \<Rightarrow> u32 \<Rightarrow> fdstat \<Rightarrow> u16 \<Rightarrow> (unit, 'w) syscall" where
  "syscall_fd_stat_put K fdnum stat flags p =
     (let c = FILE_CONST (k_abi K) in
      if flags AND NOT (c FDSTAT_FLAGS OR c FDSTAT_RIGHTS) \<noteq> 0 then Some (EINVAL, 0, (), p)
      else with_fd fdnum (if has flags (c FDSTAT_FLAGS) then krights K RIGHT_FD_STAT_PUT_FLAGS else 0) ()
        (\<lambda>m f p.
          let p = (if has flags (c FDSTAT_FLAGS)
                   then p\<lparr>proc_world := fd_set_flags (k_class K) f (fs_flags stat) (proc_world p)\<rparr> else p);
              p = (if has flags (c FDSTAT_RIGHTS)
                   then p\<lparr>proc_fds := (proc_fds p)[unat fdnum :=
                          Some (m\<lparr>rights_base := rights_base m AND fs_rights_base stat,
                                  rights_inheriting := rights_inheriting m AND fs_rights_inheriting stat\<rparr>)]\<rparr>
                   else p)
          in Some (ESUCCESS, 0, (), p)) p)"

definition syscall_fd_sync :: "'w kernel \<Rightarrow> u32 \<Rightarrow> (unit, 'w) syscall" where
  "syscall_fd_sync K fdnum =
     with_fd fdnum (krights K RIGHT_FD_SYNC) () (\<lambda>m f. call (op_sync (k_class K) f))"

fun write_loop :: "'w fd_class \<Rightarrow> fdref \<Rightarrow> bytes list \<Rightarrow> u64 \<Rightarrow> 'w \<Rightarrow> (errno \<times> u64 \<times> 'w) option" where
  "write_loop C f [] result w = Some (ESUCCESS, result, w)"
| "write_loop C f (data # iov) result w = do {
     (e, _, w) \<leftarrow> op_write C f data w;
     let result = result + of_nat (length data);
     if e \<noteq> ESUCCESS then Some (e, result, w) else write_loop C f iov result w
   }"

definition syscall_fd_write :: "'w kernel \<Rightarrow> u32 \<Rightarrow> bytes list \<Rightarrow> (unit, 'w) syscall" where
  "syscall_fd_write K fdnum iov =
     with_fd fdnum (krights K RIGHT_FD_WRITE) () (\<lambda>m f p. do {
       (e, result, w) \<leftarrow> write_loop (k_class K) f iov 0 (proc_world p);
       Some (e, result, (), p\<lparr>proc_world := w\<rparr>)
     })"

subsection \<open>Calls on files and paths\<close>

text \<open>The smallest and the largest advice are arguments of \<open>syscall_file_advise\<close>.\<close>

definition syscall_file_advise :: "'w kernel \<Rightarrow> u8 \<Rightarrow> u8 \<Rightarrow> u32 \<Rightarrow> u8 \<Rightarrow> (unit, 'w) syscall" where
  "syscall_file_advise K ADVICE_DONTNEED ADVICE_WILLNEED fdnum advice p =
     (if advice < ADVICE_DONTNEED \<or> advice > ADVICE_WILLNEED then Some (EINVAL, 0, (), p)
      else with_fd fdnum (krights K RIGHT_FILE_ADVISE) () (\<lambda>m f p. Some (ESUCCESS, 0, (), p)) p)"

definition syscall_file_allocate :: "'w kernel \<Rightarrow> u32 \<Rightarrow> u64 \<Rightarrow> u64 \<Rightarrow> (unit, 'w) syscall" where
  "syscall_file_allocate K fdnum offset len =
     with_fd fdnum (krights K RIGHT_FILE_ALLOCATE) () (\<lambda>m f. call (op_file_allocate (k_class K) f offset len))"

definition syscall_file_create :: "'w kernel \<Rightarrow> u32 \<Rightarrow> bytes \<Rightarrow> nat \<Rightarrow> filetype \<Rightarrow> (unit, 'w) syscall" where
  "syscall_file_create K fdnum path pathlen type p =
     (if type \<noteq> FT_DIRECTORY then Some (EINVAL, 0, (), p)
      else with_fd fdnum (krights K RIGHT_FILE_CREATE_DIRECTORY) () (\<lambda>m f p. do {
        (e, _, w) \<leftarrow> file_create (k_abi K) (k_class K) (k_past K) (k_junk K) f path pathlen type (proc_world p);
        Some (e, 0, (), p\<lparr>proc_world := w\<rparr>)
      }) p)"

definition syscall_file_link ::
  "'w kernel \<Rightarrow> u32 \<Rightarrow> u32 \<Rightarrow> bytes \<Rightarrow> nat \<Rightarrow> u32 \<Rightarrow> bytes \<Rightarrow> nat \<Rightarrow> (unit, 'w) syscall" where
  "syscall_file_link K fd1 lookupflags source sourcelen fd2 destination destinationlen =
     with_fd fd1 (krights K RIGHT_FILE_LINK_SOURCE) () (\<lambda>m1 f1.
     with_fd fd2 (krights K RIGHT_FILE_LINK_TARGET) () (\<lambda>m2 f2.
       call (file_link (k_abi K) (k_class K) (k_past K) (k_junk K) (k_junk K) f1 source sourcelen lookupflags
               f2 destination destinationlen)))"

definition syscall_file_open ::
  "'w kernel \<Rightarrow> u32 \<Rightarrow> u32 \<Rightarrow> bytes \<Rightarrow> nat \<Rightarrow> u16 \<Rightarrow> fdstat \<Rightarrow> (unit, 'w) syscall" where
  "syscall_file_open K fdnum lookupflags path pathlen oflags fds =
     with_fd fdnum (krights K RIGHT_FILE_OPEN) () (\<lambda>m f p.
       if rights_inheriting m AND fs_rights_base fds \<noteq> fs_rights_base fds
        \<or> rights_inheriting m AND fs_rights_inheriting fds \<noteq> fs_rights_inheriting fds
       then Some (ENOTCAPABLE, 0, (), p)
       else do {
         (e, (r, fds), w) \<leftarrow> openat (k_abi K) (k_class K) (k_past K) f path pathlen lookupflags oflags fds (proc_world p);
         if e \<noteq> ESUCCESS then Some (e, 0, (), p\<lparr>proc_world := w\<rparr>)
         else do {
           (n, t) \<leftarrow> add_fd (proc_fds p) r (fs_rights_base fds) (fs_rights_inheriting fds);
           Some (ESUCCESS, of_nat n, (), \<lparr>proc_fds = t, proc_world = w\<rparr>)
         }
       })"

definition syscall_file_readdir :: "'w kernel \<Rightarrow> u32 \<Rightarrow> u32 \<Rightarrow> u64 \<Rightarrow> (bytes, 'w) syscall" where
  "syscall_file_readdir K fdnum len cookie =
     with_fd fdnum (krights K RIGHT_FILE_READDIR) [] (\<lambda>m f p. do {
       (e, data, w) \<leftarrow> op_readdir (k_class K) f len cookie (proc_world p);
       Some (e, of_nat (length data), data, p\<lparr>proc_world := w\<rparr>)
     })"

definition syscall_file_readlink :: "'w kernel \<Rightarrow> u32 \<Rightarrow> bytes \<Rightarrow> nat \<Rightarrow> u32 \<Rightarrow> (bytes, 'w) syscall" where
  "syscall_file_readlink K fdnum path path_len buf_len =
     with_fd fdnum (krights K RIGHT_FILE_READLINK) [] (\<lambda>m f p. do {
       (e, data, w) \<leftarrow> file_readlink (k_abi K) (k_class K) (k_past K) (k_junk K) f path path_len buf_len (proc_world p);
       Some (e, if e = ESUCCESS then of_nat (length data) else 0, data, p\<lparr>proc_world := w\<rparr>)
     })"

definition syscall_file_rename :: "'w kernel \<Rightarrow> u32 \<Rightarrow> bytes \<Rightarrow> nat \<Rightarrow> u32 \<Rightarrow> bytes \<Rightarrow> nat \<Rightarrow> (unit, 'w) syscall" where
  "syscall_file_rename K fd1 source sourcelen fd2 destination destinationlen =
     with_fd fd1 (krights K RIGHT_FILE_RENAME_SOURCE) () (\<lambda>m1 f1.
     with_fd fd2 (krights K RIGHT_FILE_RENAME_TARGET) () (\<lambda>m2 f2.
       call (file_rename (k_abi K) (k_class K) (k_past K) (k_junk K) (k_junk K) f1 source sourcelen
               f2 destination destinationlen)))"

definition syscall_file_stat_fget :: "'w kernel \<Rightarrow> u32 \<Rightarrow> (filestat option, 'w) syscall" where
  "syscall_file_stat_fget K fdnum =
     with_fd fdnum (krights K RIGHT_FILE_STAT_FGET) None (\<lambda>m f p. do {
       (e, st, w) \<leftarrow> op_file_stat_fget (k_class K) f (proc_world p);
       kassert (e = ESUCCESS \<longrightarrow> st_dev st = fd_device (k_class K) f w);
       Some (e, 0, Some st, p\<lparr>proc_world := w\<rparr>)
     })"

text \<open>The flags that the two calls to set attributes accept, and the rights these need.\<close>

definition stat_put_flags :: "file_consts \<Rightarrow> u16 \<Rightarrow> u16" where
  "stat_put_flags c flags =
     (let times = c FILESTAT_ATIM OR c FILESTAT_ATIM_NOW OR c FILESTAT_MTIM OR c FILESTAT_MTIM_NOW;
          counted = (if has flags (c FILESTAT_ATIM) \<or> has flags (c FILESTAT_ATIM_NOW)
                        \<or> has flags (c FILESTAT_MTIM) \<or> has flags (c FILESTAT_MTIM_NOW)
                     then flags AND times else 0)
      in if has flags (c FILESTAT_SIZE) then counted OR c FILESTAT_SIZE else counted)"

definition stat_put_rights :: "cloudabi \<Rightarrow> u16 \<Rightarrow> rights" where
  "stat_put_rights A flags =
     (let c = FILE_CONST A;
          needed = (if has flags (c FILESTAT_ATIM) \<or> has flags (c FILESTAT_ATIM_NOW)
                       \<or> has flags (c FILESTAT_MTIM) \<or> has flags (c FILESTAT_MTIM_NOW)
                    then RIGHT A RIGHT_FILE_STAT_FPUT_TIMES else 0)
      in if has flags (c FILESTAT_SIZE) then needed OR RIGHT A RIGHT_FILE_STAT_FPUT_SIZE else needed)"

definition syscall_file_stat_fput :: "'w kernel \<Rightarrow> u32 \<Rightarrow> filestat \<Rightarrow> u16 \<Rightarrow> (unit, 'w) syscall" where
  "syscall_file_stat_fput K fdnum statbuf flags p =
     (if flags \<noteq> stat_put_flags (FILE_CONST (k_abi K)) flags then Some (EINVAL, 0, (), p)
      else with_fd fdnum (stat_put_rights (k_abi K) flags) ()
             (\<lambda>m f. call (op_file_stat_fput (k_class K) f statbuf flags)) p)"

definition syscall_file_stat_get :: "'w kernel \<Rightarrow> u32 \<Rightarrow> u32 \<Rightarrow> bytes \<Rightarrow> nat \<Rightarrow> (filestat option, 'w) syscall" where
  "syscall_file_stat_get K fdnum lookupflags path pathlen =
     with_fd fdnum (krights K RIGHT_FILE_STAT_GET) None (\<lambda>m f.
       call (file_stat_get (k_abi K) (k_class K) (k_past K) f path pathlen lookupflags (k_junk K)))"

definition syscall_file_stat_put ::
  "'w kernel \<Rightarrow> u32 \<Rightarrow> u32 \<Rightarrow> bytes \<Rightarrow> nat \<Rightarrow> filestat \<Rightarrow> u16 \<Rightarrow> (unit, 'w) syscall" where
  "syscall_file_stat_put K fdnum lookupflags path pathlen statbuf flags p =
     (if flags \<noteq> stat_put_flags (FILE_CONST (k_abi K)) flags then Some (EINVAL, 0, (), p)
      else with_fd fdnum (stat_put_rights (k_abi K) flags) ()
             (\<lambda>m f. call (file_stat_put (k_abi K) (k_class K) (k_past K) f path pathlen lookupflags (k_junk K) statbuf flags)) p)"

definition syscall_file_symlink :: "'w kernel \<Rightarrow> bytes \<Rightarrow> u32 \<Rightarrow> bytes \<Rightarrow> nat \<Rightarrow> (unit, 'w) syscall" where
  "syscall_file_symlink K target fdnum path pathlen =
     with_fd fdnum (krights K RIGHT_FILE_SYMLINK) () (\<lambda>m f.
       call (file_symlink (k_abi K) (k_class K) (k_past K) (k_junk K) f path pathlen target))"

definition syscall_file_unlink :: "'w kernel \<Rightarrow> u32 \<Rightarrow> bytes \<Rightarrow> nat \<Rightarrow> u8 \<Rightarrow> (unit, 'w) syscall" where
  "syscall_file_unlink K fdnum path pathlen flags =
     with_fd fdnum (krights K RIGHT_FILE_UNLINK) () (\<lambda>m f.
       call (file_unlink (k_abi K) (k_class K) (k_past K) (k_junk K) f path pathlen flags))"

subsection \<open>Capability safety\<close>

text \<open>
  One step of a process is one of the calls, with any arguments; a run is a sequence of steps.
\<close>

inductive fd_step :: "'w kernel \<Rightarrow> 'w proc \<Rightarrow> 'w proc \<Rightarrow> bool" for K where
  step_fd_close: "syscall_fd_close n p = Some (e, res, out, q) \<Longrightarrow> fd_step K p q"
| step_fd_create1: "syscall_fd_create1 K t p = Some (e, res, out, q) \<Longrightarrow> fd_step K p q"
| step_fd_create2: "syscall_fd_create2 K t p = Some (e, res, out, q) \<Longrightarrow> fd_step K p q"
| step_fd_datasync: "syscall_fd_datasync K n p = Some (e, res, out, q) \<Longrightarrow> fd_step K p q"
| step_fd_dup: "syscall_fd_dup n p = Some (e, res, out, q) \<Longrightarrow> fd_step K p q"
| step_fd_pread: "syscall_fd_pread K n iov off p = Some (e, res, out, q) \<Longrightarrow> fd_step K p q"
| step_fd_pwrite: "syscall_fd_pwrite K n iov off p = Some (e, res, out, q) \<Longrightarrow> fd_step K p q"
| step_fd_read: "syscall_fd_read K n iov p = Some (e, res, out, q) \<Longrightarrow> fd_step K p q"
| step_fd_replace: "syscall_fd_replace n m p = Some (e, res, out, q) \<Longrightarrow> fd_step K p q"
| step_fd_seek: "syscall_fd_seek K n off wh p = Some (e, res, out, q) \<Longrightarrow> fd_step K p q"
| step_fd_stat_get: "syscall_fd_stat_get K n p = Some (e, res, out, q) \<Longrightarrow> fd_step K p q"
| step_fd_stat_put: "syscall_fd_stat_put K n st fl p = Some (e, res, out, q) \<Longrightarrow> fd_step K p q"
| step_fd_sync: "syscall_fd_sync K n p = Some (e, res, out, q) \<Longrightarrow> fd_step K p q"
| step_fd_write: "syscall_fd_write K n iov p = Some (e, res, out, q) \<Longrightarrow> fd_step K p q"
| step_file_advise: "syscall_file_advise K lo hi n adv p = Some (e, res, out, q) \<Longrightarrow> fd_step K p q"
| step_file_allocate: "syscall_file_allocate K n off len p = Some (e, res, out, q) \<Longrightarrow> fd_step K p q"
| step_file_create: "syscall_file_create K n path len t p = Some (e, res, out, q) \<Longrightarrow> fd_step K p q"
| step_file_link: "syscall_file_link K n lf src slen m dst dlen p = Some (e, res, out, q) \<Longrightarrow> fd_step K p q"
| step_file_open: "syscall_file_open K n lf path len ofl st p = Some (e, res, out, q) \<Longrightarrow> fd_step K p q"
| step_file_readdir: "syscall_file_readdir K n len c p = Some (e, res, out, q) \<Longrightarrow> fd_step K p q"
| step_file_readlink: "syscall_file_readlink K n path len blen p = Some (e, res, out, q) \<Longrightarrow> fd_step K p q"
| step_file_rename: "syscall_file_rename K n src slen m dst dlen p = Some (e, res, out, q) \<Longrightarrow> fd_step K p q"
| step_file_stat_fget: "syscall_file_stat_fget K n p = Some (e, res, out, q) \<Longrightarrow> fd_step K p q"
| step_file_stat_fput: "syscall_file_stat_fput K n st fl p = Some (e, res, out, q) \<Longrightarrow> fd_step K p q"
| step_file_stat_get: "syscall_file_stat_get K n lf path len p = Some (e, res, out, q) \<Longrightarrow> fd_step K p q"
| step_file_stat_put: "syscall_file_stat_put K n lf path len st fl p = Some (e, res, out, q) \<Longrightarrow> fd_step K p q"
| step_file_symlink: "syscall_file_symlink K tgt n path len p = Some (e, res, out, q) \<Longrightarrow> fd_step K p q"
| step_file_unlink: "syscall_file_unlink K n path len fl p = Some (e, res, out, q) \<Longrightarrow> fd_step K p q"

inductive fd_run :: "'w kernel \<Rightarrow> 'w proc \<Rightarrow> 'w proc \<Rightarrow> bool" for K where
  run_none: "fd_run K p p"
| run_step: "fd_run K p q \<Longrightarrow> fd_step K q r \<Longrightarrow> fd_run K p r"

text \<open>
  The capabilities of a process, and the capabilities derivable from a set of them: the same
  ones, weaker ones, what \<^verbatim>\<open>openat\<close> gives below a directory within its inheriting rights, and the
  objects that \<^verbatim>\<open>fd_create\<close> makes.
\<close>

definition caps :: "fd_table \<Rightarrow> (fdref \<times> rights \<times> rights) set" where
  "caps t = {(f, rights_base m, rights_inheriting m) | n m f. table_map t n = Some m \<and> map_fd m = Some f}"

inductive derivable ::
  "'w kernel \<Rightarrow> (fdref \<times> rights \<times> rights) set \<Rightarrow> fdref \<times> rights \<times> rights \<Rightarrow> bool" for K S where
  held: "c \<in> S \<Longrightarrow> derivable K S c"
| weaker: "derivable K S (f, b, i) \<Longrightarrow> within b' b \<Longrightarrow> within i' i \<Longrightarrow> derivable K S (f, b', i')"
| opened: "derivable K S (d, b, i) \<Longrightarrow> within (krights K RIGHT_FILE_OPEN) b \<Longrightarrow>
    within (fs_rights_base fds) i \<Longrightarrow> within (fs_rights_inheriting fds) i \<Longrightarrow>
    openat (k_abi K) (k_class K) (k_past K) d path pathlen lf ofl fds w = Some (ESUCCESS, (Some f, fds'), w') \<Longrightarrow>
    derivable K S (f, fs_rights_base fds', fs_rights_inheriting fds')"
| new_shm: "k_get_shm K w = Some (f, w') \<Longrightarrow> derivable K S (f, shm_rights (k_abi K), 0)"
| new_socket1: "k_socketpair K t w = Some (f, g, w') \<Longrightarrow> derivable K S (f, sock_rights (k_abi K), all_rights)"
| new_socket2: "k_socketpair K t w = Some (g, f, w') \<Longrightarrow> derivable K S (f, sock_rights (k_abi K), all_rights)"

definition safe :: "'w kernel \<Rightarrow> (fdref \<times> rights \<times> rights) set \<Rightarrow> fd_table \<Rightarrow> bool" where
  "safe K S t \<longleftrightarrow> table_wf t \<and> (\<forall>c \<in> caps t. derivable K S c)"

lemma safe_self: "table_wf t \<Longrightarrow> safe K (caps t) t"
  by (simp add: safe_def held)

lemma safe_alt:
  "safe K S t \<longleftrightarrow> (\<forall>n m. table_map t n = Some m \<longrightarrow>
     (\<exists>f. map_fd m = Some f \<and> derivable K S (f, rights_base m, rights_inheriting m)))"
  by (fastforce simp: safe_def table_wf_def caps_def)

lemma safe_upd:
  assumes "safe K S t" "table_map t' = (table_map t)(n := m)"
    and "\<And>x. m = Some x \<Longrightarrow> \<exists>f. map_fd x = Some f \<and> derivable K S (f, rights_base x, rights_inheriting x)"
  shows "safe K S t'"
  using assms unfolding safe_alt by (auto split: if_splits)

lemma safe_add_fd:
  assumes "safe K S t" "add_fd t (Some f) b i = Some (n, t')" "derivable K S (f, b, i)"
  shows "safe K S t'"
proof -
  have "table_map t' = (table_map t)(n \<mapsto> \<lparr>map_fd = Some f, rights_base = b, rights_inheriting = i\<rparr>)"
    using add_fd_correct[of t f b i] assms(2) by auto
  with assms(1,3) show ?thesis by (intro safe_upd[OF assms(1)]) auto
qed

lemma safe_get_fd:
  assumes "safe K S t" "get_fd t n r = Inr m"
  obtains f where "map_fd m = Some f" "derivable K S (f, rights_base m, rights_inheriting m)" "within r (rights_base m)"
  using assms get_fd_InrD[OF assms(2)] by (auto simp: safe_alt)

text \<open>Most calls leave the table alone.\<close>

definition keeps_table :: "('a, 'w) syscall \<Rightarrow> bool" where
  "keeps_table sc \<longleftrightarrow> (\<forall>p e res a q. sc p = Some (e, res, a, q) \<longrightarrow> proc_fds q = proc_fds p)"

lemma keeps_table_with_fd [intro!]:
  "(\<And>m f. keeps_table (body m f)) \<Longrightarrow> keeps_table (with_fd n r d body)"
  by (fastforce simp: keeps_table_def with_fd_def split: sum.splits)

lemma keeps_table_call [intro!]: "keeps_table (call m)"
  by (auto simp: keeps_table_def call_def bind_eq_Some_iff)

lemma keeps_table_if [intro!]:
  "keeps_table sc \<Longrightarrow> keeps_table (\<lambda>p. if b then Some (e, r, a, p) else sc p)"
  by (auto simp: keeps_table_def)

lemmas table_kept_defs =
  syscall_fd_datasync_def syscall_fd_pread_def syscall_fd_pwrite_def syscall_fd_read_def
  syscall_fd_seek_def syscall_fd_stat_get_def syscall_fd_sync_def syscall_fd_write_def
  syscall_file_advise_def syscall_file_allocate_def syscall_file_create_def syscall_file_link_def
  syscall_file_readdir_def syscall_file_readlink_def syscall_file_rename_def
  syscall_file_stat_fget_def syscall_file_stat_fput_def syscall_file_stat_get_def
  syscall_file_stat_put_def syscall_file_symlink_def syscall_file_unlink_def

lemma keeps_table_seek: "keeps_table (syscall_fd_seek K n off wh)"
proof -
  have "keeps_table (\<lambda>p. if wh = WHENCE_OTHER then Some (EINVAL, 0, (), p) else with_fd n
        (if wh \<noteq> WHENCE_CUR \<or> off \<noteq> 0 then krights K RIGHT_FD_TELL OR krights K RIGHT_FD_SEEK
         else krights K RIGHT_FD_TELL) ()
        (\<lambda>m f p. do { (e, r, w) \<leftarrow> op_seek (k_class K) f off wh (proc_world p);
                      Some (e, r, (), p\<lparr>proc_world := w\<rparr>) }) p)"
    by (intro keeps_table_if keeps_table_with_fd) (auto simp: keeps_table_def bind_eq_Some_iff)
  then show ?thesis by (simp add: syscall_fd_seek_def[abs_def])
qed

lemma table_kept:
  "keeps_table (syscall_fd_datasync K n)"
  "keeps_table (syscall_fd_pread K n iov off)"
  "keeps_table (syscall_fd_pwrite K n ciov off)"
  "keeps_table (syscall_fd_read K n iov)"
  "keeps_table (syscall_fd_stat_get K n)"
  "keeps_table (syscall_fd_sync K n)"
  "keeps_table (syscall_fd_write K n ciov)"
  "keeps_table (syscall_file_advise K lo hi n adv)"
  "keeps_table (syscall_file_allocate K n aoff len)"
  "keeps_table (syscall_file_create K n path plen t)"
  "keeps_table (syscall_file_link K n lf src slen m dst dlen)"
  "keeps_table (syscall_file_readdir K n blen c)"
  "keeps_table (syscall_file_readlink K n path plen blen)"
  "keeps_table (syscall_file_rename K n src slen m dst dlen)"
  "keeps_table (syscall_file_stat_fget K n)"
  "keeps_table (syscall_file_stat_fput K n st fl)"
  "keeps_table (syscall_file_stat_get K n lf path plen)"
  "keeps_table (syscall_file_stat_put K n lf path plen st fl)"
  "keeps_table (syscall_file_symlink K tgt n path plen)"
  "keeps_table (syscall_file_unlink K n path plen ufl)"
  unfolding table_kept_defs[abs_def]
  by ((intro keeps_table_if keeps_table_with_fd keeps_table_call)?;
      (auto simp: keeps_table_def bind_eq_Some_iff; fail)?)+

lemma with_fd_safe:
  assumes "with_fd n r d body p = Some (e, res, a, q)" "safe K S (proc_fds p)"
    and "\<And>m f. get_fd (proc_fds p) n r = Inr m \<Longrightarrow> map_fd m = Some f \<Longrightarrow>
      derivable K S (f, rights_base m, rights_inheriting m) \<Longrightarrow> within r (rights_base m) \<Longrightarrow>
      body m f p = Some (e, res, a, q) \<Longrightarrow> safe K S (proc_fds q)"
  shows "safe K S (proc_fds q)"
proof (cases "get_fd (proc_fds p) n r")
  case (Inl e)
  with assms(1,2) show ?thesis by (simp add: with_fd_def)
next
  case (Inr m)
  from safe_get_fd[OF assms(2) Inr] obtain f where f: "map_fd m = Some f"
    "derivable K S (f, rights_base m, rights_inheriting m)" "within r (rights_base m)" .
  then show ?thesis using assms(1,3) Inr by (simp add: with_fd_def)
qed

lemma safe_close:
  assumes "syscall_fd_close n p = Some (e, res, a, q)" "safe K S (proc_fds p)"
  shows "safe K S (proc_fds q)"
proof -
  obtain e' t' where c: "close_fd (proc_fds p) n = (e', t')" by fastforce
  with assms(1) have "proc_fds q = t'" by (auto simp: syscall_fd_close_def)
  moreover have "table_map t' = (table_map (proc_fds p))(unat n := None)"
    using close_fd_correct[OF c] assms(2) by (simp add: safe_def)
  ultimately show ?thesis using safe_upd[OF assms(2), of t' "unat n" None] by simp
qed

lemma safe_create1:
  assumes "syscall_fd_create1 K t p = Some (e, res, a, q)" "safe K S (proc_fds p)"
  shows "safe K S (proc_fds q)"
  using assms by (auto simp: syscall_fd_create1_def bind_eq_Some_iff intro: safe_add_fd new_shm split: if_splits)

lemma safe_create2:
  assumes "syscall_fd_create2 K t p = Some (e, res, a, q)" "safe K S (proc_fds p)"
  shows "safe K S (proc_fds q)"
proof (cases "t = FT_SOCKET_DGRAM \<or> t = FT_SOCKET_STREAM")
  case True
  with assms(1) obtain x y w n m t1 t2 where
    *: "k_socketpair K t (proc_world p) = Some (x, y, w)"
      "add_fd (proc_fds p) (Some x) (sock_rights (k_abi K)) all_rights = Some (n, t1)"
      "add_fd t1 (Some y) (sock_rights (k_abi K)) all_rights = Some (m, t2)" "proc_fds q = t2"
    unfolding syscall_fd_create2_def by (auto simp: bind_eq_Some_iff)
  have "safe K S t1" by (rule safe_add_fd[OF assms(2) *(2) new_socket1[OF *(1)]])
  then have "safe K S t2" by (rule safe_add_fd[OF _ *(3) new_socket2[OF *(1)]])
  with * show ?thesis by simp
qed (use assms in \<open>simp add: syscall_fd_create2_def\<close>)

lemma safe_dup:
  assumes "syscall_fd_dup n p = Some (e, res, a, q)" "safe K S (proc_fds p)"
  shows "safe K S (proc_fds q)"
  using assms(1)[unfolded syscall_fd_dup_def] assms(2)
  by (rule with_fd_safe) (auto simp: bind_eq_Some_iff intro: safe_add_fd[OF assms(2)])

lemma safe_replace:
  assumes "syscall_fd_replace n m p = Some (e, res, a, q)" "safe K S (proc_fds p)"
  shows "safe K S (proc_fds q)"
  using assms(1)[unfolded syscall_fd_replace_def] assms(2)
proof (rule with_fd_safe)
  fix mp f
  assume mp: "map_fd mp = Some f" "derivable K S (f, rights_base mp, rights_inheriting mp)"
    and q: "(if n = m then Some (ESUCCESS, 0, (), p)
         else let (e, fds) = replace_fd (proc_fds p) m (map_fd mp) (rights_base mp) (rights_inheriting mp)
              in Some (e, 0, (), p\<lparr>proc_fds := fds\<rparr>)) = Some (e, res, a, q)"
  obtain e' t' where c: "replace_fd (proc_fds p) m (Some f) (rights_base mp) (rights_inheriting mp) = (e', t')"
    by fastforce
  have "safe K S t'"
  proof (cases "unat m \<in> dom (table_map (proc_fds p))")
    case True
    then have "table_map t' = (table_map (proc_fds p))(unat m \<mapsto>
        \<lparr>map_fd = Some f, rights_base = rights_base mp, rights_inheriting = rights_inheriting mp\<rparr>)"
      using replace_fd_correct[OF c] assms(2) by (simp add: safe_def)
    then show ?thesis by (rule safe_upd[OF assms(2)]) (use mp in auto)
  next
    case False
    then show ?thesis using replace_fd_correct[OF c] assms(2) by (auto simp: safe_def)
  qed
  with q mp c assms(2) show "safe K S (proc_fds q)" by (auto split: if_splits)
qed

lemma safe_stat_put:
  assumes "syscall_fd_stat_put K n st fl p = Some (e, res, a, q)" "safe K S (proc_fds p)"
  shows "safe K S (proc_fds q)"
proof (cases "fl AND NOT (FILE_CONST (k_abi K) FDSTAT_FLAGS OR FILE_CONST (k_abi K) FDSTAT_RIGHTS) \<noteq> 0")
  case True
  with assms show ?thesis by (simp add: syscall_fd_stat_put_def Let_def)
next
  case False
  note s = assms(1)[unfolded syscall_fd_stat_put_def Let_def if_not_P[OF False]]
  show ?thesis
  proof (rule with_fd_safe[OF s assms(2)], goal_cases)
    case (1 m f)
    have "safe K S ((proc_fds p)[unat n := Some (m\<lparr>rights_base := rights_base m AND fs_rights_base st,
            rights_inheriting := rights_inheriting m AND fs_rights_inheriting st\<rparr>)])"
      using 1(2) weaker[OF 1(3)] get_fd_lt[OF 1(1)]
      by (intro safe_upd[OF assms(2) table_map_update]) auto
    with 1(5) assms(2) show ?case by (auto split: if_splits)
  qed
qed

lemma safe_open:
  assumes "syscall_file_open K n lf path len ofl fds p = Some (e, res, a, q)" "safe K S (proc_fds p)"
  shows "safe K S (proc_fds q)"
  using assms(1)[unfolded syscall_file_open_def] assms(2)
proof (rule with_fd_safe, goal_cases)
  case (1 m f)
  from 1(5) have r: "within (fs_rights_base fds) (rights_inheriting m)" "within (fs_rights_inheriting fds) (rights_inheriting m)"
    if "proc_fds q \<noteq> proc_fds p"
    using that by (auto simp: within_def and.commute split: if_splits)
  show ?case
  proof (cases "proc_fds q = proc_fds p")
    case False
    with 1(5) obtain g fds' w' i where
      o: "openat (k_abi K) (k_class K) (k_past K) f path len lf ofl fds (proc_world p) = Some (ESUCCESS, (g, fds'), w')"
      and ad: "add_fd (proc_fds p) g (fs_rights_base fds') (fs_rights_inheriting fds') = Some (i, proc_fds q)"
      by (auto simp: bind_eq_Some_iff split: if_splits)
    from openat_success[OF o] obtain h where g: "g = Some h" by auto
    have "derivable K S (h, fs_rights_base fds', fs_rights_inheriting fds')"
      using opened[OF 1(3,4) r[OF False] o[unfolded g]] .
    with ad g show ?thesis using safe_add_fd[OF assms(2)] by simp
  qed (use assms(2) in simp)
qed

lemma keeps_table_safe:
  "keeps_table sc \<Longrightarrow> sc p = Some (e, res, a, q) \<Longrightarrow> safe K S (proc_fds p) \<Longrightarrow> safe K S (proc_fds q)"
  unfolding keeps_table_def by metis

lemma fd_step_safe: "fd_step K p q \<Longrightarrow> safe K S (proc_fds p) \<Longrightarrow> safe K S (proc_fds q)"
  by (erule fd_step.cases; clarify;
      (erule (1) safe_close safe_create1 safe_create2 safe_dup safe_replace safe_stat_put safe_open)?;
      (erule (1) table_kept[THEN keeps_table_safe] keeps_table_seek[THEN keeps_table_safe])?)

lemma fd_run_safe: "fd_run K p q \<Longrightarrow> safe K S (proc_fds p) \<Longrightarrow> safe K S (proc_fds q)"
  by (induction rule: fd_run.induct) (auto intro: fd_step_safe)

text \<open>
  A right that the process does not hold, neither to use nor to pass on, is never obtained. A
  socket may pass on every right, but no file can be opened below it.
\<close>

lemma derivable_lacks:
  assumes "derivable K S c" "\<forall>(f, b, i) \<in> S. \<not> bit b k \<and> \<not> bit i k"
    and "\<not> bit (shm_rights (k_abi K)) k" "\<not> bit (sock_rights (k_abi K)) k"
    and "\<not> within (krights K RIGHT_FILE_OPEN) (sock_rights (k_abi K))"
  shows "\<not> bit (fst (snd c)) k \<and> (within (krights K RIGHT_FILE_OPEN) (fst (snd c)) \<longrightarrow> \<not> bit (snd (snd c)) k)"
  using assms(1)
proof (induction rule: derivable.induct)
  case (held c)
  with assms(2) show ?case by auto
next
  case (weaker f b i b' i')
  then show ?case by (auto simp: within_bits)
next
  case (opened d b i fds path pathlen lf ofl w f fds' w')
  from openat_success[OF opened.hyps(5)] obtain t where "fds' = drop_rights (k_abi K) t fds" by auto
  with drop_rights_within[of "k_abi K" t fds]
  have "within (fs_rights_base fds') (fs_rights_base fds)" "within (fs_rights_inheriting fds') (fs_rights_inheriting fds)"
    by simp_all
  with opened show ?case by (auto simp: within_bits)
qed (use assms in auto)

end
