(* ===== verification/Reverse_Proto.thy ===== *)
theory Reverse_Proto
  imports Fd
begin

text \<open>
  The protocol between the kernel and a file server in userland: \<^verbatim>\<open>fd/reverse_proto.hpp\<close>, the
  base class \<^verbatim>\<open>reverse_handler\<close> of the servers (\<^verbatim>\<open>userland/libpseudofd/reverse.cpp\<close>) and the
  dispatcher \<^verbatim>\<open>handle_request\<close> (\<^verbatim>\<open>userland/libpseudofd/reversefd.cpp\<close>).

  A method of a server that throws a \<^verbatim>\<open>cloudabi_system_error\<close> gives \<^term>\<open>Inl\<close> of the error together
  with the state it leaves; \<^term>\<open>None\<close> is the end of the server process, by an access outside a
  buffer or by an exception that nobody handles.
\<close>

type_synonym ('a, 's) hmethod = "'s \<Rightarrow> ((errno + 'a) \<times> 's) option"

definition tthrow :: "errno \<Rightarrow> ('a, 's) hmethod" where
  "tthrow e s = Some (Inl e, s)"

definition tret :: "'a \<Rightarrow> ('a, 's) hmethod" where
  "tret x s = Some (Inr x, s)"

definition tbind :: "('a, 's) hmethod \<Rightarrow> ('a \<Rightarrow> ('b, 's) hmethod) \<Rightarrow> ('b, 's) hmethod" where
  "tbind m f s = (case m s of
     None \<Rightarrow> None
   | Some (Inl e, s) \<Rightarrow> Some (Inl e, s)
   | Some (Inr x, s) \<Rightarrow> f x s)"

lemma tbind_throw [simp]: "tbind (tthrow e) f = tthrow e"
  by (simp add: tbind_def tthrow_def fun_eq_iff)

lemma tbind_ret [simp]: "tbind (tret x) f = f x"
  by (simp add: tbind_def tret_def fun_eq_iff)

lemma tbind_assoc: "tbind (tbind m f) g = tbind m (\<lambda>x. tbind (f x) g)"
  by (auto simp: tbind_def fun_eq_iff split: option.splits sum.splits)

subsection \<open>Messages\<close>

datatype (plugins only: code size) reverse_op =
    OP_lookup | OP_stat_fget | OP_stat_put | OP_stat_fput | OP_is_readable | OP_datasync | OP_sync
  | OP_open | OP_create | OP_allocate | OP_readdir | OP_readlink | OP_rename | OP_symlink | OP_link
  | OP_unlink | OP_pread | OP_pwrite | OP_close | OP_sock_shutdown | OP_sock_recv | OP_sock_send

record reverse_request =
  rq_pseudofd :: u64
  rq_op :: reverse_op
  rq_inode :: u64
  rq_flags :: u64
  rq_offset :: u64
  rq_send_length :: u16
  rq_recv_length :: u16

record reverse_response =
  rs_result :: u64
  rs_flags :: u64
  rs_gratituous :: bool
  rs_send_length :: u16
  rs_recv_length :: u16

definition new_request :: "u64 \<Rightarrow> reverse_op \<Rightarrow> reverse_request" where
  "new_request pseudo op = \<lparr>rq_pseudofd = pseudo, rq_op = op, rq_inode = 0, rq_flags = 0, rq_offset = 0,
     rq_send_length = 0, rq_recv_length = 0\<rparr>"

definition new_response :: reverse_response where
  "new_response = \<lparr>rs_result = 0, rs_flags = 0, rs_gratituous = False, rs_send_length = 0, rs_recv_length = 0\<rparr>"

subsection \<open>Servers\<close>

text \<open>
  The virtual methods of \<^verbatim>\<open>reverse_handler\<close>. A method that fills a buffer of the caller gets the
  size of the buffer and gives the bytes.
\<close>

record 's reverse_handler =
  h_lookup :: "u64 \<Rightarrow> bytes \<Rightarrow> u16 \<Rightarrow> (u64 \<times> filestat, 's) hmethod"
  h_open :: "u64 \<Rightarrow> (u64 \<times> filetype, 's) hmethod"
  h_readlink :: "u64 \<Rightarrow> bytes \<Rightarrow> nat \<Rightarrow> (bytes, 's) hmethod"
  h_rename :: "u64 \<Rightarrow> bytes \<Rightarrow> u64 \<Rightarrow> bytes \<Rightarrow> (unit, 's) hmethod"
  h_symlink :: "u64 \<Rightarrow> bytes \<Rightarrow> bytes \<Rightarrow> (unit, 's) hmethod"
  h_link :: "u64 \<Rightarrow> bytes \<Rightarrow> u32 \<Rightarrow> u64 \<Rightarrow> bytes \<Rightarrow> (unit, 's) hmethod"
  h_unlink :: "u64 \<Rightarrow> bytes \<Rightarrow> u8 \<Rightarrow> (unit, 's) hmethod"
  h_create :: "u64 \<Rightarrow> bytes \<Rightarrow> filetype \<Rightarrow> (u64, 's) hmethod"
  h_allocate :: "u64 \<Rightarrow> u64 \<Rightarrow> u64 \<Rightarrow> (unit, 's) hmethod"
  h_close :: "u64 \<Rightarrow> (unit, 's) hmethod"
  h_is_readable :: "u64 \<Rightarrow> (bool \<times> nat \<times> bool, 's) hmethod"
  h_pread :: "u64 \<Rightarrow> u64 \<Rightarrow> u32 \<Rightarrow> (bytes, 's) hmethod"
  h_pwrite :: "u64 \<Rightarrow> u64 \<Rightarrow> bytes \<Rightarrow> (unit, 's) hmethod"
  h_datasync :: "u64 \<Rightarrow> (unit, 's) hmethod"
  h_sync :: "u64 \<Rightarrow> (unit, 's) hmethod"
  h_readdir :: "u64 \<Rightarrow> nat \<Rightarrow> u64 \<Rightarrow> (bytes \<times> u64, 's) hmethod"
  h_sock_recv :: "u64 \<Rightarrow> u32 \<Rightarrow> (bytes, 's) hmethod"
  h_sock_send :: "u64 \<Rightarrow> bytes \<Rightarrow> (unit, 's) hmethod"
  h_stat_fget :: "u64 \<Rightarrow> (filestat, 's) hmethod"
  h_stat_fput :: "u64 \<Rightarrow> filestat \<Rightarrow> u16 \<Rightarrow> (unit, 's) hmethod"
  h_stat_put :: "u64 \<Rightarrow> u32 \<Rightarrow> bytes \<Rightarrow> filestat \<Rightarrow> u16 \<Rightarrow> (unit, 's) hmethod"

definition default_handler :: "'s reverse_handler" where
  "default_handler = \<lparr>
     h_lookup = (\<lambda>_ _ _. tthrow EINVAL), h_open = (\<lambda>_. tthrow EINVAL), h_readlink = (\<lambda>_ _ _. tthrow EINVAL),
     h_rename = (\<lambda>_ _ _ _. tthrow EINVAL), h_symlink = (\<lambda>_ _ _. tthrow EINVAL), h_link = (\<lambda>_ _ _ _ _. tthrow EINVAL),
     h_unlink = (\<lambda>_ _ _. tthrow EINVAL), h_create = (\<lambda>_ _ _. tthrow EINVAL), h_allocate = (\<lambda>_ _ _. tthrow EINVAL),
     h_close = (\<lambda>_. tthrow EINVAL), h_is_readable = (\<lambda>_. tthrow EINVAL), h_pread = (\<lambda>_ _ _. tthrow EINVAL),
     h_pwrite = (\<lambda>_ _ _. tthrow EINVAL), h_datasync = (\<lambda>_. tthrow EINVAL), h_sync = (\<lambda>_. tthrow EINVAL),
     h_readdir = (\<lambda>_ _ _. tthrow EINVAL), h_sock_recv = (\<lambda>_ _. tthrow ENOTSOCK), h_sock_send = (\<lambda>_ _. tthrow ENOTSOCK),
     h_stat_fget = (\<lambda>_. tthrow EINVAL), h_stat_fput = (\<lambda>_ _ _. tthrow EINVAL), h_stat_put = (\<lambda>_ _ _ _ _. tthrow EINVAL)\<rparr>"

subsection \<open>The dispatcher\<close>

text \<open>
  A response without data, and a response with the data that a method wrote to a buffer of
  \<^verbatim>\<open>recv_length\<close> bytes: more bytes than that are a write past the end of the buffer.
\<close>

definition reply :: "u64 \<Rightarrow> (reverse_response \<times> bytes, 's) hmethod" where
  "reply r = tret (new_response\<lparr>rs_result := r\<rparr>, [])"

definition give :: "reverse_request \<Rightarrow> bytes \<times> u64 \<Rightarrow> (reverse_response \<times> bytes, 's) hmethod" where
  "give rq dr = (case dr of (data, r) \<Rightarrow>
     if length data > unat (rq_recv_length rq) then (\<lambda>s. None)
     else tret (new_response\<lparr>rs_result := r, rs_send_length := of_nat (length data)\<rparr>, data))"

definition give_stat :: "cloudabi \<Rightarrow> u64 \<Rightarrow> filestat \<Rightarrow> (reverse_response \<times> bytes, 's) hmethod" where
  "give_stat A r st =
     tret (new_response\<lparr>rs_result := r, rs_send_length := of_nat (sizeof_filestat A)\<rparr>, filestat_bytes A st)"

text \<open>Two names in one buffer, with a null byte between them.\<close>

definition two_names :: "bytes \<Rightarrow> (bytes \<times> bytes, 's) hmethod" where
  "two_names buf =
     (let n = takeWhile (\<lambda>b. b \<noteq> 0) buf in
      if length n = length buf then tthrow EIO else tret (n, drop (length n + 1) buf))"

definition is_append :: "cloudabi \<Rightarrow> reverse_request \<Rightarrow> bool" where
  "is_append A rq \<longleftrightarrow> has (rq_flags rq) (ucast (FILE_CONST A FDFLAG_APPEND))"

definition handle_pwrite ::
  "cloudabi \<Rightarrow> 's reverse_handler \<Rightarrow> reverse_request \<Rightarrow> bytes \<Rightarrow> (reverse_response \<times> bytes, 's) hmethod" where
  "handle_pwrite A h rq buf =
     tbind (if is_append A rq then tbind (h_stat_fget h (rq_pseudofd rq)) (\<lambda>st. tret (st_size st))
            else tret (rq_offset rq)) (\<lambda>offset.
     tbind (h_pwrite h (rq_pseudofd rq) offset buf) (\<lambda>_.
     if is_append A rq then tbind (h_stat_fget h (rq_pseudofd rq)) (\<lambda>st. reply (st_size st))
     else reply 0))"

text \<open>The \<^verbatim>\<open>try\<close> block of \<^verbatim>\<open>handle_request\<close>; the buffer holds \<^verbatim>\<open>send_length\<close> bytes.\<close>

definition handle_op ::
  "cloudabi \<Rightarrow> 's reverse_handler \<Rightarrow> reverse_request \<Rightarrow> bytes \<Rightarrow> (reverse_response \<times> bytes, 's) hmethod" where
  "handle_op A h rq buf =
     (let pseudo = rq_pseudofd rq; recv = unat (rq_recv_length rq) in
      case rq_op rq of
        OP_stat_fget \<Rightarrow> tbind (h_stat_fget h pseudo) (give_stat A 0)
      | OP_lookup \<Rightarrow> tbind (h_lookup h pseudo buf (ucast (rq_flags rq))) (\<lambda>(ino, st). give_stat A ino st)
      | OP_open \<Rightarrow> tbind (h_open h (rq_inode rq)) (\<lambda>(fd, t).
          tret (new_response\<lparr>rs_result := fd, rs_flags := ucast (filetype_num A t)\<rparr>, []))
      | OP_create \<Rightarrow> tbind (h_create h pseudo buf (num_filetype A (ucast (rq_flags rq)))) reply
      | OP_close \<Rightarrow> tbind (h_close h pseudo) (\<lambda>_. reply 0)
      | OP_is_readable \<Rightarrow> tbind (h_is_readable h pseudo) (\<lambda>(b, nbytes, hangup).
          tret (new_response\<lparr>rs_result := of_bool b,
                  rs_flags := (if hangup then EVENT_FD_READWRITE_HANGUP A else 0),
                  rs_recv_length := of_nat nbytes\<rparr>, []))
      | OP_pread \<Rightarrow> tbind (h_pread h pseudo (rq_offset rq) (ucast (rq_recv_length rq))) (\<lambda>d. give rq (d, 0))
      | OP_pwrite \<Rightarrow> handle_pwrite A h rq buf
      | OP_unlink \<Rightarrow> tbind (h_unlink h pseudo buf (ucast (rq_flags rq))) (\<lambda>_. reply 0)
      | OP_readdir \<Rightarrow> tbind (h_readdir h pseudo recv (rq_flags rq)) (give rq)
      | OP_stat_fput \<Rightarrow>
          if length buf \<noteq> sizeof_filestat A then tthrow EIO
          else tbind (h_stat_fput h pseudo (bytes_filestat A buf) (ucast (rq_inode rq))) (\<lambda>_. reply 0)
      | OP_stat_put \<Rightarrow>
          if length buf < sizeof_filestat A then tthrow EIO
          else tbind (h_stat_put h pseudo (ucast (rq_flags rq)) (drop (sizeof_filestat A) buf)
                       (bytes_filestat A (take (sizeof_filestat A) buf)) (ucast (rq_inode rq))) (\<lambda>_. reply 0)
      | OP_sock_recv \<Rightarrow> tbind (h_sock_recv h pseudo (ucast (rq_recv_length rq))) (\<lambda>d. give rq (d, 0))
      | OP_sock_send \<Rightarrow> tbind (h_sock_send h pseudo buf) (\<lambda>_.
          tret (new_response\<lparr>rs_recv_length := rq_send_length rq\<rparr>, []))
      | OP_rename \<Rightarrow> tbind (two_names buf) (\<lambda>(n1, n2).
          tbind (h_rename h pseudo n1 (rq_flags rq) n2) (\<lambda>_. reply 0))
      | OP_readlink \<Rightarrow> tbind (h_readlink h pseudo buf recv) (\<lambda>d. give rq (d, 0))
      | OP_symlink \<Rightarrow> tbind (two_names buf) (\<lambda>(target, n). tbind (h_symlink h pseudo target n) (\<lambda>_. reply 0))
      | OP_allocate \<Rightarrow> tbind (h_allocate h pseudo (rq_offset rq) (rq_flags rq)) (\<lambda>_. reply 0)
      | OP_link \<Rightarrow> tbind (two_names buf) (\<lambda>(n1, n2).
          tbind (h_link h pseudo n1 (ucast (rq_offset rq)) (rq_flags rq) n2) (\<lambda>_. reply 0))
      | OP_datasync \<Rightarrow> tbind (h_datasync h pseudo) (\<lambda>_. reply 0)
      | OP_sync \<Rightarrow> tbind (h_sync h pseudo) (\<lambda>_. reply 0)
      | OP_sock_shutdown \<Rightarrow> tthrow ENOSYS)"

definition error_response :: "cloudabi \<Rightarrow> errno \<Rightarrow> reverse_response" where
  "error_response A e = new_response\<lparr>rs_result := - ucast (errno_num A e)\<rparr>"

definition handle_request ::
  "cloudabi \<Rightarrow> 's reverse_handler \<Rightarrow> reverse_request \<Rightarrow> bytes \<Rightarrow> 's \<Rightarrow> (reverse_response \<times> bytes \<times> 's) option" where
  "handle_request A h rq buf s =
     (case handle_op A h rq buf s of
        None \<Rightarrow> None
      | Some (Inl e, s) \<Rightarrow> Some (error_response A e, [], s)
      | Some (Inr (resp, data), s) \<Rightarrow> Some (resp, data, s))"

end
