(* ===== verification/Std_Map.thy ===== *)
theory Std_Map
  imports Main "HOL-Library.List_Lexorder" "HOL-Library.Product_Lexorder"
begin

text \<open>
  The ordered map of the C++ standard library, which the file servers use for directories:
  a list of pairs in the order of the keys, without duplicates. The interface that the
  clients rely on is the locale \<open>ordered_map\<close>: what a lookup finds after an insertion or an
  erasure, and that iterating visits every binding once, in order.
\<close>

fun map_find :: "'k \<Rightarrow> ('k \<times> 'v) list \<Rightarrow> 'v option" where
  "map_find k [] = None"
| "map_find k ((k', v) # m) = (if k = k' then Some v else map_find k m)"

fun map_set :: "'k::linorder \<Rightarrow> 'v \<Rightarrow> ('k \<times> 'v) list \<Rightarrow> ('k \<times> 'v) list" where
  "map_set k v [] = [(k, v)]"
| "map_set k v ((k', v') # m) =
     (if k = k' then (k, v) # m
      else if k < k' then (k, v) # (k', v') # m
      else (k', v') # map_set k v m)"

fun map_erase :: "'k \<Rightarrow> ('k \<times> 'v) list \<Rightarrow> ('k \<times> 'v) list" where
  "map_erase k [] = []"
| "map_erase k ((k', v) # m) = (if k = k' then m else (k', v) # map_erase k m)"

definition map_wf :: "('k::linorder \<times> 'v) list \<Rightarrow> bool" where
  "map_wf m \<longleftrightarrow> sorted_wrt (<) (map fst m)"

lemma map_fst_the_map_of:
  "distinct (map fst xs) \<Longrightarrow> map (\<lambda>k. (k, the (map_of xs k))) (map fst xs) = xs"
proof (induction xs)
  case (Cons b xs)
  have "map (\<lambda>k. (k, the (map_of (b # xs) k))) (map fst xs) = map (\<lambda>k. (k, the (map_of xs k))) (map fst xs)"
    using Cons.prems by (intro map_cong) (auto simp: image_iff)
  with Cons show ?case by (cases b) simp
qed simp

locale ordered_map =
  fixes find :: "'k::linorder \<Rightarrow> 'm \<Rightarrow> 'v option"
    and set_at :: "'k \<Rightarrow> 'v \<Rightarrow> 'm \<Rightarrow> 'm"
    and erase :: "'k \<Rightarrow> 'm \<Rightarrow> 'm"
    and items :: "'m \<Rightarrow> ('k \<times> 'v) list"
    and wf :: "'m \<Rightarrow> bool"
  assumes find_set: "wf m \<Longrightarrow> find k (set_at k' v m) = (if k = k' then Some v else find k m)"
    and find_erase: "wf m \<Longrightarrow> find k (erase k' m) = (if k = k' then None else find k m)"
    and find_items: "wf m \<Longrightarrow> find k m = map_of (items m) k"
    and items_sorted: "wf m \<Longrightarrow> sorted_wrt (<) (map fst (items m))"
    and wf_set: "wf m \<Longrightarrow> wf (set_at k v m)"
    and wf_erase: "wf m \<Longrightarrow> wf (erase k m)"
begin

text \<open>Two maps with the same lookups iterate alike.\<close>

lemma items_distinct: "wf m \<Longrightarrow> distinct (map fst (items m))"
  using items_sorted strict_sorted_iff by blast

lemma items_unique:
  assumes "wf m" "wf m'" "\<And>k. find k m = find k m'"
  shows "items m = items m'"
proof -
  have eq: "map_of (items m) = map_of (items m')"
    using assms by (auto simp: find_items[symmetric] fun_eq_iff)
  then have "set (map fst (items m)) = set (map fst (items m'))"
    by (metis dom_map_of_conv_image_fst set_map)
  then have "map fst (items m) = map fst (items m')"
    using items_sorted[OF assms(1)] items_sorted[OF assms(2)]
    by (simp add: sorted_distinct_set_unique strict_sorted_iff)
  then show ?thesis
    using eq map_fst_the_map_of[OF items_distinct[OF assms(1)]] map_fst_the_map_of[OF items_distinct[OF assms(2)]]
    by simp
qed

lemma erase_set: "wf m \<Longrightarrow> find k m = None \<Longrightarrow> items (erase k (set_at k v m)) = items m"
  by (rule items_unique) (simp_all add: wf_set wf_erase find_set find_erase)

lemma in_items: "wf m \<Longrightarrow> (k, v) \<in> set (items m) \<longleftrightarrow> find k m = Some v"
  by (simp add: find_items items_distinct)

end

lemma map_find_map_of: "map_find k m = map_of m k"
  by (induction m) auto

lemma map_set_keys: "set (map fst (map_set k v m)) = insert k (set (map fst m))"
  by (induction k v m rule: map_set.induct) auto

lemma map_erase_subset: "set (map_erase k m) \<subseteq> set m"
  by (induction k m rule: map_erase.induct) auto

lemma map_wf_set: "map_wf m \<Longrightarrow> map_wf (map_set k v m)"
proof (induction k v m rule: map_set.induct)
  case (2 k v k' v' m)
  then show ?case using map_set_keys[of k v m] by (auto simp: map_wf_def)
qed (simp add: map_wf_def)

lemma map_wf_erase: "map_wf m \<Longrightarrow> map_wf (map_erase k m)"
proof (induction m)
  case (Cons b m)
  then show ?case using map_erase_subset[of k m] by (cases b) (auto simp: map_wf_def)
qed simp

lemma map_find_set: "map_find k (map_set k' v m) = (if k = k' then Some v else map_find k m)"
  by (induction k' v m rule: map_set.induct) auto

lemma map_find_erase:
  assumes "map_wf m" shows "map_find k (map_erase k' m) = (if k = k' then None else map_find k m)"
  using assms
proof (induction m)
  case (Cons b m)
  then have "fst b \<notin> set (map fst m)" by (auto simp: map_wf_def)
  then have "map_find (fst b) m = None" by (simp add: map_find_map_of map_of_eq_None_iff)
  with Cons show ?case by (cases b) (auto simp: map_wf_def)
qed simp

interpretation dirmap: ordered_map map_find map_set map_erase "\<lambda>m. m" map_wf
proof
  fix m :: "('a \<times> 'b) list" and k k' :: 'a and v :: 'b
  show "map_find k (map_set k' v m) = (if k = k' then Some v else map_find k m)" by (rule map_find_set)
  assume m: "map_wf m"
  from map_find_erase[OF m] show "map_find k (map_erase k' m) = (if k = k' then None else map_find k m)" .
  from m show "sorted_wrt (<) (map fst m)" by (simp add: map_wf_def)
qed (simp_all add: map_find_map_of map_wf_set map_wf_erase)

end
