(* ===== verification/Tmpfs.thy ===== *)
theory Tmpfs
  imports Reverse_Proto Std_Map
begin

text \<open>
  The temporary file system, \<^verbatim>\<open>userland/tmpfs/tmpfs.cpp\<close>: a file server that keeps its files in
  memory. A \<^verbatim>\<open>file_entry_ptr\<close> is the address of an entry, and the address is also the inode
  number, so the map \<^verbatim>\<open>inodes\<close> and the heap of entries are one map here; entries are never
  freed. A pseudo descriptor is the address of a \<^verbatim>\<open>pseudo_fd_entry\<close>, which holds a file.

  The addresses that \<^verbatim>\<open>new\<close> returns and the values that the
  clock shows come from an environment; the \<open>i\<close>-th reading of the clock within a method is
  \<open>now i\<close>.
\<close>

record tmpfs_file_entry =
  te_device :: u64
  te_inode :: u64
  te_type :: filetype
  te_files :: "(bytes \<times> u64) list"
  te_contents :: bytes
  te_hardlinks :: u32
  te_access_time :: u64
  te_content_time :: u64
  te_metadata_time :: u64

record tmpfs =
  tm_device :: u64
  tm_inodes :: "u64 \<rightharpoonup> tmpfs_file_entry"
  tm_pseudo_fds :: "u64 \<rightharpoonup> u64"

type_synonym 'a tm = "('a, tmpfs) hmethod"

record tmpfs_env =
  new_entry :: "tmpfs \<Rightarrow> u64"
  new_pseudo :: "tmpfs \<Rightarrow> u64"
  now :: "nat \<Rightarrow> u64"

text \<open>Reading and writing through a \<^verbatim>\<open>file_entry_ptr\<close>.\<close>

definition deref :: "u64 \<Rightarrow> tmpfs_file_entry tm" where
  "deref p s = (case tm_inodes s p of None \<Rightarrow> None | Some f \<Rightarrow> Some (Inr f, s))"

definition upd :: "u64 \<Rightarrow> (tmpfs_file_entry \<Rightarrow> tmpfs_file_entry) \<Rightarrow> unit tm" where
  "upd p g s = (case tm_inodes s p of
     None \<Rightarrow> None
   | Some f \<Rightarrow> Some (Inr (), s\<lparr>tm_inodes := (tm_inodes s)(p \<mapsto> g f)\<rparr>))"

definition dotb :: bytes where "dotb = [0x2e]"

definition dotdotb :: bytes where "dotdotb = [0x2e, 0x2e]"

text \<open>The constructor: an empty root directory, open as pseudo descriptor 0.\<close>

definition tmpfs_init :: "tmpfs_env \<Rightarrow> u64 \<Rightarrow> u64 \<Rightarrow> tmpfs" where
  "tmpfs_init E d root = \<lparr>tm_device = d,
     tm_inodes = [root \<mapsto> \<lparr>te_device = d, te_inode = root, te_type = FT_DIRECTORY,
       te_files = map_set dotdotb root (map_set dotb root []), te_contents = [], te_hardlinks = 1,
       te_access_time = now E 0, te_content_time = now E 0, te_metadata_time = now E 0\<rparr>],
     tm_pseudo_fds = [0 \<mapsto> root]\<rparr>"

definition get_file_entry_from_inode :: "u64 \<Rightarrow> u64 tm" where
  "get_file_entry_from_inode inode s =
     (case tm_inodes s inode of Some _ \<Rightarrow> tret inode s | None \<Rightarrow> tthrow ENOENT s)"

definition get_file_entry_from_pseudo :: "u64 \<Rightarrow> u64 tm" where
  "get_file_entry_from_pseudo pseudo s =
     (case tm_pseudo_fds s pseudo of Some p \<Rightarrow> tret p s | None \<Rightarrow> tthrow EBADF s)"

definition file_entry_to_filestat :: "tmpfs_file_entry \<Rightarrow> filestat" where
  "file_entry_to_filestat f = \<lparr>st_dev = te_device f, st_ino = te_inode f, st_filetype = te_type f,
     st_nlink = te_hardlinks f,
     st_size = (if te_type f = FT_REGULAR_FILE \<or> te_type f = FT_SYMBOLIC_LINK
                then of_nat (length (te_contents f)) else 0),
     st_atim = te_access_time f, st_mtim = te_content_time f, st_ctim = te_metadata_time f\<rparr>"

subsection \<open>Directories\<close>

text \<open>\<^verbatim>\<open>create\<close>; \<open>t\<close> is the only reading of the clock.\<close>

definition tmpfs_create :: "tmpfs_env \<Rightarrow> u64 \<Rightarrow> u64 \<Rightarrow> bytes \<Rightarrow> filetype \<Rightarrow> u64 tm" where
  "tmpfs_create E t pseudo filename type =
     tbind (get_file_entry_from_pseudo pseudo) (\<lambda>directory.
     tbind (deref directory) (\<lambda>d.
     if map_find filename (te_files d) \<noteq> None then tthrow EEXIST
     else (\<lambda>s.
       let entry = new_entry E s;
           files = (if type = FT_DIRECTORY then map_set dotdotb directory (map_set dotb entry []) else []);
           s = s\<lparr>tm_inodes := (tm_inodes s)(entry \<mapsto> \<lparr>te_device = tm_device s, te_inode = entry, te_type = type,
                 te_files = files, te_contents = [], te_hardlinks = 1,
                 te_access_time = t, te_content_time = t, te_metadata_time = t\<rparr>)\<rparr>
       in tbind (upd directory (\<lambda>d. d\<lparr>te_files := map_set filename entry (te_files d),
                                      te_content_time := t, te_metadata_time := t\<rparr>)) (\<lambda>_. tret entry) s)))"

text \<open>
  \<^verbatim>\<open>lookup\<close>. The first part finds the entry or throws; its error is examined by the handler,
  which creates the file if that was asked for.
\<close>

definition tmpfs_lookup_entry :: "cloudabi \<Rightarrow> u64 \<Rightarrow> bytes \<Rightarrow> u16 \<Rightarrow> u64 tm" where
  "tmpfs_lookup_entry A directory filename oflags =
     tbind (deref directory) (\<lambda>d.
     tbind (get_file_entry_from_inode (te_inode d)) (\<lambda>entry_ptr.
     tbind (deref entry_ptr) (\<lambda>e.
     tbind (if filename = [] then tret entry_ptr
            else if te_type e \<noteq> FT_DIRECTORY then tthrow ENOTDIR
            else case map_find filename (te_files e) of None \<Rightarrow> tthrow ENOENT | Some p \<Rightarrow> tret p) (\<lambda>entry.
     if has oflags (FILE_CONST A O_EXCL) then tthrow EEXIST else tret entry))))"

definition tmpfs_lookup :: "cloudabi \<Rightarrow> tmpfs_env \<Rightarrow> u64 \<Rightarrow> bytes \<Rightarrow> u16 \<Rightarrow> (u64 \<times> filestat) tm" where
  "tmpfs_lookup A E pseudo filename oflags =
     tbind (get_file_entry_from_pseudo pseudo) (\<lambda>directory.
     tbind (upd directory (\<lambda>d. d\<lparr>te_access_time := now E 0\<rparr>)) (\<lambda>_.
     tbind (\<lambda>s. case tmpfs_lookup_entry A directory filename oflags s of
                  None \<Rightarrow> None
                | Some (Inr entry, s) \<Rightarrow> Some (Inr entry, s)
                | Some (Inl e, s) \<Rightarrow>
                    if e = ENOENT \<and> has oflags (FILE_CONST A O_CREAT)
                    then tbind (tmpfs_create E (now E 1) pseudo filename FT_REGULAR_FILE) get_file_entry_from_inode s
                    else tthrow e s) (\<lambda>entry.
     tbind (deref entry) (\<lambda>e.
     tbind (get_file_entry_from_inode (te_inode e)) (\<lambda>q.
     tbind (deref q) (\<lambda>f.
     tret (te_inode e, file_entry_to_filestat f)))))))"

definition tmpfs_open :: "tmpfs_env \<Rightarrow> u64 \<Rightarrow> (u64 \<times> filetype) tm" where
  "tmpfs_open E inode =
     tbind (get_file_entry_from_inode inode) (\<lambda>entry.
     tbind (deref entry) (\<lambda>f.
     if te_type f = FT_SYMBOLIC_LINK then tthrow ELOOP
     else if te_type f \<noteq> FT_REGULAR_FILE \<and> te_type f \<noteq> FT_DIRECTORY then tthrow EINVAL
     else tbind (upd entry (\<lambda>f. f\<lparr>te_access_time := now E 0\<rparr>)) (\<lambda>_ s.
       let fd = new_pseudo E s
       in tret (fd, te_type f) (s\<lparr>tm_pseudo_fds := (tm_pseudo_fds s)(fd \<mapsto> entry)\<rparr>))))"

definition tmpfs_link :: "tmpfs_env \<Rightarrow> u64 \<Rightarrow> bytes \<Rightarrow> u64 \<Rightarrow> bytes \<Rightarrow> unit tm" where
  "tmpfs_link E pseudo1 filename1 pseudo2 filename2 =
     tbind (get_file_entry_from_pseudo pseudo1) (\<lambda>dir1.
     tbind (deref dir1) (\<lambda>d1.
     case map_find filename1 (te_files d1) of None \<Rightarrow> tthrow ENOENT | Some p1 \<Rightarrow>
     tbind (deref p1) (\<lambda>f1.
     if te_type f1 = FT_DIRECTORY then tthrow EPERM else
     tbind (get_file_entry_from_pseudo pseudo2) (\<lambda>dir2.
     tbind (deref dir2) (\<lambda>d2.
     if map_find filename2 (te_files d2) \<noteq> None then tthrow EEXIST else
     tbind (upd p1 (\<lambda>f. f\<lparr>te_hardlinks := te_hardlinks f + 1, te_metadata_time := now E 0\<rparr>)) (\<lambda>_.
     upd dir2 (\<lambda>d. d\<lparr>te_files := map_set filename2 p1 (te_files d),
                     te_content_time := now E 0, te_metadata_time := now E 0\<rparr>)))))))"

definition tmpfs_readlink :: "tmpfs_env \<Rightarrow> u64 \<Rightarrow> bytes \<Rightarrow> nat \<Rightarrow> bytes tm" where
  "tmpfs_readlink E pseudo filename buflen =
     tbind (get_file_entry_from_pseudo pseudo) (\<lambda>dir.
     tbind (deref dir) (\<lambda>d.
     case map_find filename (te_files d) of None \<Rightarrow> tthrow ENOENT | Some p \<Rightarrow>
     tbind (deref p) (\<lambda>f.
     if te_type f \<noteq> FT_SYMBOLIC_LINK then tthrow EINVAL
     else tbind (upd p (\<lambda>f. f\<lparr>te_access_time := now E 0\<rparr>)) (\<lambda>_.
       tret (take buflen (te_contents f))))))"

text \<open>The three ways in which \<^verbatim>\<open>rename\<close> ends, after the same updates of the times of both directories.\<close>

definition stamp_dirs :: "u64 \<Rightarrow> u64 \<Rightarrow> u64 \<Rightarrow> unit tm" where
  "stamp_dirs t dir1 dir2 =
     tbind (upd dir1 (\<lambda>d. d\<lparr>te_content_time := t, te_metadata_time := t\<rparr>)) (\<lambda>_.
     upd dir2 (\<lambda>d. d\<lparr>te_content_time := t, te_metadata_time := t\<rparr>))"

definition tmpfs_rename :: "tmpfs_env \<Rightarrow> u64 \<Rightarrow> bytes \<Rightarrow> u64 \<Rightarrow> bytes \<Rightarrow> unit tm" where
  "tmpfs_rename E pseudo1 filename1 pseudo2 filename2 =
     tbind (get_file_entry_from_pseudo pseudo1) (\<lambda>dir1.
     tbind (get_file_entry_from_pseudo pseudo2) (\<lambda>dir2.
     if filename1 = dotb \<or> filename1 = dotdotb then tthrow EINVAL else
     tbind (deref dir1) (\<lambda>d1.
     case map_find filename1 (te_files d1) of None \<Rightarrow> tthrow ENOENT | Some entry \<Rightarrow>
     tbind (deref entry) (\<lambda>f.
     tbind (deref dir2) (\<lambda>d2.
     case map_find filename2 (te_files d2) of
       None \<Rightarrow>
         tbind (upd dir1 (\<lambda>d. d\<lparr>te_files := map_erase filename1 (te_files d)\<rparr>)) (\<lambda>_.
         tbind (if te_type f = FT_DIRECTORY
                then upd entry (\<lambda>d. d\<lparr>te_files := map_set dotdotb dir2 (te_files d)\<rparr>) else tret ()) (\<lambda>_.
         tbind (upd dir2 (\<lambda>d. d\<lparr>te_files := map_set filename2 entry (te_files d)\<rparr>)) (\<lambda>_.
         tbind (stamp_dirs (now E 0) dir1 dir2) (\<lambda>_.
         upd entry (\<lambda>f. f\<lparr>te_content_time := now E 0, te_metadata_time := now E 0\<rparr>)))))
     | Some other \<Rightarrow>
         tbind (deref other) (\<lambda>g.
         if te_type g = FT_DIRECTORY then
           if te_type f \<noteq> FT_DIRECTORY then tthrow EISDIR
           else if \<exists>(n, _) \<in> set (te_files g). n \<noteq> dotb \<and> n \<noteq> dotdotb then tthrow ENOTEMPTY
           else
             tbind (upd dir2 (\<lambda>d. d\<lparr>te_files := map_set filename2 entry (te_files d)\<rparr>)) (\<lambda>_.
             tbind (upd entry (\<lambda>d. d\<lparr>te_files := map_set dotdotb dir2 (te_files d)\<rparr>)) (\<lambda>_.
             tbind (upd dir1 (\<lambda>d. d\<lparr>te_files := map_erase filename1 (te_files d)\<rparr>)) (\<lambda>_.
             tbind (stamp_dirs (now E 0) dir1 dir2) (\<lambda>_.
             upd entry (\<lambda>f. f\<lparr>te_content_time := now E 0, te_metadata_time := now E 0\<rparr>)))))
         else if te_type f = FT_DIRECTORY then tthrow ENOTDIR
         else
           tbind (upd dir2 (\<lambda>d. d\<lparr>te_files := map_set filename2 entry (te_files d)\<rparr>)) (\<lambda>_.
           tbind (upd dir1 (\<lambda>d. d\<lparr>te_files := map_erase filename1 (te_files d)\<rparr>)) (\<lambda>_.
           stamp_dirs (now E 0) dir1 dir2))))))))"

definition tmpfs_symlink :: "tmpfs_env \<Rightarrow> u64 \<Rightarrow> bytes \<Rightarrow> bytes \<Rightarrow> unit tm" where
  "tmpfs_symlink E pseudo target filename =
     tbind (get_file_entry_from_pseudo pseudo) (\<lambda>directory.
     tbind (deref directory) (\<lambda>d.
     if map_find filename (te_files d) \<noteq> None then tthrow EEXIST
     else (\<lambda>s.
       let entry = new_entry E s;
           s = s\<lparr>tm_inodes := (tm_inodes s)(entry \<mapsto> \<lparr>te_device = tm_device s, te_inode = entry,
                 te_type = FT_SYMBOLIC_LINK, te_files = [], te_contents = target, te_hardlinks = 1,
                 te_access_time = now E 0, te_content_time = now E 0, te_metadata_time = now E 0\<rparr>)\<rparr>
       in upd directory (\<lambda>d. d\<lparr>te_files := map_set filename entry (te_files d),
                               te_content_time := now E 1, te_metadata_time := now E 1\<rparr>) s)))"

definition tmpfs_unlink :: "cloudabi \<Rightarrow> tmpfs_env \<Rightarrow> u64 \<Rightarrow> bytes \<Rightarrow> u8 \<Rightarrow> unit tm" where
  "tmpfs_unlink A E pseudo filename unlinkflags =
     tbind (get_file_entry_from_pseudo pseudo) (\<lambda>directory.
     tbind (deref directory) (\<lambda>d.
     case map_find filename (te_files d) of None \<Rightarrow> tthrow ENOENT | Some entry \<Rightarrow>
     tbind (deref entry) (\<lambda>f.
     let removedir = has unlinkflags (UNLINK_REMOVEDIR A) in
     if te_type f = FT_DIRECTORY \<and> \<not> removedir then tthrow EPERM
     else if te_type f = FT_DIRECTORY \<and> (\<exists>(n, _) \<in> set (te_files f). n \<noteq> dotb \<and> n \<noteq> dotdotb) then tthrow ENOTEMPTY
     else if te_type f \<noteq> FT_DIRECTORY \<and> removedir then tthrow ENOTDIR
     else
       tbind (upd directory (\<lambda>d. d\<lparr>te_files := map_erase filename (te_files d),
                                   te_content_time := now E 0, te_metadata_time := now E 0\<rparr>)) (\<lambda>_.
       upd entry (\<lambda>f. f\<lparr>te_hardlinks := te_hardlinks f - 1, te_metadata_time := now E 0\<rparr>)))))"

definition tmpfs_close :: "u64 \<Rightarrow> unit tm" where
  "tmpfs_close pseudo s =
     (case tm_pseudo_fds s pseudo of
        Some _ \<Rightarrow> tret () (s\<lparr>tm_pseudo_fds := (tm_pseudo_fds s)(pseudo := None)\<rparr>)
      | None \<Rightarrow> tthrow EBADF s)"

subsection \<open>Contents and attributes\<close>

text \<open>
  The server is a 32-bit program: \<^verbatim>\<open>size_t\<close> has 32 bits while \<^verbatim>\<open>off_t\<close> is a signed 64-bit number, so
  an offset is cut to 32 bits wherever it becomes a size or is added to a pointer. Memory for
  the contents never runs out.
\<close>

definition resize :: "nat \<Rightarrow> bytes \<Rightarrow> bytes" where
  "resize n c = take n c @ replicate (n - length c) 0"

definition tmpfs_allocate :: "tmpfs_env \<Rightarrow> u64 \<Rightarrow> u64 \<Rightarrow> u64 \<Rightarrow> unit tm" where
  "tmpfs_allocate E pseudo offset len =
     tbind (get_file_entry_from_pseudo pseudo) (\<lambda>file.
     tbind (deref file) (\<lambda>f.
     if te_type f \<noteq> FT_REGULAR_FILE then tthrow EINVAL
     else let minsize = unat (ucast (offset + len) :: u32) in
       if length (te_contents f) < minsize
       then upd file (\<lambda>f. f\<lparr>te_contents := resize minsize (te_contents f),
                            te_content_time := now E 0, te_metadata_time := now E 0\<rparr>)
       else tret ()))"

definition tmpfs_pread :: "tmpfs_env \<Rightarrow> u64 \<Rightarrow> u64 \<Rightarrow> u32 \<Rightarrow> bytes tm" where
  "tmpfs_pread E pseudo offset requested =
     tbind (get_file_entry_from_pseudo pseudo) (\<lambda>entry.
     tbind (deref entry) (\<lambda>f.
     if te_type f \<noteq> FT_REGULAR_FILE then tthrow EBADF
     else tbind (upd entry (\<lambda>f. f\<lparr>te_access_time := now E 0\<rparr>)) (\<lambda>_.
       let c = te_contents f in
       if sint offset > int (length c) then tret []
       else
         let start = (ucast offset :: u32);
             remaining = of_nat (length c) - start;
             returned = (if remaining < requested then remaining else requested)
         in if unat start + unat returned \<le> length c
            then tret (take (unat returned) (drop (unat start) c))
            else (\<lambda>s. None))))"

definition tmpfs_pwrite :: "tmpfs_env \<Rightarrow> u64 \<Rightarrow> u64 \<Rightarrow> bytes \<Rightarrow> unit tm" where
  "tmpfs_pwrite E pseudo offset buf =
     tbind (get_file_entry_from_pseudo pseudo) (\<lambda>entry.
     tbind (deref entry) (\<lambda>f.
     if te_type f \<noteq> FT_REGULAR_FILE then tthrow EBADF
     else
       let c = te_contents f;
           c = (if int (length c) < sint (offset + of_nat (length buf))
                then resize (unat (ucast (offset + of_nat (length buf)) :: u32)) c else c);
           start = unat (ucast offset :: u32)
       in if start \<le> length c
          then upd entry (\<lambda>f. f\<lparr>te_contents := take start c @ buf @ drop (start + length buf) c,
                                te_content_time := now E 0\<rparr>)
          else (\<lambda>s. None)))"

definition tmpfs_datasync :: "u64 \<Rightarrow> unit tm" where
  "tmpfs_datasync pseudo = tret ()"

definition tmpfs_sync :: "u64 \<Rightarrow> unit tm" where
  "tmpfs_sync pseudo = tret ()"

text \<open>
  \<^verbatim>\<open>readdir\<close> gives one entry, cut to the size of the buffer, and the next cookie.
\<close>

definition dirent_copy :: "cloudabi \<Rightarrow> dirent \<Rightarrow> bytes \<Rightarrow> nat \<Rightarrow> bytes" where
  "dirent_copy A dirent filename buflen =
     (let to_copy = (if sizeof_dirent A < buflen then sizeof_dirent A else buflen) in
      if buflen - to_copy > 0
      then dirent_bytes A dirent
           @ take (if length filename < buflen - to_copy then length filename else buflen - to_copy) filename
      else take to_copy (dirent_bytes A dirent))"

definition tmpfs_readdir :: "cloudabi \<Rightarrow> tmpfs_env \<Rightarrow> u64 \<Rightarrow> nat \<Rightarrow> u64 \<Rightarrow> (bytes \<times> u64) tm" where
  "tmpfs_readdir A E pseudo buflen cookie =
     tbind (get_file_entry_from_pseudo pseudo) (\<lambda>directory.
     tbind (deref directory) (\<lambda>d.
     if te_type d \<noteq> FT_DIRECTORY then tthrow ENOTDIR
     else tbind (upd directory (\<lambda>d. d\<lparr>te_access_time := now E 0\<rparr>)) (\<lambda>_.
       if unat cookie \<ge> length (te_files d) then tret ([], DIRCOOKIE_START A)
       else case te_files d ! unat cookie of (filename, entry) \<Rightarrow>
         tbind (deref entry) (\<lambda>f.
         let cookie = cookie + 1;
             dirent = \<lparr>d_next = cookie, d_ino = te_inode f, d_namlen = of_nat (length filename), d_type = te_type f\<rparr>
         in tret (dirent_copy A dirent filename buflen, cookie)))))"

definition tmpfs_stat_fget :: "u64 \<Rightarrow> filestat tm" where
  "tmpfs_stat_fget pseudo =
     tbind (get_file_entry_from_pseudo pseudo) (\<lambda>entry.
     tbind (deref entry) (\<lambda>f. tret (file_entry_to_filestat f)))"

definition update_file_entry_stat :: "cloudabi \<Rightarrow> u64 \<Rightarrow> u64 \<Rightarrow> filestat \<Rightarrow> u16 \<Rightarrow> unit tm" where
  "update_file_entry_stat A ts entry buf fsflags =
     (let c = FILE_CONST A in
      tbind (upd entry (\<lambda>f. f\<lparr>te_metadata_time := ts\<rparr>)) (\<lambda>_.
      tbind (deref entry) (\<lambda>f.
      tbind (if has fsflags (c FILESTAT_SIZE) then
               if te_type f \<noteq> FT_REGULAR_FILE then tthrow EINVAL
               else upd entry (\<lambda>f. f\<lparr>te_contents := resize (unat (ucast (st_size buf) :: u32)) (te_contents f),
                                     te_content_time := ts\<rparr>)
             else tret ()) (\<lambda>_.
      upd entry (\<lambda>f.
        let f = (if has fsflags (c FILESTAT_ATIM) then f\<lparr>te_access_time := st_atim buf\<rparr> else f);
            f = (if has fsflags (c FILESTAT_ATIM_NOW) then f\<lparr>te_access_time := ts\<rparr> else f);
            f = (if has fsflags (c FILESTAT_MTIM) then f\<lparr>te_content_time := st_mtim buf\<rparr> else f)
        in if has fsflags (c FILESTAT_MTIM_NOW) then f\<lparr>te_content_time := ts\<rparr> else f)))))"

definition tmpfs_stat_fput :: "cloudabi \<Rightarrow> tmpfs_env \<Rightarrow> u64 \<Rightarrow> filestat \<Rightarrow> u16 \<Rightarrow> unit tm" where
  "tmpfs_stat_fput A E pseudo buf fsflags =
     tbind (get_file_entry_from_pseudo pseudo) (\<lambda>entry. update_file_entry_stat A (now E 0) entry buf fsflags)"

definition tmpfs_stat_put :: "cloudabi \<Rightarrow> tmpfs_env \<Rightarrow> u64 \<Rightarrow> bytes \<Rightarrow> filestat \<Rightarrow> u16 \<Rightarrow> unit tm" where
  "tmpfs_stat_put A E pseudo filename buf fsflags =
     tbind (get_file_entry_from_pseudo pseudo) (\<lambda>directory.
     tbind (deref directory) (\<lambda>d.
     case map_find filename (te_files d) of
       None \<Rightarrow> tthrow ENOENT
     | Some entry \<Rightarrow> update_file_entry_stat A (now E 0) entry buf fsflags))"

text \<open>\<^verbatim>\<open>is_readable\<close> gives the number of bytes and whether the other side has hung up.\<close>

definition tmpfs_is_readable :: "u64 \<Rightarrow> (bool \<times> nat \<times> bool) tm" where
  "tmpfs_is_readable pseudo =
     tbind (get_file_entry_from_pseudo pseudo) (\<lambda>entry.
     tbind (deref entry) (\<lambda>f.
     if te_type f = FT_REGULAR_FILE then tret (True, length (te_contents f), False)
     else tthrow EINVAL))"

subsection \<open>The invariant\<close>

text \<open>
  Every entry knows its own address, its directory map is ordered and leads to existing
  entries, a directory contains itself as \<^verbatim>\<open>.\<close> and a directory as \<^verbatim>\<open>..\<close>, and nothing else has
  entries; the contents are smaller than the address space; every open descriptor leads to an existing entry. The invariant of one entry only
  depends on the kinds of the entries, so most updates are local.
\<close>

definition kind :: "tmpfs \<Rightarrow> u64 \<rightharpoonup> filetype" where
  "kind s p = map_option te_type (tm_inodes s p)"

definition entry_ok :: "(u64 \<rightharpoonup> filetype) \<Rightarrow> u64 \<Rightarrow> u64 \<Rightarrow> tmpfs_file_entry \<Rightarrow> bool" where
  "entry_ok K dev p f \<longleftrightarrow>
     te_inode f = p \<and> te_device f = dev \<and> map_wf (te_files f) \<and> length (te_contents f) < 2 ^ 32 \<and>
     (\<forall>n q. map_find n (te_files f) = Some q \<longrightarrow> K q \<noteq> None) \<and>
     (if te_type f = FT_DIRECTORY
      then map_find dotb (te_files f) = Some p \<and> (\<exists>q. map_find dotdotb (te_files f) = Some q \<and> K q = Some FT_DIRECTORY)
      else te_files f = [])"

definition tmpfs_ok :: "tmpfs \<Rightarrow> bool" where
  "tmpfs_ok s \<longleftrightarrow>
     (\<forall>p f. tm_inodes s p = Some f \<longrightarrow> entry_ok (kind s) (tm_device s) p f) \<and>
     (\<forall>i p. tm_pseudo_fds s i = Some p \<longrightarrow> kind s p \<noteq> None)"

definition is_state :: "(u64 \<rightharpoonup> filetype) \<Rightarrow> (u64 \<rightharpoonup> u64) \<Rightarrow> u64 \<Rightarrow> tmpfs \<Rightarrow> bool" where
  "is_state K F D s \<longleftrightarrow> tmpfs_ok s \<and> kind s = K \<and> tm_pseudo_fds s = F \<and> tm_device s = D"

text \<open>
  \<open>keeps K F D m\<close>: from a good state with these kinds, descriptors and device, the method \<open>m\<close>
  ends, with a result or an error, in a good state with the same ones.
\<close>

definition keeps :: "(u64 \<rightharpoonup> filetype) \<Rightarrow> (u64 \<rightharpoonup> u64) \<Rightarrow> u64 \<Rightarrow> 'a tm \<Rightarrow> bool" where
  "keeps K F D m \<longleftrightarrow> (\<forall>s. is_state K F D s \<longrightarrow> (\<exists>r s'. m s = Some (r, s') \<and> is_state K F D s'))"

lemma keeps_throw [intro!]: "keeps K F D (tthrow e)"
  by (simp add: keeps_def tthrow_def)

lemma keeps_ret [intro!]: "keeps K F D (tret x)"
  by (simp add: keeps_def tret_def)

lemma keeps_if [intro!]: "(b \<Longrightarrow> keeps K F D m) \<Longrightarrow> (\<not> b \<Longrightarrow> keeps K F D m') \<Longrightarrow> keeps K F D (if b then m else m')"
  by simp

lemma keeps_bind: "keeps K F D m \<Longrightarrow> (\<And>x. keeps K F D (f x)) \<Longrightarrow> keeps K F D (tbind m f)"
  by (fastforce simp: keeps_def tbind_def split: sum.splits)

lemma keeps_bind_pseudo [intro!]:
  assumes "\<And>p. F ps = Some p \<Longrightarrow> K p \<noteq> None \<Longrightarrow> keeps K F D (h p)"
  shows "keeps K F D (tbind (get_file_entry_from_pseudo ps) h)"
  unfolding keeps_def
proof (intro allI impI)
  fix s assume s: "is_state K F D s"
  show "\<exists>r s'. tbind (get_file_entry_from_pseudo ps) h s = Some (r, s') \<and> is_state K F D s'"
  proof (cases "F ps")
    case None
    with s show ?thesis by (simp add: tbind_def get_file_entry_from_pseudo_def is_state_def tthrow_def)
  next
    case (Some p)
    with s have "K p \<noteq> None" by (auto simp: is_state_def tmpfs_ok_def)
    with assms Some have "keeps K F D (h p)" by simp
    with s Some show ?thesis
      by (auto simp: tbind_def get_file_entry_from_pseudo_def is_state_def tret_def keeps_def)
  qed
qed

lemma keeps_bind_inode:
  assumes "K ino \<noteq> None \<Longrightarrow> keeps K F D (h ino)"
  shows "keeps K F D (tbind (get_file_entry_from_inode ino) h)"
  using assms
  by (cases "K ino")
     (auto simp: keeps_def tbind_def get_file_entry_from_inode_def is_state_def tret_def tthrow_def kind_def split: option.splits)

lemma keeps_bind_deref:
  assumes "K p \<noteq> None" "\<And>f. entry_ok K D p f \<Longrightarrow> K p = Some (te_type f) \<Longrightarrow> keeps K F D (h f)"
  shows "keeps K F D (tbind (deref p) h)"
  unfolding keeps_def
proof (intro allI impI)
  fix s assume s: "is_state K F D s"
  with assms(1) obtain f where f: "tm_inodes s p = Some f" by (auto simp: is_state_def kind_def)
  with s have "entry_ok K D p f" "K p = Some (te_type f)"
    by (auto simp: is_state_def tmpfs_ok_def kind_def)
  with assms(2) s f show "\<exists>r s'. tbind (deref p) h s = Some (r, s') \<and> is_state K F D s'"
    by (simp add: tbind_def deref_def keeps_def)
qed

lemma kind_upd: "kind (s\<lparr>tm_inodes := (tm_inodes s)(p \<mapsto> f)\<rparr>) = (kind s)(p \<mapsto> te_type f)"
  by (auto simp: kind_def fun_eq_iff)

lemma keeps_upd:
  assumes "K p \<noteq> None"
    "\<And>f. entry_ok K D p f \<Longrightarrow> K p = Some (te_type f) \<Longrightarrow> entry_ok K D p (g f) \<and> te_type (g f) = te_type f"
  shows "keeps K F D (upd p g)"
  unfolding keeps_def
proof (intro allI impI)
  fix s assume s: "is_state K F D s"
  with assms(1) obtain f where f: "tm_inodes s p = Some f" by (auto simp: is_state_def kind_def)
  with s have e: "entry_ok K D p f" "K p = Some (te_type f)"
    by (auto simp: is_state_def tmpfs_ok_def kind_def)
  have "kind (s\<lparr>tm_inodes := (tm_inodes s)(p \<mapsto> g f)\<rparr>) = K"
    using assms(2)[OF e] e(2) s by (auto simp: kind_upd is_state_def)
  with s f assms(2)[OF e] show "\<exists>r s'. upd p g s = Some (r, s') \<and> is_state K F D s'"
    by (auto simp: upd_def is_state_def tmpfs_ok_def split: if_splits)
qed

text \<open>Changes of an entry that keep it good.\<close>

lemma entry_ok_simps [simp]:
  "entry_ok K D p (f\<lparr>te_access_time := t\<rparr>) = entry_ok K D p f"
  "entry_ok K D p (f\<lparr>te_content_time := t\<rparr>) = entry_ok K D p f"
  "entry_ok K D p (f\<lparr>te_metadata_time := t\<rparr>) = entry_ok K D p f"
  "entry_ok K D p (f\<lparr>te_hardlinks := n\<rparr>) = entry_ok K D p f"
  by (simp_all add: entry_ok_def)

lemma entry_ok_contents [simp]:
  "entry_ok K D p f \<Longrightarrow> entry_ok K D p (f\<lparr>te_contents := c\<rparr>) \<longleftrightarrow> length c < 2 ^ 32"
  by (auto simp: entry_ok_def)

lemma length_resize [simp]: "length (resize n c) = n"
  by (simp add: resize_def)

lemma entry_ok_set:
  "entry_ok K D p f \<Longrightarrow> te_type f = FT_DIRECTORY \<Longrightarrow> K q \<noteq> None \<Longrightarrow> n \<noteq> dotb \<Longrightarrow>
   (n = dotdotb \<Longrightarrow> K q = Some FT_DIRECTORY) \<Longrightarrow> entry_ok K D p (f\<lparr>te_files := map_set n q (te_files f)\<rparr>)"
  by (auto simp: entry_ok_def dirmap.find_set dirmap.wf_set)

lemma entry_ok_erase:
  "entry_ok K D p f \<Longrightarrow> n \<noteq> dotb \<Longrightarrow> n \<noteq> dotdotb \<Longrightarrow> entry_ok K D p (f\<lparr>te_files := map_erase n (te_files f)\<rparr>)"
  by (auto simp: entry_ok_def dirmap.find_erase dirmap.wf_erase)

lemma entry_ok_find: "entry_ok K D p f \<Longrightarrow> map_find n (te_files f) = Some q \<Longrightarrow> K q \<noteq> None"
  by (simp add: entry_ok_def)

lemma entry_ok_mono: "entry_ok K D p f \<Longrightarrow> K \<subseteq>\<^sub>m K' \<Longrightarrow> entry_ok K' D p f"
  by (fastforce simp: entry_ok_def map_le_def dom_def)

text \<open>Every method ends in a good state, if directory methods are used on directories.\<close>

lemma keeps_case_find:
  assumes "entry_ok K D p d" "keeps K F D m" "\<And>q. K q \<noteq> None \<Longrightarrow> map_find n (te_files d) = Some q \<Longrightarrow> keeps K F D (h q)"
  shows "keeps K F D (case map_find n (te_files d) of None \<Rightarrow> m | Some q \<Rightarrow> h q)"
  using assms entry_ok_find[OF assms(1)] by (cases "map_find n (te_files d)") auto

lemmas keeps_intros = keeps_bind_deref keeps_case_find keeps_upd keeps_bind_pseudo keeps_if keeps_throw keeps_ret

lemma keeps_link:
  assumes "\<And>p. F ps2 = Some p \<Longrightarrow> K p = Some FT_DIRECTORY" "n2 \<noteq> dotb" "n2 \<noteq> dotdotb"
  shows "keeps K F D (tmpfs_link E ps1 n1 ps2 n2)"
  unfolding tmpfs_link_def
  by (intro keeps_intros keeps_bind[OF keeps_upd]; (simp | blast)?)
     (auto intro!: entry_ok_set simp: assms)

lemma keeps_readlink: "keeps K F D (tmpfs_readlink E ps n len)"
  unfolding tmpfs_readlink_def
  by (intro keeps_intros keeps_bind[OF keeps_upd]; (simp | blast)?)

lemma keeps_unlink:
  assumes "n \<noteq> dotb" "n \<noteq> dotdotb"
  shows "keeps K F D (tmpfs_unlink A E ps n fl)"
  unfolding tmpfs_unlink_def Let_def
  by (intro keeps_intros keeps_bind[OF keeps_upd]; (simp | blast)?) (auto intro!: entry_ok_erase simp: assms)

lemma keeps_allocate: "keeps K F D (tmpfs_allocate E ps off len)"
  unfolding tmpfs_allocate_def Let_def
  by (intro keeps_intros; (simp | blast)?)

lemma keeps_stat_fget: "keeps K F D (tmpfs_stat_fget ps)"
  unfolding tmpfs_stat_fget_def
  by (intro keeps_intros; (simp | blast)?)

lemma keeps_is_readable: "keeps K F D (tmpfs_is_readable ps)"
  unfolding tmpfs_is_readable_def
  by (intro keeps_intros; (simp | blast)?)

lemma keeps_update_stat: "K p \<noteq> None \<Longrightarrow> keeps K F D (update_file_entry_stat A ts p st fl)"
  unfolding update_file_entry_stat_def Let_def
  by (intro keeps_intros keeps_bind[OF keeps_upd] keeps_bind[OF keeps_if]; simp)

lemma keeps_stat_fput: "keeps K F D (tmpfs_stat_fput A E ps st fl)"
  unfolding tmpfs_stat_fput_def by (intro keeps_bind_pseudo keeps_update_stat)

lemma keeps_stat_put: "keeps K F D (tmpfs_stat_put A E ps n st fl)"
  unfolding tmpfs_stat_put_def
  by (intro keeps_bind_pseudo keeps_bind_deref keeps_case_find keeps_throw keeps_update_stat)

lemma keeps_readdir: "keeps K F D (tmpfs_readdir A E ps len c)"
  unfolding tmpfs_readdir_def Let_def
proof (intro keeps_bind_pseudo keeps_bind_deref keeps_if keeps_throw keeps_bind[OF keeps_upd] keeps_ret, simp_all)
  fix d p
  assume d: "entry_ok K D p d" and c: "\<not> length (te_files d) \<le> unat c"
  obtain n q where nq: "te_files d ! unat c = (n, q)" by fastforce
  with c have "(n, q) \<in> set (te_files d)" by (metis not_le nth_mem)
  then have "map_find n (te_files d) = Some q" using d by (simp add: entry_ok_def dirmap.in_items)
  then have "K q \<noteq> None" by (rule entry_ok_find[OF d])
  then show "keeps K F D (case te_files d ! unat c of (filename, entry) \<Rightarrow> tbind (deref entry) (\<lambda>f.
      tret (dirent_copy A \<lparr>d_next = c + 1, d_ino = te_inode f, d_namlen = word_of_nat (length filename),
              d_type = te_type f\<rparr> filename len, c + 1)))"
    unfolding nq prod.case by (intro keeps_bind_deref keeps_ret)
qed

lemma keeps_stamp: "K p \<noteq> None \<Longrightarrow> K q \<noteq> None \<Longrightarrow> keeps K F D (stamp_dirs t p q)"
  unfolding stamp_dirs_def by (intro keeps_bind keeps_upd; simp)

lemma keeps_upd_set:
  "K p = Some FT_DIRECTORY \<Longrightarrow> K q \<noteq> None \<Longrightarrow> n \<noteq> dotb \<Longrightarrow> (n = dotdotb \<Longrightarrow> K q = Some FT_DIRECTORY) \<Longrightarrow>
   keeps K F D (upd p (\<lambda>d. d\<lparr>te_files := map_set n q (te_files d)\<rparr>))"
  by (intro keeps_upd conjI entry_ok_set) auto

lemma keeps_upd_erase:
  "K p \<noteq> None \<Longrightarrow> n \<noteq> dotb \<Longrightarrow> n \<noteq> dotdotb \<Longrightarrow>
   keeps K F D (upd p (\<lambda>d. d\<lparr>te_files := map_erase n (te_files d)\<rparr>))"
  by (intro keeps_upd conjI entry_ok_erase) auto

lemma dotb_dotdotb: "dotdotb \<noteq> dotb"
  by (simp add: dotb_def dotdotb_def)

lemma keeps_rename:
  assumes dir: "\<And>p. F ps2 = Some p \<Longrightarrow> K p = Some FT_DIRECTORY" and n2: "n2 \<noteq> dotb" "n2 \<noteq> dotdotb"
  shows "keeps K F D (tmpfs_rename E ps1 n1 ps2 n2)"
  unfolding tmpfs_rename_def
  apply (intro keeps_bind_pseudo keeps_if keeps_throw keeps_bind_deref keeps_case_find, assumption+)
  subgoal premises prems
    using prems dir[OF prems(3)] n2
    by (intro keeps_bind keeps_stamp keeps_if keeps_ret keeps_upd_set keeps_upd_erase keeps_upd;
        simp add: dotb_dotdotb)
       apply assumption+
  subgoal premises prems
    using prems dir[OF prems(3)] n2
    by (intro keeps_bind keeps_stamp keeps_upd_set keeps_upd_erase keeps_upd; simp add: dotb_dotdotb)
  subgoal premises prems
    using prems dir[OF prems(3)] n2
    by (intro keeps_bind keeps_stamp keeps_upd_set keeps_upd_erase; simp)
  done

text \<open>
  The methods that make entries or open descriptors. An address from \<^verbatim>\<open>new\<close> is not in use; which
  one it is may depend on the state.
\<close>

definition fresh_entries :: "tmpfs_env \<Rightarrow> (u64 \<rightharpoonup> filetype) \<Rightarrow> bool" where
  "fresh_entries E K \<longleftrightarrow> (\<forall>s. kind s = K \<longrightarrow> K (new_entry E s) = None)"

definition grows :: "(u64 \<rightharpoonup> filetype) \<Rightarrow> (u64 \<rightharpoonup> u64) \<Rightarrow> u64 \<Rightarrow> 'a tm \<Rightarrow> bool" where
  "grows K F D m \<longleftrightarrow> (\<forall>s. is_state K F D s \<longrightarrow>
     (\<exists>r s' K'. m s = Some (r, s') \<and> K \<subseteq>\<^sub>m K' \<and> is_state K' F D s'))"

lemma keeps_grows: "keeps K F D m \<Longrightarrow> grows K F D m"
  unfolding keeps_def grows_def by (meson map_le_refl)

lemma is_state_new:
  assumes "is_state K F D s" "K p = None" "entry_ok (K(p \<mapsto> te_type f)) D p f"
  shows "is_state (K(p \<mapsto> te_type f)) F D (s\<lparr>tm_inodes := (tm_inodes s)(p \<mapsto> f)\<rparr>)"
proof -
  have le: "K \<subseteq>\<^sub>m K(p \<mapsto> te_type f)" using assms(2) by (auto simp: map_le_def)
  have "entry_ok (K(p \<mapsto> te_type f)) D q g" if "tm_inodes s q = Some g" for q g
    using assms(1) that entry_ok_mono[OF _ le] by (auto simp: is_state_def tmpfs_ok_def)
  with assms show ?thesis
    by (auto simp: is_state_def tmpfs_ok_def kind_upd)
qed

lemma grows_bind_keeps:
  assumes "keeps K F D m" "\<And>x. grows K F D (h x)" shows "grows K F D (tbind m h)"
  unfolding grows_def
proof (intro allI impI)
  fix s assume s: "is_state K F D s"
  from assms(1) s obtain r s1 where m: "m s = Some (r, s1)" "is_state K F D s1" unfolding keeps_def by blast
  show "\<exists>r s' K'. tbind m h s = Some (r, s') \<and> K \<subseteq>\<^sub>m K' \<and> is_state K' F D s'"
  proof (cases r)
    case (Inl e)
    with m show ?thesis by (intro exI[of _ "Inl e"] exI[of _ s1] exI[of _ K]) (simp add: tbind_def)
  next
    case (Inr x)
    with m assms(2)[of x] show ?thesis by (simp add: tbind_def grows_def)
  qed
qed

text \<open>Adding a new entry to a directory, the common end of \<^verbatim>\<open>create\<close> and \<^verbatim>\<open>symlink\<close>.\<close>

lemma new_entry_ok:
  assumes s: "is_state K F D s" and p: "K p = None" and f: "entry_ok (K(p \<mapsto> te_type f)) D p f"
    and d: "tm_inodes s dir = Some d" "te_type d = FT_DIRECTORY" "n \<noteq> dotb" "n \<noteq> dotdotb"
    and s1: "s1 = s\<lparr>tm_inodes := (tm_inodes s)(p \<mapsto> f)\<rparr>"
  shows "\<exists>s'. upd dir (\<lambda>d. d\<lparr>te_files := map_set n p (te_files d), te_content_time := t, te_metadata_time := t\<rparr>) s1
           = Some (Inr (), s') \<and> is_state (K(p \<mapsto> te_type f)) F D s'"
proof -
  let ?K = "K(p \<mapsto> te_type f)"
  have st: "is_state ?K F D s1" unfolding s1 by (rule is_state_new[OF s p f])
  have "K dir = Some FT_DIRECTORY" using s d by (auto simp: is_state_def kind_def)
  with p have kd: "?K dir = Some FT_DIRECTORY" by auto
  have "keeps ?K F D (upd dir (\<lambda>d. d\<lparr>te_files := map_set n p (te_files d), te_content_time := t, te_metadata_time := t\<rparr>))"
    using kd d(3,4) by (intro keeps_upd) (auto intro!: entry_ok_set)
  with st obtain r s' where *: "upd dir (\<lambda>d. d\<lparr>te_files := map_set n p (te_files d), te_content_time := t, te_metadata_time := t\<rparr>) s1
      = Some (r, s')" "is_state ?K F D s'" unfolding keeps_def by blast
  then have "r = Inr ()" by (auto simp: upd_def split: option.splits)
  with * show ?thesis by blast
qed

lemma grows_create:
  assumes dir: "\<And>p. F ps = Some p \<Longrightarrow> K p = Some FT_DIRECTORY" and fr: "fresh_entries E K"
  shows "grows K F D (tmpfs_create E t ps n ty)"
  unfolding grows_def
proof (intro allI impI)
  fix s assume s: "is_state K F D s"
  show "\<exists>r s' K'. tmpfs_create E t ps n ty s = Some (r, s') \<and> K \<subseteq>\<^sub>m K' \<and> is_state K' F D s'"
  proof (cases "F ps")
    case None
    then have "tmpfs_create E t ps n ty s = Some (Inl EBADF, s)"
      using s by (simp add: tmpfs_create_def tbind_def get_file_entry_from_pseudo_def is_state_def tthrow_def)
    with s show ?thesis by (intro exI[of _ "Inl EBADF"] exI[of _ s] exI[of _ K]) simp
  next
    case (Some p)
    with dir s obtain d where d: "tm_inodes s p = Some d" "te_type d = FT_DIRECTORY"
      by (fastforce simp: is_state_def kind_def)
    from s d(1) have ed: "entry_ok K D p d" by (auto simp: is_state_def tmpfs_ok_def)
    let ?q = "new_entry E s"
    let ?f = "\<lparr>te_device = D, te_inode = ?q, te_type = ty,
        te_files = (if ty = FT_DIRECTORY then map_set dotdotb p (map_set dotb ?q []) else []),
        te_contents = [], te_hardlinks = 1, te_access_time = t, te_content_time = t, te_metadata_time = t\<rparr>"
    have q: "K ?q = None" using fr s by (simp add: fresh_entries_def is_state_def)
    have def: "tmpfs_create E t ps n ty s =
        (if map_find n (te_files d) \<noteq> None then Some (Inl EEXIST, s)
         else tbind (upd p (\<lambda>d. d\<lparr>te_files := map_set n ?q (te_files d), te_content_time := t, te_metadata_time := t\<rparr>))
                (\<lambda>_. tret ?q) (s\<lparr>tm_inodes := (tm_inodes s)(?q \<mapsto> ?f)\<rparr>))"
      using s d Some
      by (simp add: tmpfs_create_def tbind_def get_file_entry_from_pseudo_def is_state_def tthrow_def tret_def deref_def Let_def)
    show ?thesis
    proof (cases "map_find n (te_files d)")
      case None
      then have n: "n \<noteq> dotb" "n \<noteq> dotdotb" using ed d(2) by (auto simp: entry_ok_def)
      have f: "entry_ok (K(?q \<mapsto> te_type ?f)) D ?q ?f"
        using dir[OF Some] q dotb_dotdotb
        by (auto simp: entry_ok_def dirmap.find_set dirmap.wf_set map_wf_def split: if_splits)
      obtain s' where s': "upd p (\<lambda>d. d\<lparr>te_files := map_set n ?q (te_files d), te_content_time := t, te_metadata_time := t\<rparr>)
          (s\<lparr>tm_inodes := (tm_inodes s)(?q \<mapsto> ?f)\<rparr>) = Some (Inr (), s')" "is_state (K(?q \<mapsto> te_type ?f)) F D s'"
        using new_entry_ok[OF s q f d n refl, of t] by blast
      have "tmpfs_create E t ps n ty s = Some (Inr ?q, s')"
        unfolding def using None s'(1) by (simp add: tbind_def tret_def)
      moreover have "K \<subseteq>\<^sub>m K(?q \<mapsto> te_type ?f)" using q by (auto simp: map_le_def)
      ultimately show ?thesis using s'(2) by blast
    next
      case (Some q)
      with s show ?thesis unfolding def by (intro exI[of _ "Inl EEXIST"] exI[of _ s] exI[of _ K]) simp
    qed
  qed
qed

lemma grows_symlink:
  assumes dir: "\<And>p. F ps = Some p \<Longrightarrow> K p = Some FT_DIRECTORY" and fr: "fresh_entries E K"
    and tgt: "length tgt < 2 ^ 32"
  shows "grows K F D (tmpfs_symlink E ps tgt n)"
  unfolding grows_def
proof (intro allI impI)
  fix s assume s: "is_state K F D s"
  show "\<exists>r s' K'. tmpfs_symlink E ps tgt n s = Some (r, s') \<and> K \<subseteq>\<^sub>m K' \<and> is_state K' F D s'"
  proof (cases "F ps")
    case None
    then have "tmpfs_symlink E ps tgt n s = Some (Inl EBADF, s)"
      using s by (simp add: tmpfs_symlink_def tbind_def get_file_entry_from_pseudo_def is_state_def tthrow_def)
    with s show ?thesis by (intro exI[of _ "Inl EBADF"] exI[of _ s] exI[of _ K]) simp
  next
    case (Some p)
    with dir s obtain d where d: "tm_inodes s p = Some d" "te_type d = FT_DIRECTORY"
      by (fastforce simp: is_state_def kind_def)
    from s d(1) have ed: "entry_ok K D p d" by (auto simp: is_state_def tmpfs_ok_def)
    let ?q = "new_entry E s"
    let ?f = "\<lparr>te_device = D, te_inode = ?q, te_type = FT_SYMBOLIC_LINK, te_files = [],
        te_contents = tgt, te_hardlinks = 1, te_access_time = now E 0, te_content_time = now E 0, te_metadata_time = now E 0\<rparr>"
    have q: "K ?q = None" using fr s by (simp add: fresh_entries_def is_state_def)
    have def: "tmpfs_symlink E ps tgt n s =
        (if map_find n (te_files d) \<noteq> None then Some (Inl EEXIST, s)
         else upd p (\<lambda>d. d\<lparr>te_files := map_set n ?q (te_files d), te_content_time := now E 1, te_metadata_time := now E 1\<rparr>)
                (s\<lparr>tm_inodes := (tm_inodes s)(?q \<mapsto> ?f)\<rparr>))"
      using s d Some
      by (simp add: tmpfs_symlink_def tbind_def get_file_entry_from_pseudo_def is_state_def tthrow_def tret_def deref_def Let_def)
    show ?thesis
    proof (cases "map_find n (te_files d)")
      case None
      then have n: "n \<noteq> dotb" "n \<noteq> dotdotb" using ed d(2) by (auto simp: entry_ok_def)
      have f: "entry_ok (K(?q \<mapsto> te_type ?f)) D ?q ?f"
        using tgt by (simp add: entry_ok_def map_wf_def)
      moreover have "K \<subseteq>\<^sub>m K(?q \<mapsto> te_type ?f)" using q by (auto simp: map_le_def)
      ultimately show ?thesis unfolding def using new_entry_ok[OF s q f d n refl, of "now E 1"] None by auto
    next
      case (Some q)
      with s show ?thesis unfolding def by (intro exI[of _ "Inl EEXIST"] exI[of _ s] exI[of _ K]) simp
    qed
  qed
qed

text \<open>\<^verbatim>\<open>lookup\<close>: only the path that creates a file needs a fresh address.\<close>

lemma keeps_lookup_entry: "K p \<noteq> None \<Longrightarrow> keeps K F D (tmpfs_lookup_entry A p n fl)"
  unfolding tmpfs_lookup_entry_def
proof (intro keeps_bind_deref, assumption, intro keeps_bind_inode keeps_bind_deref, assumption, goal_cases)
  case (1 d e)
  then show ?case
    by (intro keeps_bind keeps_if keeps_ret keeps_throw) (auto split: option.splits)
qed

lemma lookup_entry_result:
  assumes "is_state K F D s" "K p \<noteq> None" "tmpfs_lookup_entry A p n fl s = Some (Inr q, s')"
  shows "K q \<noteq> None" "is_state K F D s'"
proof -
  obtain d where d: "tm_inodes s p = Some d" using assms(1,2) by (auto simp: is_state_def kind_def)
  then have ed: "entry_ok K D p d" using assms(1) by (auto simp: is_state_def tmpfs_ok_def)
  then have "te_inode d = p" by (simp add: entry_ok_def)
  then have r: "s' = s \<and> (n = [] \<and> q = p \<or> map_find n (te_files d) = Some q)"
    using assms(3) d
    by (auto simp: tmpfs_lookup_entry_def tbind_def deref_def get_file_entry_from_inode_def tret_def tthrow_def
        split: option.splits if_splits)
  then show "K q \<noteq> None" using assms(2) entry_ok_find[OF ed] by blast
  show "is_state K F D s'" using r assms(1) by simp
qed

lemma kind_pseudo [simp]: "kind (s\<lparr>tm_pseudo_fds := F\<rparr>) = kind s"
  by (simp add: kind_def fun_eq_iff)

definition lookup_tail :: "u64 \<Rightarrow> (u64 \<times> filestat) tm" where
  "lookup_tail entry =
     tbind (deref entry) (\<lambda>e.
     tbind (get_file_entry_from_inode (te_inode e)) (\<lambda>q.
     tbind (deref q) (\<lambda>f.
     tret (te_inode e, file_entry_to_filestat f))))"

lemma keeps_lookup_tail: "K q \<noteq> None \<Longrightarrow> keeps K F D (lookup_tail q)"
  unfolding lookup_tail_def
  by (intro keeps_bind_deref, assumption, intro keeps_bind_inode keeps_bind_deref keeps_ret)

lemma tmpfs_lookup_cases:
  assumes "F ps = Some p" "tm_pseudo_fds s = F"
    and u: "upd p (\<lambda>d. d\<lparr>te_access_time := now E 0\<rparr>) s = Some (Inr (), s1)"
  shows "tmpfs_lookup A E ps n fl s =
    (case tmpfs_lookup_entry A p n fl s1 of
       None \<Rightarrow> None
     | Some (Inr q, s2) \<Rightarrow> lookup_tail q s2
     | Some (Inl e, s2) \<Rightarrow>
         if e = ENOENT \<and> has fl (FILE_CONST A O_CREAT)
         then tbind (tbind (tmpfs_create E (now E 1) ps n FT_REGULAR_FILE) get_file_entry_from_inode) lookup_tail s2
         else Some (Inl e, s2))"
  using assms
  by (simp add: tmpfs_lookup_def tbind_def get_file_entry_from_pseudo_def tret_def tthrow_def lookup_tail_def[abs_def]
           split: option.splits sum.splits)

lemma upd_access:
  assumes "is_state K F D s" "K p \<noteq> None"
  obtains s1 where "upd p (\<lambda>d. d\<lparr>te_access_time := t\<rparr>) s = Some (Inr (), s1)" "is_state K F D s1"
proof -
  have "keeps K F D (upd p (\<lambda>d. d\<lparr>te_access_time := t\<rparr>))"
    using assms(2) by (intro keeps_upd) auto
  then obtain r s1 where "upd p (\<lambda>d. d\<lparr>te_access_time := t\<rparr>) s = Some (r, s1)" "is_state K F D s1"
    using assms(1) unfolding keeps_def by blast
  moreover from this(1) have "r = Inr ()" by (auto simp: upd_def split: option.splits)
  ultimately show thesis using that by blast
qed

lemma grows_lookup:
  assumes dir: "\<And>p. F ps = Some p \<Longrightarrow> K p = Some FT_DIRECTORY" and fr: "fresh_entries E K"
  shows "grows K F D (tmpfs_lookup A E ps n fl)"
  unfolding grows_def
proof (intro allI impI)
  fix s assume s: "is_state K F D s"
  show "\<exists>r s' K'. tmpfs_lookup A E ps n fl s = Some (r, s') \<and> K \<subseteq>\<^sub>m K' \<and> is_state K' F D s'"
  proof (cases "F ps")
    case None
    then have "tmpfs_lookup A E ps n fl s = Some (Inl EBADF, s)"
      using s by (simp add: tmpfs_lookup_def tbind_def get_file_entry_from_pseudo_def is_state_def tthrow_def)
    with s show ?thesis by (intro exI[of _ "Inl EBADF"] exI[of _ s] exI[of _ K]) simp
  next
    case (Some p)
    then have kp: "K p \<noteq> None" using dir by simp
    obtain s1 where s1: "upd p (\<lambda>d. d\<lparr>te_access_time := now E 0\<rparr>) s = Some (Inr (), s1)" "is_state K F D s1"
      using upd_access[OF s kp] by blast
    have Fs: "tm_pseudo_fds s = F" using s by (simp add: is_state_def)
    note def = tmpfs_lookup_cases[OF Some Fs s1(1), of A n fl]
    obtain r s2 where le: "tmpfs_lookup_entry A p n fl s1 = Some (r, s2)" "is_state K F D s2"
      using keeps_lookup_entry[of K p F D A n fl] kp s1(2) unfolding keeps_def by blast
    show ?thesis
    proof (cases r)
      case (Inr q)
      have "K q \<noteq> None" using lookup_entry_result(1)[OF s1(2) kp le(1)[unfolded Inr]] .
      then have "keeps K F D (lookup_tail q)" by (rule keeps_lookup_tail)
      then show ?thesis using le Inr unfolding def keeps_def by simp (meson map_le_refl)
    next
      case (Inl e)
      show ?thesis
      proof (cases "e = ENOENT \<and> has fl (FILE_CONST A O_CREAT)")
        case False
        with le Inl show ?thesis unfolding def by (auto intro!: exI[of _ K])
      next
        case True
        obtain r3 s3 K3 where c: "tmpfs_create E (now E 1) ps n FT_REGULAR_FILE s2 = Some (r3, s3)"
            "K \<subseteq>\<^sub>m K3" "is_state K3 F D s3"
          using grows_create[OF dir fr, where F = F and ps = ps] le(2) unfolding grows_def by blast
        have "\<exists>r s'. tbind (\<lambda>s. Some (r3, s3)) (\<lambda>x. tbind (get_file_entry_from_inode x) lookup_tail) s2
            = Some (r, s') \<and> is_state K3 F D s'"
        proof (cases r3)
          case (Inl e)
          with c show ?thesis by (simp add: tbind_def)
        next
          case (Inr ino)
          have "keeps K3 F D (tbind (get_file_entry_from_inode ino) lookup_tail)"
            by (intro keeps_bind_inode keeps_lookup_tail)
          with c Inr show ?thesis by (simp add: tbind_def keeps_def)
        qed
        then obtain r' s' where r': "tbind (\<lambda>s. Some (r3, s3)) (\<lambda>x. tbind (get_file_entry_from_inode x) lookup_tail) s2
            = Some (r', s')" "is_state K3 F D s'" by blast
        have "tmpfs_lookup A E ps n fl s = Some (r', s')"
          unfolding def using le Inl True c r'(1)
          by (simp add: tbind_def split: sum.splits option.splits)
        with c(2) r'(2) show ?thesis by blast
      qed
    qed
  qed
qed

text \<open>Opening adds a descriptor, closing removes one.\<close>

lemma open_ok:
  assumes "is_state K F D s"
  shows "\<exists>r s' F'. tmpfs_open E ino s = Some (r, s') \<and> is_state K F' D s' \<and>
    F' = (case r of Inl e \<Rightarrow> F | Inr (fd, t) \<Rightarrow> F(fd \<mapsto> ino)) \<and>
    (case r of Inl e \<Rightarrow> e \<in> {ENOENT, ELOOP, EINVAL} | Inr (fd, t) \<Rightarrow> K ino = Some t \<and> (\<exists>s1. is_state K F D s1 \<and> fd = new_pseudo E s1))"
proof (cases "tm_inodes s ino")
  case None
  then have "tmpfs_open E ino s = Some (Inl ENOENT, s)"
    by (simp add: tmpfs_open_def tbind_def get_file_entry_from_inode_def tthrow_def)
  with assms show ?thesis by simp
next
  case (Some f)
  then have k: "K ino = Some (te_type f)" using assms by (auto simp: is_state_def kind_def)
  obtain s1 where s1: "upd ino (\<lambda>d. d\<lparr>te_access_time := now E 0\<rparr>) s = Some (Inr (), s1)" "is_state K F D s1"
    using upd_access[OF assms, of ino] k by blast
  have "tmpfs_open E ino s =
     (if te_type f = FT_SYMBOLIC_LINK then Some (Inl ELOOP, s)
      else if te_type f \<noteq> FT_REGULAR_FILE \<and> te_type f \<noteq> FT_DIRECTORY then Some (Inl EINVAL, s)
      else Some (Inr (new_pseudo E s1, te_type f), s1\<lparr>tm_pseudo_fds := (tm_pseudo_fds s1)(new_pseudo E s1 \<mapsto> ino)\<rparr>))"
    using Some s1(1)
    by (simp add: tmpfs_open_def tbind_def get_file_entry_from_inode_def tret_def tthrow_def deref_def Let_def)
  moreover have "is_state K (F(new_pseudo E s1 \<mapsto> ino)) D (s1\<lparr>tm_pseudo_fds := (tm_pseudo_fds s1)(new_pseudo E s1 \<mapsto> ino)\<rparr>)"
    using s1(2) k by (auto simp: is_state_def tmpfs_ok_def)
  ultimately show ?thesis using assms s1(2) k by auto
qed

lemma close_ok:
  assumes "is_state K F D s"
  shows "tmpfs_close fd s = (case F fd of None \<Rightarrow> Some (Inl EBADF, s)
      | Some p \<Rightarrow> Some (Inr (), s\<lparr>tm_pseudo_fds := F(fd := None)\<rparr>)) \<and>
    is_state K (F(fd := None)) D (s\<lparr>tm_pseudo_fds := F(fd := None)\<rparr>)"
  using assms by (auto simp: tmpfs_close_def is_state_def tmpfs_ok_def tret_def tthrow_def split: option.splits)

subsection \<open>What the methods do\<close>

text \<open>The entry that a descriptor refers to, and the entry that a directory has under a name.\<close>

definition file_of :: "tmpfs \<Rightarrow> u64 \<Rightarrow> tmpfs_file_entry option" where
  "file_of s fd = Option.bind (tm_pseudo_fds s fd) (tm_inodes s)"

definition entry_at :: "tmpfs \<Rightarrow> u64 \<Rightarrow> bytes \<Rightarrow> u64 option" where
  "entry_at s fd n = Option.bind (file_of s fd) (\<lambda>d. map_find n (te_files d))"

lemma file_of_cases:
  assumes "file_of s fd = Some d"
  obtains p where "tm_pseudo_fds s fd = Some p" "tm_inodes s p = Some d"
  using assms by (auto simp: file_of_def bind_eq_Some_iff)

lemmas tm_simps = tbind_def deref_def upd_def get_file_entry_from_pseudo_def get_file_entry_from_inode_def
  tret_def tthrow_def

lemma ok_entry: "tmpfs_ok s \<Longrightarrow> tm_inodes s p = Some f \<Longrightarrow> te_inode f = p \<and> map_wf (te_files f)"
  by (auto simp: tmpfs_ok_def entry_ok_def)

text \<open>Creating makes the entry that a lookup then finds, and changes no other name.\<close>

lemma create_result:
  assumes ok: "tmpfs_ok s" and d: "file_of s ps = Some d"
    and fr: "tm_inodes s (new_entry E s) = None"
  shows "tmpfs_create E t ps n ty s =
    (if entry_at s ps n \<noteq> None then Some (Inl EEXIST, s)
     else Some (Inr (new_entry E s),
       s\<lparr>tm_inodes := (tm_inodes s)(new_entry E s \<mapsto> \<lparr>te_device = tm_device s, te_inode = new_entry E s, te_type = ty,
            te_files = (if ty = FT_DIRECTORY then map_set dotdotb (the (tm_pseudo_fds s ps)) (map_set dotb (new_entry E s) []) else []),
            te_contents = [], te_hardlinks = 1, te_access_time = t, te_content_time = t, te_metadata_time = t\<rparr>,
          the (tm_pseudo_fds s ps) \<mapsto> d\<lparr>te_files := map_set n (new_entry E s) (te_files d),
            te_content_time := t, te_metadata_time := t\<rparr>)\<rparr>))"
proof -
  obtain p where p: "tm_pseudo_fds s ps = Some p" "tm_inodes s p = Some d" using file_of_cases[OF d] .
  with fr have "p \<noteq> new_entry E s" by auto
  with p show ?thesis by (simp add: tmpfs_create_def tm_simps entry_at_def file_of_def Let_def)
qed

lemma keepsD: "keeps K F D m \<Longrightarrow> is_state K F D s \<Longrightarrow> m s = Some (r, s') \<Longrightarrow> is_state K F D s'"
  unfolding keeps_def by fastforce

lemma lookup_found:
  assumes ok: "tmpfs_ok s" and d: "file_of s ps = Some d" "te_type d = FT_DIRECTORY"
    and q: "entry_at s ps n = Some q" "tm_inodes s q = Some f" and n: "n \<noteq> []"
    and fl: "\<not> has fl (FILE_CONST A O_EXCL)"
  shows "\<exists>st s'. tmpfs_lookup A E ps n fl s = Some (Inr (q, st), s') \<and>
    st_ino st = q \<and> st_dev st = te_device f \<and> st_filetype st = te_type f \<and>
    st_size st = st_size (file_entry_to_filestat f) \<and>
    s' = s\<lparr>tm_inodes := (tm_inodes s)(the (tm_pseudo_fds s ps) \<mapsto> d\<lparr>te_access_time := now E 0\<rparr>)\<rparr>"
proof -
  obtain p where p: "tm_pseudo_fds s ps = Some p" "tm_inodes s p = Some d" using file_of_cases[OF d(1)] .
  let ?s = "s\<lparr>tm_inodes := (tm_inodes s)(p \<mapsto> d\<lparr>te_access_time := now E 0\<rparr>)\<rparr>"
  have u: "upd p (\<lambda>d. d\<lparr>te_access_time := now E 0\<rparr>) s = Some (Inr (), ?s)" using p by (simp add: upd_def)
  have i: "te_inode d = p" "te_inode f = q" using ok_entry[OF ok] p q by auto
  have find: "map_find n (te_files d) = Some q" using q d by (simp add: entry_at_def)
  have "tmpfs_lookup_entry A p n fl ?s = Some (Inr q, ?s)"
    using i find n fl d(2) by (simp add: tmpfs_lookup_entry_def tm_simps)
  then have "tmpfs_lookup A E ps n fl s = lookup_tail q ?s"
    by (simp add: tmpfs_lookup_cases[OF p(1) refl u])
  moreover have "\<exists>st. lookup_tail q ?s = Some (Inr (q, st), ?s) \<and> st_ino st = q \<and> st_dev st = te_device f \<and>
      st_filetype st = te_type f \<and> st_size st = st_size (file_entry_to_filestat f)"
    using q(2) i p by (cases "p = q") (auto simp: lookup_tail_def tm_simps file_entry_to_filestat_def)
  ultimately show ?thesis using p by auto
qed

lemma lookup_missing:
  assumes ok: "tmpfs_ok s" and d: "file_of s ps = Some d" "te_type d = FT_DIRECTORY"
    and q: "entry_at s ps n = None" and n: "n \<noteq> []" and fl: "\<not> has fl (FILE_CONST A O_CREAT)"
  shows "tmpfs_lookup A E ps n fl s =
    Some (Inl ENOENT, s\<lparr>tm_inodes := (tm_inodes s)(the (tm_pseudo_fds s ps) \<mapsto> d\<lparr>te_access_time := now E 0\<rparr>)\<rparr>)"
proof -
  obtain p where p: "tm_pseudo_fds s ps = Some p" "tm_inodes s p = Some d" using file_of_cases[OF d(1)] .
  let ?s = "s\<lparr>tm_inodes := (tm_inodes s)(p \<mapsto> d\<lparr>te_access_time := now E 0\<rparr>)\<rparr>"
  have u: "upd p (\<lambda>d. d\<lparr>te_access_time := now E 0\<rparr>) s = Some (Inr (), ?s)" using p by (simp add: upd_def)
  have "te_inode d = p" using ok_entry[OF ok] p by auto
  moreover have "map_find n (te_files d) = None" using q d by (simp add: entry_at_def)
  ultimately have "tmpfs_lookup_entry A p n fl ?s = Some (Inl ENOENT, ?s)"
    using n d(2) by (simp add: tmpfs_lookup_entry_def tm_simps)
  then show ?thesis using fl p by (simp add: tmpfs_lookup_cases[OF p(1) refl u])
qed

text \<open>What one update of an entry does to the names that descriptors see.\<close>

lemma file_of_upd:
  "file_of (s\<lparr>tm_inodes := (tm_inodes s)(p \<mapsto> f)\<rparr>) fd =
     (if tm_pseudo_fds s fd = Some p then Some f else file_of s fd)"
  by (cases "tm_pseudo_fds s fd") (auto simp: file_of_def)

lemma is_stateI: "tmpfs_ok s \<Longrightarrow> is_state (kind s) (tm_pseudo_fds s) (tm_device s) s"
  by (simp add: is_state_def)

lemma file_of_dir: "file_of s ps = Some d \<Longrightarrow> te_type d = FT_DIRECTORY \<Longrightarrow>
  tm_pseudo_fds s ps = Some p \<Longrightarrow> kind s p = Some FT_DIRECTORY"
  by (auto simp: file_of_def kind_def)

lemma create_ok:
  assumes ok: "tmpfs_ok s" and d: "file_of s ps = Some d" "te_type d = FT_DIRECTORY"
    and fr: "fresh_entries E (kind s)" and c: "tmpfs_create E t ps n ty s = Some (r, s')"
  shows "tmpfs_ok s'" "kind s \<subseteq>\<^sub>m kind s'"
proof -
  have "grows (kind s) (tm_pseudo_fds s) (tm_device s) (tmpfs_create E t ps n ty)"
    by (rule grows_create[OF _ fr]) (rule file_of_dir[OF d])
  with is_stateI[OF ok] c show "tmpfs_ok s'" "kind s \<subseteq>\<^sub>m kind s'"
    by (auto simp: grows_def is_state_def)
qed

text \<open>
  C25: Creating an entry succeeds under a new name, makes an empty entry of the type asked for at an
  unused address that a lookup then finds, and changes no other name of any directory.
\<close>

theorem create_lookup:
  assumes ok: "tmpfs_ok s" and d: "file_of s ps = Some d" "te_type d = FT_DIRECTORY"
    and fr: "fresh_entries E (kind s)" and n: "n \<noteq> []" "entry_at s ps n = None"
  shows "\<exists>q s' st s''. tmpfs_create E t ps n ty s = Some (Inr q, s') \<and> tmpfs_ok s' \<and>
    kind s q = None \<and> kind s' = (kind s)(q \<mapsto> ty) \<and>
    (\<forall>fd m. tm_pseudo_fds s fd \<noteq> None \<longrightarrow>
       entry_at s' fd m = (if tm_pseudo_fds s fd = tm_pseudo_fds s ps \<and> m = n then Some q else entry_at s fd m)) \<and>
    tmpfs_lookup A E ps n 0 s' = Some (Inr (q, st), s'') \<and> st_ino st = q \<and> st_filetype st = ty \<and> st_size st = 0"
proof -
  obtain p where p: "tm_pseudo_fds s ps = Some p" "tm_inodes s p = Some d" using file_of_cases[OF d(1)] .
  let ?q = "new_entry E s"
  have q: "tm_inodes s ?q = None" using fr by (auto simp: fresh_entries_def kind_def)
  with p have pq: "p \<noteq> ?q" by auto
  let ?f = "\<lparr>te_device = tm_device s, te_inode = ?q, te_type = ty,
            te_files = (if ty = FT_DIRECTORY then map_set dotdotb p (map_set dotb ?q []) else []),
            te_contents = [], te_hardlinks = 1, te_access_time = t, te_content_time = t, te_metadata_time = t\<rparr>"
  let ?d = "d\<lparr>te_files := map_set n ?q (te_files d), te_content_time := t, te_metadata_time := t\<rparr>"
  define s' where "s' = s\<lparr>tm_inodes := (tm_inodes s)(?q \<mapsto> ?f, p \<mapsto> ?d)\<rparr>"
  have c: "tmpfs_create E t ps n ty s = Some (Inr ?q, s')"
    using create_result[OF ok d(1) q, of t n ty] n(2) p by (simp add: s'_def)
  have ok': "tmpfs_ok s'" using create_ok(1)[OF ok d fr c] .
  have k: "kind s' = (kind s)(?q \<mapsto> ty)" using pq p by (auto simp: s'_def kind_def fun_eq_iff)
  have wf: "map_wf (te_files d)" using ok_entry[OF ok p(2)] by simp
  have e: "entry_at s' fd m = (if tm_pseudo_fds s fd = tm_pseudo_fds s ps \<and> m = n then Some ?q else entry_at s fd m)"
    if ex: "tm_pseudo_fds s fd \<noteq> None" for fd m
  proof -
    obtain p' where p': "tm_pseudo_fds s fd = Some p'" using ex by auto
    then have "kind s p' \<noteq> None" using ok by (auto simp: tmpfs_ok_def)
    then have "p' \<noteq> ?q" using q by (auto simp: kind_def)
    with p' p pq show ?thesis
      by (auto simp: entry_at_def file_of_def s'_def dirmap.find_set[OF wf])
  qed
  have "file_of s' ps = Some ?d" using p by (simp add: file_of_def s'_def)
  moreover have "entry_at s' ps n = Some ?q" using e[of ps n] p by simp
  moreover have "tm_inodes s' ?q = Some ?f" using pq by (simp add: s'_def)
  ultimately obtain st s'' where "tmpfs_lookup A E ps n 0 s' = Some (Inr (?q, st), s'')" "st_ino st = ?q"
      "st_filetype st = ty" "st_size st = 0"
    using lookup_found[OF ok', of ps ?d n ?q ?f 0 A E] d(2) n(1) by (auto simp: has_def file_entry_to_filestat_def)
  with c ok' k e q show ?thesis by (intro exI[of _ ?q] exI[of _ s']) (auto simp: kind_def)
qed

text \<open>
  C26: After a name has been unlinked a lookup of it fails, every other name of every directory is as
  before and no entry has vanished.
\<close>

theorem unlink_lookup:
  assumes ok: "tmpfs_ok s" and d: "file_of s ps = Some d" "te_type d = FT_DIRECTORY"
    and n: "n \<noteq> []" "n \<noteq> dotb" "n \<noteq> dotdotb"
    and u: "tmpfs_unlink A E ps n fl s = Some (Inr (), s')"
  shows "tmpfs_ok s' \<and> kind s' = kind s \<and>
    (\<forall>fd m. entry_at s' fd m = (if tm_pseudo_fds s fd = tm_pseudo_fds s ps \<and> m = n then None else entry_at s fd m)) \<and>
    (\<exists>s''. tmpfs_lookup A E ps n 0 s' = Some (Inl ENOENT, s''))"
proof -
  obtain p where p: "tm_pseudo_fds s ps = Some p" "tm_inodes s p = Some d" using file_of_cases[OF d(1)] .
  have st: "is_state (kind s) (tm_pseudo_fds s) (tm_device s) s'"
    by (rule keepsD[OF keeps_unlink[OF n(2,3)] is_stateI[OF ok] u])
  then have ok': "tmpfs_ok s'" "kind s' = kind s" by (simp_all add: is_state_def)
  obtain q where q1: "map_find n (te_files d) = Some q"
    using u p by (cases "map_find n (te_files d)") (auto simp: tmpfs_unlink_def tm_simps)
  obtain f where q2: "tm_inodes s q = Some f"
    using u p q1 by (cases "tm_inodes s q") (auto simp: tmpfs_unlink_def tm_simps)
  have q3: "m = dotb \<or> m = dotdotb" if "te_type f = FT_DIRECTORY" "(m, x) \<in> set (te_files f)" for m x
    using u p q1 q2 that by (auto simp: tmpfs_unlink_def tm_simps Let_def split: if_splits)
  note q = q1 q2 q3
  have pq: "p \<noteq> q"
  proof
    assume "p = q"
    then have "f = d" using p q by simp
    moreover have "(n, q) \<in> set (te_files d)"
      using q(1) ok_entry[OF ok p(2)] dirmap.in_items[of "te_files d" n q] by simp
    ultimately show False using q(3)[of n q] d(2) n(2,3) by auto
  qed
  let ?d = "d\<lparr>te_files := map_erase n (te_files d), te_content_time := now E 0, te_metadata_time := now E 0\<rparr>"
  let ?f = "f\<lparr>te_hardlinks := te_hardlinks f - 1, te_metadata_time := now E 0\<rparr>"
  have s': "s' = s\<lparr>tm_inodes := (tm_inodes s)(p \<mapsto> ?d, q \<mapsto> ?f)\<rparr>"
    using u p q1 q2 pq by (auto simp: tmpfs_unlink_def tm_simps Let_def split: if_splits)
  have wf: "map_wf (te_files d)" using ok_entry[OF ok p(2)] by simp
  have e: "entry_at s' fd m = (if tm_pseudo_fds s fd = tm_pseudo_fds s ps \<and> m = n then None else entry_at s fd m)" for fd m
    using p pq q(2) by (cases "tm_pseudo_fds s fd") (auto simp: entry_at_def file_of_def s' dirmap.find_erase[OF wf])
  have "file_of s' ps = Some ?d" using p pq by (simp add: file_of_def s')
  with lookup_missing[OF ok'(1), of ps ?d n 0 A E] e[of ps n] d(2) n(1) ok' e show ?thesis
    by (simp add: has_def)
qed

text \<open>
  C27: A symbolic link can be made under every unused name, and reading it gives its target, cut to
  the length of the buffer.
\<close>

theorem symlink_readlink:
  assumes ok: "tmpfs_ok s" and d: "file_of s ps = Some d" "te_type d = FT_DIRECTORY"
    and fr: "fresh_entries E (kind s)" and n: "entry_at s ps n = None" and tgt: "length tgt < 2 ^ 32"
  shows "\<exists>s' s''. tmpfs_symlink E ps tgt n s = Some (Inr (), s') \<and> tmpfs_ok s' \<and>
    tmpfs_readlink E ps n len s' = Some (Inr (take len tgt), s'')"
proof -
  obtain p where p: "tm_pseudo_fds s ps = Some p" "tm_inodes s p = Some d" using file_of_cases[OF d(1)] .
  let ?q = "new_entry E s"
  have q: "tm_inodes s ?q = None" using fr by (auto simp: fresh_entries_def kind_def)
  with p have pq: "p \<noteq> ?q" by auto
  have wf: "map_wf (te_files d)" using ok_entry[OF ok p(2)] by simp
  have find: "map_find n (te_files d) = None" using n d by (simp add: entry_at_def)
  obtain s' where s': "tmpfs_symlink E ps tgt n s = Some (Inr (), s')"
    and i: "tm_inodes s' p = Some (d\<lparr>te_files := map_set n ?q (te_files d), te_content_time := now E 1, te_metadata_time := now E 1\<rparr>)"
      "\<exists>f. tm_inodes s' ?q = Some f \<and> te_type f = FT_SYMBOLIC_LINK \<and> te_contents f = tgt"
      "tm_pseudo_fds s' = tm_pseudo_fds s"
    using p pq find by (simp add: tmpfs_symlink_def tm_simps Let_def)
  have "grows (kind s) (tm_pseudo_fds s) (tm_device s) (tmpfs_symlink E ps tgt n)"
    by (rule grows_symlink[OF _ fr tgt]) (rule file_of_dir[OF d])
  with is_stateI[OF ok] s' have "tmpfs_ok s'" by (auto simp: grows_def is_state_def)
  moreover have "\<exists>s''. tmpfs_readlink E ps n len s' = Some (Inr (take len tgt), s'')"
    using i p dirmap.find_set[OF wf, of n n ?q] by (auto simp: tmpfs_readlink_def tm_simps)
  ultimately show ?thesis using s' by blast
qed

text \<open>
  Writing and reading, for offsets that fit in the address space: \<open>write_at\<close> is a byte-wise
  specification, with zeros in a gap between the old end and the offset.
\<close>

definition write_at :: "nat \<Rightarrow> bytes \<Rightarrow> bytes \<Rightarrow> bytes" where
  "write_at off buf c =
     map (\<lambda>i. if off \<le> i \<and> i < off + length buf then buf ! (i - off) else if i < length c then c ! i else 0)
         [0..<max (length c) (off + length buf)]"

lemma length_write_at [simp]: "length (write_at off buf c) = max (length c) (off + length buf)"
  by (simp add: write_at_def)

lemma splice_write_at:
  assumes "c1 = (if length c < off + length buf then resize (off + length buf) c else c)"
  shows "take off c1 @ buf @ drop (off + length buf) c1 = write_at off buf c"
proof (rule nth_equalityI)
  have l: "length c1 = max (length c) (off + length buf)" using assms by (auto simp: resize_def)
  show len: "length (take off c1 @ buf @ drop (off + length buf) c1) = length (write_at off buf c)"
    using l by simp
  fix i assume "i < length (take off c1 @ buf @ drop (off + length buf) c1)"
  then have i: "i < max (length c) (off + length buf)" using len by simp
  have c1: "c1 ! i = (if i < length c then c ! i else 0)"
    using assms i by (auto simp: resize_def nth_append)
  have t: "length (take off c1) = off" using l by simp
  show "(take off c1 @ buf @ drop (off + length buf) c1) ! i = write_at off buf c ! i"
    using i c1 t l by (auto simp: nth_append write_at_def not_less)
qed

lemma take_drop_write_at: "take (length buf) (drop off (write_at off buf c)) = buf"
  by (rule nth_equalityI) (auto simp: write_at_def)

lemma pwrite_result:
  assumes f: "file_of s ps = Some f" "te_type f = FT_REGULAR_FILE"
    and o: "unat offset + length buf < 2 ^ 32"
  shows "tmpfs_pwrite E ps offset buf s =
    Some (Inr (), s\<lparr>tm_inodes := (tm_inodes s)(the (tm_pseudo_fds s ps) \<mapsto>
      f\<lparr>te_contents := write_at (unat offset) buf (te_contents f), te_content_time := now E 0\<rparr>)\<rparr>)"
proof -
  obtain p where p: "tm_pseudo_fds s ps = Some p" "tm_inodes s p = Some f" using file_of_cases[OF f(1)] .
  let ?m = "offset + of_nat (length buf)"
  have m: "unat ?m = unat offset + length buf"
    using o by (simp add: unat_word_ariths unat_of_nat)
  then have sm: "sint ?m = int (unat offset + length buf)"
    using o sint_small[of ?m] by simp
  have um: "unat (ucast ?m :: u32) = unat offset + length buf"
    using m o by (simp add: unsigned_ucast_eq take_bit_nat_eq_self)
  have uo: "unat (ucast offset :: u32) = unat offset"
    using o by (simp add: unsigned_ucast_eq take_bit_nat_eq_self)
  let ?c = "te_contents f"
  let ?c1 = "if length ?c < unat offset + length buf then resize (unat offset + length buf) ?c else ?c"
  note sp = splice_write_at[of ?c1 ?c "unat offset" buf, OF refl]
  show ?thesis
  proof (cases "length ?c < unat offset + length buf")
    case True
    have "unat offset \<le> length (resize (unat offset + length buf) ?c)" by (simp add: resize_def)
    with True p f(2) sp show ?thesis
      by (simp add: tmpfs_pwrite_def tm_simps Let_def sm um uo del: of_nat_add)
  next
    case False
    with p f(2) sp show ?thesis
      by (simp add: tmpfs_pwrite_def tm_simps Let_def sm um uo del: of_nat_add)
  qed
qed

lemma pread_result:
  assumes f: "file_of s ps = Some f" "te_type f = FT_REGULAR_FILE"
    and o: "unat offset < 2 ^ 63" "length (te_contents f) < 2 ^ 32"
  shows "tmpfs_pread E ps offset requested s =
    Some (Inr (take (unat requested) (drop (unat offset) (te_contents f))),
      s\<lparr>tm_inodes := (tm_inodes s)(the (tm_pseudo_fds s ps) \<mapsto> f\<lparr>te_access_time := now E 0\<rparr>)\<rparr>)"
proof -
  obtain p where p: "tm_pseudo_fds s ps = Some p" "tm_inodes s p = Some f" using file_of_cases[OF f(1)] .
  let ?c = "te_contents f"
  have so: "sint offset = int (unat offset)" using o(1) by (rule sint_small)
  have cmp: "int (length ?c) < sint offset \<longleftrightarrow> length ?c < unat offset"
    by (simp only: so of_nat_less_iff)
  show ?thesis
  proof (cases "unat offset > length ?c")
    case True
    with p f(2) show ?thesis by (simp add: tmpfs_pread_def tm_simps cmp)
  next
    case False
    then have uo: "unat (ucast offset :: u32) = unat offset"
      using o(2) by (simp add: unsigned_ucast_eq take_bit_nat_eq_self)
    have ul: "unat (of_nat (length ?c) :: u32) = length ?c" using o(2) by (simp add: unat_of_nat take_bit_nat_eq_self)
    have "(ucast offset :: u32) \<le> of_nat (length ?c)" using False by (simp add: word_le_nat_alt uo ul)
    then have ur: "unat (of_nat (length ?c) - ucast offset :: u32) = length ?c - unat offset"
      by (simp add: unat_sub uo ul)
    let ?ret = "if of_nat (length ?c) - ucast offset < requested then of_nat (length ?c) - ucast offset else requested :: u32"
    have r: "unat ?ret = min (length ?c - unat offset) (unat requested)"
      by (auto simp: word_less_nat_alt ur)
    have "take (unat ?ret) (drop (unat offset) ?c) = take (unat requested) (drop (unat offset) ?c)"
      unfolding r by (cases "length ?c - unat offset \<le> unat requested") (simp_all add: min_def)
    moreover have "unat offset + unat ?ret \<le> length ?c" using False unfolding r by simp
    ultimately show ?thesis using p f(2) False
      by (simp add: tmpfs_pread_def tm_simps cmp Let_def uo del: if_split split: if_split_asm)
  qed
qed

text \<open>
  C28: What is written at a position is read back from there; the bytes around it are kept, a gap is
  filled with zeros, and no other file changes.
\<close>

theorem pwrite_pread:
  assumes f: "file_of s ps = Some f" "te_type f = FT_REGULAR_FILE" "length (te_contents f) < 2 ^ 32"
    and o: "unat offset + length buf < 2 ^ 32"
  shows "\<exists>s' s''. tmpfs_pwrite E ps offset buf s = Some (Inr (), s') \<and>
    tmpfs_pread E ps offset (of_nat (length buf)) s' = Some (Inr buf, s'') \<and>
    (\<exists>g. file_of s' ps = Some g \<and> te_contents g = write_at (unat offset) buf (te_contents f)) \<and>
    (\<forall>p. tm_pseudo_fds s ps \<noteq> Some p \<longrightarrow> tm_inodes s' p = tm_inodes s p)"
proof -
  obtain p where p: "tm_pseudo_fds s ps = Some p" "tm_inodes s p = Some f" using file_of_cases[OF f(1)] .
  let ?g = "f\<lparr>te_contents := write_at (unat offset) buf (te_contents f), te_content_time := now E 0\<rparr>"
  let ?s = "s\<lparr>tm_inodes := (tm_inodes s)(p \<mapsto> ?g)\<rparr>"
  have w: "tmpfs_pwrite E ps offset buf s = Some (Inr (), ?s)"
    using pwrite_result[OF f(1,2) o] p by simp
  have g: "file_of ?s ps = Some ?g" using p by (simp add: file_of_def)
  have ub: "unat (of_nat (length buf) :: u32) = length buf" using o by (simp add: unat_of_nat take_bit_nat_eq_self)
  have "\<exists>s''. tmpfs_pread E ps offset (of_nat (length buf)) ?s = Some (Inr buf, s'')"
    using pread_result[OF g, of offset E "of_nat (length buf)"] f(2,3) o
    by (simp add: ub take_drop_write_at)
  with w g p show ?thesis by - (rule exI[of _ ?s], auto)
qed

lemma file_of_None:
  assumes "is_state K F D s" "file_of s ps = None" shows "tm_pseudo_fds s ps = None"
proof (rule ccontr)
  assume "tm_pseudo_fds s ps \<noteq> None"
  then obtain p where p: "tm_pseudo_fds s ps = Some p" by auto
  with assms(1) have "kind s p \<noteq> None" by (auto simp: is_state_def tmpfs_ok_def)
  with p assms(2) show False by (simp add: file_of_def kind_def)
qed

lemma keeps_pread:
  assumes "unat offset < 2 ^ 63"
  shows "keeps K F D (tmpfs_pread E ps offset n)"
  unfolding keeps_def
proof (intro allI impI)
  fix s assume s: "is_state K F D s"
  have keep: "keeps K F D (tbind (get_file_entry_from_pseudo ps) (\<lambda>p. tbind (deref p) (\<lambda>f.
      if te_type f \<noteq> FT_REGULAR_FILE then tthrow EBADF else upd p (\<lambda>f. f\<lparr>te_access_time := now E 0\<rparr>))))"
    by (intro keeps_intros; (simp | blast)?)
  then obtain r s' where r: "tbind (get_file_entry_from_pseudo ps) (\<lambda>p. tbind (deref p) (\<lambda>f.
      if te_type f \<noteq> FT_REGULAR_FILE then tthrow EBADF else upd p (\<lambda>f. f\<lparr>te_access_time := now E 0\<rparr>))) s
      = Some (r, s')" "is_state K F D s'" using s unfolding keeps_def by blast
  show "\<exists>r s'. tmpfs_pread E ps offset n s = Some (r, s') \<and> is_state K F D s'"
  proof (cases "file_of s ps")
    case (Some f)
    obtain p where p: "tm_pseudo_fds s ps = Some p" "tm_inodes s p = Some f" using file_of_cases[OF Some] .
    then have "length (te_contents f) < 2 ^ 32" using s by (auto simp: is_state_def tmpfs_ok_def entry_ok_def)
    with p r s assms pread_result[OF Some, of offset E n] show ?thesis
      by (cases "te_type f = FT_REGULAR_FILE") (auto simp: tmpfs_pread_def tm_simps)
  next
    case None
    with s file_of_None[OF s] show ?thesis by (simp add: tmpfs_pread_def tm_simps)
  qed
qed

lemma keeps_pwrite:
  assumes "unat offset + length buf < 2 ^ 32"
  shows "keeps K F D (tmpfs_pwrite E ps offset buf)"
  unfolding keeps_def
proof (intro allI impI)
  fix s assume s: "is_state K F D s"
  show "\<exists>r s'. tmpfs_pwrite E ps offset buf s = Some (r, s') \<and> is_state K F D s'"
  proof (cases "file_of s ps")
    case (Some f)
    obtain p where p: "tm_pseudo_fds s ps = Some p" "tm_inodes s p = Some f" using file_of_cases[OF Some] .
    let ?g = "\<lambda>f. f\<lparr>te_contents := write_at (unat offset) buf (te_contents f), te_content_time := now E 0\<rparr>"
    have "keeps K F D (upd p ?g)"
    proof (rule keeps_upd)
      show "K p \<noteq> None" using p s by (auto simp: is_state_def kind_def)
      fix f assume "entry_ok K D p f"
      moreover from this have "length (te_contents f) < 2 ^ 32" by (simp add: entry_ok_def)
      ultimately show "entry_ok K D p (?g f) \<and> te_type (?g f) = te_type f" using assms by simp
    qed
    with s p obtain s' where "is_state K F D s'" "s' = s\<lparr>tm_inodes := (tm_inodes s)(p \<mapsto> ?g f)\<rparr>"
      by (auto simp: keeps_def upd_def)
    with p s assms pwrite_result[OF Some, of offset buf E] show ?thesis
      by (cases "te_type f = FT_REGULAR_FILE") (auto simp: tmpfs_pwrite_def tm_simps)
  next
    case None
    with s file_of_None[OF s] show ?thesis by (simp add: tmpfs_pwrite_def tm_simps)
  qed
qed

subsection \<open>A small file system\<close>

text \<open>
  For concrete runs: a root directory at address 1 with a regular file \<^verbatim>\<open>a\<close> at address 4, open
  as descriptors 0 and 9; the next entry goes to address 2.
\<close>

definition sample_env :: tmpfs_env where
  "sample_env = \<lparr>new_entry = (\<lambda>s. 2), new_pseudo = (\<lambda>s. 3), now = (\<lambda>i. 5)\<rparr>"

definition sample_tmpfs :: tmpfs where
  "sample_tmpfs = \<lparr>tm_device = 7,
     tm_inodes = [1 \<mapsto> \<lparr>te_device = 7, te_inode = 1, te_type = FT_DIRECTORY,
         te_files = [(dotb, 1), (dotdotb, 1), ([0x61], 4)], te_contents = [], te_hardlinks = 1,
         te_access_time = 5, te_content_time = 5, te_metadata_time = 5\<rparr>,
       4 \<mapsto> \<lparr>te_device = 7, te_inode = 4, te_type = FT_REGULAR_FILE, te_files = [], te_contents = [1, 2, 3],
         te_hardlinks = 1, te_access_time = 5, te_content_time = 5, te_metadata_time = 5\<rparr>],
     tm_pseudo_fds = [0 \<mapsto> 1, 9 \<mapsto> 4]\<rparr>"

lemma sample_ok: "tmpfs_ok sample_tmpfs"
  by (auto simp: tmpfs_ok_def sample_tmpfs_def entry_ok_def kind_def map_wf_def dotb_def dotdotb_def split: if_splits)

lemma sample_fresh: "fresh_entries sample_env (kind sample_tmpfs)"
  by (simp add: fresh_entries_def sample_env_def sample_tmpfs_def kind_def)

lemma sample_files:
  "file_of sample_tmpfs 0 = tm_inodes sample_tmpfs 1" "file_of sample_tmpfs 9 = tm_inodes sample_tmpfs 4"
  "\<exists>d. tm_inodes sample_tmpfs 1 = Some d \<and> te_type d = FT_DIRECTORY"
  "\<exists>f. tm_inodes sample_tmpfs 4 = Some f \<and> te_type f = FT_REGULAR_FILE \<and> te_contents f = [1, 2, 3]"
  "entry_at sample_tmpfs 0 [0x62] = None"
  by (simp_all add: sample_tmpfs_def file_of_def entry_at_def dotb_def dotdotb_def)

theorem create_lookup_witness:
  "\<exists>q s' st s''. tmpfs_create sample_env 5 0 [0x62] FT_DIRECTORY sample_tmpfs = Some (Inr q, s') \<and> tmpfs_ok s' \<and>
    kind sample_tmpfs q = None \<and> tmpfs_lookup sample_abi sample_env 0 [0x62] 0 s' = Some (Inr (q, st), s'') \<and>
    st_ino st = q \<and> st_filetype st = FT_DIRECTORY"
proof -
  obtain d where d: "file_of sample_tmpfs 0 = Some d" "te_type d = FT_DIRECTORY" using sample_files by auto
  from create_lookup[OF sample_ok d sample_fresh, of "[0x62]" 5 FT_DIRECTORY sample_abi] sample_files(5)
  show ?thesis by fastforce
qed

theorem unlink_lookup_witness:
  "\<exists>s' s''. tmpfs_unlink sample_abi sample_env 0 [0x61] 0 sample_tmpfs = Some (Inr (), s') \<and> tmpfs_ok s' \<and>
     tmpfs_lookup sample_abi sample_env 0 [0x61] 0 s' = Some (Inl ENOENT, s'')"
proof -
  obtain d where d: "file_of sample_tmpfs 0 = Some d" "te_type d = FT_DIRECTORY" using sample_files by auto
  obtain s' where s': "tmpfs_unlink sample_abi sample_env 0 [0x61] 0 sample_tmpfs = Some (Inr (), s')"
    by (simp add: tmpfs_unlink_def tm_simps Let_def sample_tmpfs_def sample_abi_def has_def dotb_def dotdotb_def)
  from unlink_lookup[OF sample_ok d _ _ _ s'] s' show ?thesis by (auto simp: dotb_def dotdotb_def)
qed

theorem symlink_readlink_witness:
  "\<exists>s' s''. tmpfs_symlink sample_env 0 [0x61, 0x62, 0x63] [0x62] sample_tmpfs = Some (Inr (), s') \<and> tmpfs_ok s' \<and>
     tmpfs_readlink sample_env 0 [0x62] 2 s' = Some (Inr [0x61, 0x62], s'')"
proof -
  obtain d where d: "file_of sample_tmpfs 0 = Some d" "te_type d = FT_DIRECTORY" using sample_files by auto
  from symlink_readlink[OF sample_ok d sample_fresh sample_files(5), of "[0x61, 0x62, 0x63]" 2]
  show ?thesis by simp
qed

theorem pwrite_pread_witness:
  "\<exists>s' s''. tmpfs_pwrite sample_env 9 5 [8, 9] sample_tmpfs = Some (Inr (), s') \<and>
     tmpfs_pread sample_env 9 5 2 s' = Some (Inr [8, 9], s'') \<and>
     (\<exists>g. file_of s' 9 = Some g \<and> te_contents g = [1, 2, 3, 0, 0, 8, 9])"
proof -
  obtain f where f: "file_of sample_tmpfs 9 = Some f" "te_type f = FT_REGULAR_FILE" "te_contents f = [1, 2, 3]"
    using sample_files by auto
  have "write_at 5 [8, 9] [1, 2, 3] = [1, 2, 3, 0, 0, 8, 9]" by (simp add: write_at_def upt_rec)
  with pwrite_pread[OF f(1,2), of 5 "[8, 9]" sample_env] f(3) show ?thesis by fastforce
qed

end
