(* ===== verification/Tmpfs_Server.thy ===== *)
theory Tmpfs_Server
  imports Tmpfs
begin


text \<open>
  The temporary file system as a server: \<^verbatim>\<open>tmpfs\<close> overrides the methods of \<^verbatim>\<open>reverse_handler\<close>, and
  \<^verbatim>\<open>handle_request\<close> runs them. The theory shows that the server answers every request that the
  kernel may send, and what goes wrong with requests outside these limits.
\<close>

definition tmpfs_handler :: "cloudabi \<Rightarrow> tmpfs_env \<Rightarrow> tmpfs reverse_handler" where
  "tmpfs_handler A E = default_handler\<lparr>
     h_lookup := tmpfs_lookup A E, h_open := tmpfs_open E, h_link := (\<lambda>ps1 n1 _ ps2 n2. tmpfs_link E ps1 n1 ps2 n2),
     h_allocate := tmpfs_allocate E, h_readlink := tmpfs_readlink E, h_rename := tmpfs_rename E,
     h_symlink := tmpfs_symlink E, h_unlink := tmpfs_unlink A E, h_create := tmpfs_create E (now E 0),
     h_close := tmpfs_close, h_pread := tmpfs_pread E, h_pwrite := tmpfs_pwrite E,
     h_datasync := tmpfs_datasync, h_sync := tmpfs_sync, h_readdir := tmpfs_readdir A E,
     h_stat_fget := tmpfs_stat_fget, h_stat_fput := tmpfs_stat_fput A E,
     h_stat_put := (\<lambda>ps _ n st fl. tmpfs_stat_put A E ps n st fl), h_is_readable := tmpfs_is_readable\<rparr>"

definition tmpfs_serve ::
  "cloudabi \<Rightarrow> tmpfs_env \<Rightarrow> reverse_request \<Rightarrow> bytes \<Rightarrow> tmpfs \<Rightarrow> (reverse_response \<times> bytes \<times> tmpfs) option" where
  "tmpfs_serve A E = handle_request A (tmpfs_handler A E)"

subsection \<open>Requests that the server can answer\<close>

text \<open>
  The server relies on the kernel: operations on names come with a descriptor of a directory,
  \<^verbatim>\<open>.\<close> and \<^verbatim>\<open>..\<close> are not unlinked or replaced, and reads and writes stay within the first four
  gigabytes. Each condition is needed: without it the server ends or spoils its files.
\<close>

definition on_directory :: "tmpfs \<Rightarrow> u64 \<Rightarrow> bool" where
  "on_directory s ps \<longleftrightarrow> (\<forall>d. file_of s ps = Some d \<longrightarrow> te_type d = FT_DIRECTORY)"

definition plain_name :: "bytes \<Rightarrow> bool" where
  "plain_name n \<longleftrightarrow> n \<noteq> dotb \<and> n \<noteq> dotdotb"

definition second_name :: "bytes \<Rightarrow> bytes" where
  "second_name buf = drop (length (takeWhile (\<lambda>b. b \<noteq> 0) buf) + 1) buf"

definition request_ok :: "cloudabi \<Rightarrow> tmpfs \<Rightarrow> reverse_request \<Rightarrow> bytes \<Rightarrow> bool" where
  "request_ok A s rq buf \<longleftrightarrow>
     length buf = unat (rq_send_length rq) \<and>
     (case rq_op rq of
        OP_lookup \<Rightarrow> on_directory s (rq_pseudofd rq)
      | OP_create \<Rightarrow> on_directory s (rq_pseudofd rq)
      | OP_symlink \<Rightarrow> on_directory s (rq_pseudofd rq)
      | OP_unlink \<Rightarrow> plain_name buf
      | OP_link \<Rightarrow> on_directory s (rq_flags rq) \<and> plain_name (second_name buf)
      | OP_rename \<Rightarrow> on_directory s (rq_flags rq) \<and> plain_name (second_name buf)
      | OP_pread \<Rightarrow> unat (rq_offset rq) < 2 ^ 63
      | OP_pwrite \<Rightarrow>
          (if is_append A rq
           then \<forall>f. file_of s (rq_pseudofd rq) = Some f \<longrightarrow> length (te_contents f) + length buf < 2 ^ 32
           else unat (rq_offset rq) + length buf < 2 ^ 32)
      | _ \<Rightarrow> True)"

text \<open>
  \<open>answers m s\<close>: the method ends and keeps the invariant, the device and all entries;
  \<open>serves m s\<close>: moreover a response announces the number of bytes that follow it.
\<close>

definition answers :: "'a tm \<Rightarrow> tmpfs \<Rightarrow> bool" where
  "answers m s \<longleftrightarrow> (\<exists>r s'. m s = Some (r, s') \<and> tmpfs_ok s' \<and> tm_device s' = tm_device s \<and> kind s \<subseteq>\<^sub>m kind s')"

definition complete :: "reverse_response \<times> bytes \<Rightarrow> bool" where
  "complete rd \<longleftrightarrow> length (snd rd) = unat (rs_send_length (fst rd)) \<and> \<not> rs_gratituous (fst rd)"

definition serves :: "(reverse_response \<times> bytes) tm \<Rightarrow> tmpfs \<Rightarrow> bool" where
  "serves m s \<longleftrightarrow> answers m s \<and> (\<forall>rd s'. m s = Some (Inr rd, s') \<longrightarrow> complete rd)"

lemma answers_keeps: "keeps (kind s) (tm_pseudo_fds s) (tm_device s) m \<Longrightarrow> tmpfs_ok s \<Longrightarrow> answers m s"
  using is_stateI[of s] by (fastforce simp: keeps_def answers_def is_state_def)

lemma answers_grows: "grows (kind s) (tm_pseudo_fds s) (tm_device s) m \<Longrightarrow> tmpfs_ok s \<Longrightarrow> answers m s"
  using is_stateI[of s] by (fastforce simp: grows_def answers_def is_state_def)

lemma serves_bind:
  assumes "answers m s" "\<And>x s'. m s = Some (Inr x, s') \<Longrightarrow> \<exists>rd. f x = tret rd \<and> complete rd"
  shows "serves (tbind m f) s"
proof -
  from assms(1) obtain r s' where r: "m s = Some (r, s')"
    "tmpfs_ok s'" "tm_device s' = tm_device s" "kind s \<subseteq>\<^sub>m kind s'"
    unfolding answers_def by blast
  show ?thesis
  proof (cases r)
    case (Inl e)
    with r show ?thesis by (simp add: serves_def answers_def tbind_def)
  next
    case (Inr x)
    with assms(2)[of x s'] r obtain rd where "f x = tret rd" "complete rd" by blast
    with r Inr show ?thesis by (simp add: serves_def answers_def tbind_def tret_def)
  qed
qed

lemma serves_throw: "tmpfs_ok s \<Longrightarrow> serves (tthrow e) s"
  by (simp add: serves_def answers_def tthrow_def)

lemma tret_complete: "complete rd \<Longrightarrow> \<exists>rd'. tret rd = tret rd' \<and> complete rd'"
  by blast

lemma reply_complete: "\<exists>rd. reply r = tret rd \<and> complete rd"
  unfolding reply_def by (rule tret_complete) (simp add: complete_def new_response_def)

lemma give_complete:
  assumes "length (fst dr) \<le> unat (rq_recv_length rq)"
  shows "\<exists>rd. give rq dr = tret rd \<and> complete rd"
proof -
  obtain data r where dr: "dr = (data, r)" by fastforce
  have "length data < 2 ^ 16"
    using assms dr unat_u16_less[of "rq_recv_length rq"] by simp
  then have "complete (new_response\<lparr>rs_result := r, rs_send_length := of_nat (length data)\<rparr>, data)"
    by (simp add: complete_def new_response_def unat_of_nat take_bit_nat_eq_self)
  with tret_complete[OF this] assms show ?thesis by (simp add: give_def dr)
qed

lemma give_stat_complete: "abi_ok A \<Longrightarrow> \<exists>rd. give_stat A r st = tret rd \<and> complete rd"
  unfolding give_stat_def
  by (rule tret_complete) (simp add: complete_def new_response_def abi_ok_def unat_of_nat take_bit_nat_eq_self)

text \<open>The buffers of the kernel are large enough for the data.\<close>

lemma readlink_length: "tmpfs_readlink E ps n len s = Some (Inr d, s') \<Longrightarrow> length d \<le> len"
  by (auto simp: tmpfs_readlink_def tm_simps split: option.splits sum.splits if_splits prod.splits)

lemma pread_length: "tmpfs_pread E ps offset n s = Some (Inr d, s') \<Longrightarrow> length d \<le> unat n"
  by (auto simp: tmpfs_pread_def tm_simps Let_def word_less_nat_alt split: option.splits sum.splits if_splits prod.splits)

lemma readdir_length:
  assumes "abi_ok A" "tmpfs_readdir A E ps len c s = Some (Inr (d, c'), s')"
  shows "length d \<le> len"
proof -
  have "length (dirent_copy A e n len) \<le> len" for e n
    using assms(1) by (auto simp: dirent_copy_def Let_def abi_ok_def)
  with assms(2) show ?thesis
    by (auto simp: tmpfs_readdir_def tm_simps Let_def split: option.splits sum.splits if_splits prod.splits)
qed


text \<open>Each operation.\<close>

lemma on_directory_kind: "on_directory s ps \<Longrightarrow> tmpfs_ok s \<Longrightarrow> tm_pseudo_fds s ps = Some p \<Longrightarrow> kind s p = Some FT_DIRECTORY"
  by (fastforce simp: on_directory_def file_of_def tmpfs_ok_def kind_def)

lemma answers_open: "tmpfs_ok s \<Longrightarrow> answers (tmpfs_open E ino) s"
  using open_ok[OF is_stateI, of s E ino] by (auto simp: answers_def is_state_def)

lemma answers_close: "tmpfs_ok s \<Longrightarrow> answers (tmpfs_close fd) s"
  using close_ok[OF is_stateI, of s fd] by (auto simp: answers_def is_state_def kind_def split: option.splits)

lemma handler_simps [simp]:
  "h_lookup (tmpfs_handler A E) = tmpfs_lookup A E" "h_open (tmpfs_handler A E) = tmpfs_open E"
  "h_link (tmpfs_handler A E) ps n fl = tmpfs_link E ps n" "h_allocate (tmpfs_handler A E) = tmpfs_allocate E"
  "h_readlink (tmpfs_handler A E) = tmpfs_readlink E" "h_rename (tmpfs_handler A E) = tmpfs_rename E"
  "h_symlink (tmpfs_handler A E) = tmpfs_symlink E" "h_unlink (tmpfs_handler A E) = tmpfs_unlink A E"
  "h_create (tmpfs_handler A E) = tmpfs_create E (now E 0)" "h_close (tmpfs_handler A E) = tmpfs_close"
  "h_pread (tmpfs_handler A E) = tmpfs_pread E" "h_pwrite (tmpfs_handler A E) = tmpfs_pwrite E"
  "h_datasync (tmpfs_handler A E) = tmpfs_datasync" "h_sync (tmpfs_handler A E) = tmpfs_sync"
  "h_readdir (tmpfs_handler A E) = tmpfs_readdir A E" "h_stat_fget (tmpfs_handler A E) = tmpfs_stat_fget"
  "h_stat_fput (tmpfs_handler A E) = tmpfs_stat_fput A E"
  "h_stat_put (tmpfs_handler A E) ps lf = tmpfs_stat_put A E ps"
  "h_is_readable (tmpfs_handler A E) = tmpfs_is_readable"
  "h_sock_recv (tmpfs_handler A E) ps k = tthrow ENOTSOCK" "h_sock_send (tmpfs_handler A E) ps d = tthrow ENOTSOCK"
  by (simp_all add: tmpfs_handler_def default_handler_def)

lemma serves_two_names:
  assumes "tmpfs_ok s" "\<And>n1. n1 = takeWhile (\<lambda>b. b \<noteq> 0) buf \<Longrightarrow> serves (f (n1, second_name buf)) s"
  shows "serves (tbind (two_names buf) f) s"
  using assms by (simp add: two_names_def Let_def second_name_def serves_throw)

lemma serves_pwrite:
  assumes ok: "tmpfs_ok s" and rq: "request_ok A s rq buf" "rq_op rq = OP_pwrite"
  shows "serves (handle_pwrite A (tmpfs_handler A E) rq buf) s"
proof (cases "is_append A rq")
  case False
  with rq have "keeps (kind s) (tm_pseudo_fds s) (tm_device s) (tmpfs_pwrite E (rq_pseudofd rq) (rq_offset rq) buf)"
    by (intro keeps_pwrite) (simp add: request_ok_def)
  with False show ?thesis
    by (simp add: handle_pwrite_def) (intro serves_bind answers_keeps ok reply_complete; assumption)
next
  case True
  let ?K = "kind s" and ?F = "tm_pseudo_fds s" and ?D = "tm_device s" and ?ps = "rq_pseudofd rq"
  show ?thesis
  proof (cases "file_of s ?ps")
    case None
    then have "tmpfs_stat_fget ?ps s = Some (Inl EBADF, s)"
      using file_of_None[OF is_stateI[OF ok] None] by (simp add: tmpfs_stat_fget_def tm_simps)
    with True ok show ?thesis
      by (simp add: handle_pwrite_def tbind_assoc serves_def answers_def) (simp add: tbind_def)
  next
    case (Some f)
    obtain p where p: "tm_pseudo_fds s ?ps = Some p" "tm_inodes s p = Some f" using file_of_cases[OF Some] .
    let ?n = "st_size (file_entry_to_filestat f)"
    have st: "tmpfs_stat_fget ?ps s = Some (Inr (file_entry_to_filestat f), s)"
      using p by (simp add: tmpfs_stat_fget_def tm_simps)
    have len: "length (te_contents f) + length buf < 2 ^ 32"
      using rq True Some by (simp add: request_ok_def)
    then have "unat (of_nat (length (te_contents f)) :: u64) = length (te_contents f)"
      by (simp add: unat_of_nat take_bit_nat_eq_self)
    with len have "keeps ?K ?F ?D (tmpfs_pwrite E ?ps ?n buf)"
      by (intro keeps_pwrite) (simp add: file_entry_to_filestat_def)
    then have k: "keeps ?K ?F ?D (tbind (tmpfs_pwrite E ?ps ?n buf) (\<lambda>_. tmpfs_stat_fget ?ps))"
      by (rule keeps_bind) (rule keeps_stat_fget)
    have "handle_pwrite A (tmpfs_handler A E) rq buf s =
      tbind (tbind (tmpfs_pwrite E ?ps ?n buf) (\<lambda>_. tmpfs_stat_fget ?ps)) (\<lambda>st. reply (st_size st)) s"
      using True st by (simp add: handle_pwrite_def tbind_assoc) (simp add: tbind_def)
    moreover have "serves (tbind (tbind (tmpfs_pwrite E ?ps ?n buf) (\<lambda>_. tmpfs_stat_fget ?ps)) (\<lambda>st. reply (st_size st))) s"
      by (intro serves_bind answers_keeps[OF k] ok reply_complete)
    ultimately show ?thesis by (simp add: serves_def answers_def)
  qed
qed

lemma answers_ops:
  assumes "tmpfs_ok s"
  shows "answers (tmpfs_stat_fget ps) s" "answers (tmpfs_is_readable ps) s" "answers (tmpfs_readlink E ps n len) s"
    "answers (tmpfs_allocate E ps off sz) s" "answers (tmpfs_stat_fput A E ps st fl) s"
    "answers (tmpfs_stat_put A E ps n st fl) s" "answers (tmpfs_readdir A E ps len c) s"
    "answers (tmpfs_datasync ps) s" "answers (tmpfs_sync ps) s"
  using assms
  by (auto intro!: answers_keeps keeps_stat_fget keeps_is_readable keeps_readlink keeps_allocate
      keeps_stat_fput keeps_stat_put keeps_readdir simp: tmpfs_datasync_def tmpfs_sync_def)

lemma answers_dir_ops:
  assumes "tmpfs_ok s" "fresh_entries E (kind s)" "on_directory s ps"
  shows "answers (tmpfs_lookup A E ps n fl) s" "answers (tmpfs_create E t ps n ty) s"
    "length tgt < 2 ^ 32 \<Longrightarrow> answers (tmpfs_symlink E ps tgt n) s"
  using on_directory_kind[OF assms(3,1)] assms(1,2)
  by (auto intro!: answers_grows grows_lookup grows_create grows_symlink)

lemma answers_name_ops:
  assumes "tmpfs_ok s" "plain_name n"
  shows "answers (tmpfs_unlink A E ps n fl) s"
    "on_directory s ps \<Longrightarrow> answers (tmpfs_link E ps1 n1 ps n) s"
    "on_directory s ps \<Longrightarrow> answers (tmpfs_rename E ps1 n1 ps n) s"
  using assms on_directory_kind[OF _ assms(1), of ps]
  by (auto intro!: answers_keeps keeps_unlink keeps_link keeps_rename simp: plain_name_def)

lemma serves_op:
  assumes A: "abi_ok A" and ok: "tmpfs_ok s" and fr: "fresh_entries E (kind s)" and rq: "request_ok A s rq buf"
  shows "serves (handle_op A (tmpfs_handler A E) rq buf) s"
proof -
  have buf: "length buf < 2 ^ 16" using rq unat_u16_less[of "rq_send_length rq"] by (simp add: request_ok_def)
  have tgt: "length (takeWhile (\<lambda>b. b \<noteq> 0) buf) < 2 ^ 32"
    by (rule le_less_trans[OF length_takeWhile_le]) (use buf in simp)
  note rq' = rq[unfolded request_ok_def]
  show ?thesis
  proof (cases "rq_op rq")
    case OP_pwrite
    then show ?thesis using serves_pwrite[OF ok rq] by (simp add: handle_op_def)
  next
    case OP_pread
    then have "answers (tmpfs_pread E (rq_pseudofd rq) (rq_offset rq) (ucast (rq_recv_length rq))) s"
      using rq' ok by (intro answers_keeps keeps_pread) simp_all
    moreover have "length d \<le> unat (rq_recv_length rq)"
      if "tmpfs_pread E (rq_pseudofd rq) (rq_offset rq) (ucast (rq_recv_length rq)) s = Some (Inr d, s')" for d s'
      using pread_length[OF that]
      by (simp add: unsigned_ucast_eq) (erule order_trans, rule take_bit_nat_less_eq_self)
    ultimately show ?thesis using OP_pread
      by (simp add: handle_op_def) (rule serves_bind, assumption, rule give_complete, simp)
  next
    case OP_readdir
    then show ?thesis using readdir_length[OF A]
      by (simp add: handle_op_def) (rule serves_bind, rule answers_ops[OF ok], rule give_complete, force)
  next
    case OP_readlink
    then show ?thesis using readlink_length
      by (simp add: handle_op_def) (rule serves_bind, rule answers_ops[OF ok], rule give_complete, fastforce)
  next
    case OP_open
    then show ?thesis
      by (simp add: handle_op_def, intro serves_bind answers_open[OF ok])
         (simp only: split_paired_all prod.case, rule tret_complete, simp add: complete_def new_response_def)
  next
    case OP_is_readable
    then show ?thesis
      by (simp add: handle_op_def, intro serves_bind answers_ops[OF ok])
         (simp only: split_paired_all prod.case, rule tret_complete, simp add: complete_def new_response_def)
  next
    case OP_lookup
    with rq' have "on_directory s (rq_pseudofd rq)" by simp
    with OP_lookup show ?thesis
      by (simp add: handle_op_def, intro serves_bind answers_dir_ops[OF ok fr])
         (assumption, simp only: split_paired_all prod.case, rule give_stat_complete[OF A])
  next
    case OP_stat_fget
    then show ?thesis
      by (simp add: handle_op_def) (intro serves_bind answers_ops[OF ok] give_stat_complete[OF A])
  next
    case OP_symlink
    with rq' have "on_directory s (rq_pseudofd rq)" by simp
    with OP_symlink show ?thesis
      by (simp add: handle_op_def) (rule serves_two_names[OF ok], simp, intro serves_bind answers_dir_ops[OF ok fr] reply_complete tgt)
  next
    case OP_create
    with rq' have "on_directory s (rq_pseudofd rq)" by simp
    with OP_create show ?thesis
      by (simp add: handle_op_def) (intro serves_bind answers_dir_ops[OF ok fr] reply_complete)
  next
    case OP_link
    with rq' show ?thesis
      by (simp add: handle_op_def) (rule serves_two_names[OF ok], simp, intro serves_bind answers_name_ops[OF ok] reply_complete; simp)
  next
    case OP_rename
    with rq' show ?thesis
      by (simp add: handle_op_def) (rule serves_two_names[OF ok], simp, intro serves_bind answers_name_ops[OF ok] reply_complete; simp)
  next
    case OP_unlink
    with rq' show ?thesis
      by (simp add: handle_op_def) (intro serves_bind answers_name_ops[OF ok] reply_complete; simp)
  next
    case OP_close
    then show ?thesis by (simp add: handle_op_def) (intro serves_bind answers_close[OF ok] reply_complete)
  qed (simp_all add: handle_op_def serves_throw ok,
       (intro impI conjI serves_throw[OF ok] serves_bind answers_ops[OF ok] reply_complete)+)
qed

lemma serve_ok:
  assumes "abi_ok A" "tmpfs_ok s" "fresh_entries E (kind s)" "request_ok A s rq buf"
  shows "\<exists>resp data s'. tmpfs_serve A E rq buf s = Some (resp, data, s') \<and> complete (resp, data) \<and>
    tmpfs_ok s' \<and> tm_device s' = tm_device s \<and> kind s \<subseteq>\<^sub>m kind s'"
proof -
  have e: "complete (error_response A e, [])" for e
    by (simp add: complete_def error_response_def new_response_def)
  from serves_op[OF assms] obtain r s' where "handle_op A (tmpfs_handler A E) rq buf s = Some (r, s')"
    "tmpfs_ok s'" "tm_device s' = tm_device s" "kind s \<subseteq>\<^sub>m kind s'" "\<forall>rd. r = Inr rd \<longrightarrow> complete rd"
    by (auto simp: serves_def answers_def)
  with e show ?thesis
    by (cases r) (auto simp: tmpfs_serve_def handle_request_def)
qed

text \<open>A run of the server: any number of requests, each with its own clock and allocator.\<close>

inductive tmpfs_run :: "cloudabi \<Rightarrow> tmpfs \<Rightarrow> tmpfs \<Rightarrow> bool" for A where
  run_start: "tmpfs_run A s s"
| run_request: "tmpfs_run A s t \<Longrightarrow> fresh_entries E (kind t) \<Longrightarrow> request_ok A t rq buf \<Longrightarrow>
    tmpfs_serve A E rq buf t = Some (resp, data, u) \<Longrightarrow> tmpfs_run A s u"

lemma init_ok: "tmpfs_ok (tmpfs_init E d root)"
proof -
  have "map_wf (map_set dotdotb root (map_set dotb root []))"
    by (intro dirmap.wf_set) (simp add: map_wf_def)
  moreover have "map_find n (map_set dotdotb root (map_set dotb root [])) =
      (if n = dotdotb \<or> n = dotb then Some root else None)" for n
    by (simp add: dirmap.find_set dirmap.wf_set map_wf_def)
  ultimately show ?thesis
    by (auto simp: tmpfs_ok_def tmpfs_init_def entry_ok_def kind_def split: if_splits)
qed

lemma tmpfs_run_ok: "tmpfs_run A s t \<Longrightarrow> abi_ok A \<Longrightarrow> tmpfs_ok s \<Longrightarrow>
  tmpfs_ok t \<and> tm_device t = tm_device s \<and> kind s \<subseteq>\<^sub>m kind t"
proof (induction rule: tmpfs_run.induct)
  case (run_request s t E rq buf resp data u)
  then have t: "tmpfs_ok t" "tm_device t = tm_device s" "kind s \<subseteq>\<^sub>m kind t" by auto
  with serve_ok[OF \<open>abi_ok A\<close> t(1) run_request.hyps(2,3)] run_request.hyps(4) show ?case
    by (auto intro: map_le_trans)
qed simp

definition sample_init :: tmpfs where
  "sample_init = tmpfs_init sample_env 7 1"

lemma sample_init_fresh: "fresh_entries sample_env (kind sample_init)"
  by (simp add: fresh_entries_def sample_env_def sample_init_def tmpfs_init_def kind_def)

lemma sample_init_directory: "on_directory sample_init 0"
  by (simp add: on_directory_def sample_init_def tmpfs_init_def file_of_def)

text \<open>
  C24: The file server never stops: in every state that a run of admissible requests reaches, each
  further admissible request is answered, the answer announces exactly the bytes that follow
  it, all entries are still there and the invariant of the file system holds.
\<close>

theorem tmpfs_always_answers:
  assumes "abi_ok A" "tmpfs_run A (tmpfs_init E0 dev root) s" "fresh_entries E (kind s)" "request_ok A s rq buf"
  shows "\<exists>resp data s'. tmpfs_serve A E rq buf s = Some (resp, data, s') \<and>
    length data = unat (rs_send_length resp) \<and> tmpfs_ok s' \<and> tm_device s' = dev \<and> kind s \<subseteq>\<^sub>m kind s'"
proof -
  have "tmpfs_ok s \<and> tm_device s = dev"
    using tmpfs_run_ok[OF assms(2,1) init_ok] by (simp add: tmpfs_init_def)
  with serve_ok[OF assms(1) _ assms(3,4)] show ?thesis by (auto simp: complete_def)
qed

theorem tmpfs_always_answers_witness:
  "\<exists>resp data s'. tmpfs_serve sample_abi sample_env (new_request 0 OP_create\<lparr>rq_flags := 5, rq_send_length := 1\<rparr>) [0x61] sample_init
     = Some (resp, data, s') \<and> length data = unat (rs_send_length resp) \<and> tmpfs_ok s' \<and> tm_device s' = 7 \<and>
     kind sample_init \<subseteq>\<^sub>m kind s'"
proof -
  have "request_ok sample_abi sample_init (new_request 0 OP_create\<lparr>rq_flags := 5, rq_send_length := 1\<rparr>) [0x61]"
    by (simp add: request_ok_def new_request_def sample_init_directory)
  from tmpfs_always_answers[OF abi_ok_sample run_start[of _ "tmpfs_init sample_env 7 1"] _ this[unfolded sample_init_def],
      OF sample_init_fresh[unfolded sample_init_def]]
  show ?thesis unfolding sample_init_def .
qed

text \<open>
  C29: The limit on offsets is needed. A write at the position four gigabytes is cut to 32 bits
  twice: the file is cut to the length of the data, which land at its start.
\<close>

theorem pwrite_past_4g_truncates:
  assumes "file_of s ps = Some f" "te_type f = FT_REGULAR_FILE" "length (te_contents f) \<le> 2 ^ 32" "length buf < 2 ^ 31" "buf \<noteq> []"
  shows "\<exists>s' g. tmpfs_pwrite E ps 0x100000000 buf s = Some (Inr (), s') \<and> file_of s' ps = Some g \<and> te_contents g = buf"
proof -
  obtain p where p: "tm_pseudo_fds s ps = Some p" "tm_inodes s p = Some f" using file_of_cases[OF assms(1)] .
  let ?m = "0x100000000 + of_nat (length buf) :: u64"
  have m: "unat ?m = 2 ^ 32 + length buf" using assms(4) by (simp add: unat_word_ariths unat_of_nat)
  have sm: "sint ?m = int (2 ^ 32 + length buf)"
    using sint_small[of ?m] assms(4) unfolding m by simp
  have um: "unat (ucast ?m :: u32) = length buf"
    using m assms(4) by (simp add: unsigned_ucast_eq take_bit_eq_mod)
  have u0: "unat (ucast (0x100000000 :: u64) :: u32) = 0" by (simp add: unsigned_ucast_eq take_bit_eq_mod)
  have "int (length (te_contents f)) < int (2 ^ 32 + length buf)" using assms(3,5) by (cases buf) simp_all
  then have w: "tmpfs_pwrite E ps 0x100000000 buf s =
    Some (Inr (), s\<lparr>tm_inodes := (tm_inodes s)(p \<mapsto> f\<lparr>te_contents := buf, te_content_time := now E 0\<rparr>)\<rparr>)"
    using p assms(2) by (simp add: tmpfs_pwrite_def tm_simps Let_def sm um u0 del: of_nat_add of_nat_power)
  let ?g = "f\<lparr>te_contents := buf, te_content_time := now E 0\<rparr>"
  have "file_of (s\<lparr>tm_inodes := (tm_inodes s)(p \<mapsto> ?g)\<rparr>) ps = Some ?g" using p by (simp add: file_of_def)
  moreover have "te_contents ?g = buf" by simp
  ultimately show ?thesis using w by blast
qed

theorem pwrite_past_4g_truncates_witness:
  "\<exists>s' g. tmpfs_pwrite sample_env 9 0x100000000 [8] sample_tmpfs = Some (Inr (), s') \<and>
     file_of s' 9 = Some g \<and> te_contents g = [8]"
proof -
  obtain f where f: "file_of sample_tmpfs 9 = Some f" "te_type f = FT_REGULAR_FILE" "te_contents f = [1, 2, 3]"
    using sample_files by auto
  show ?thesis by (rule pwrite_past_4g_truncates[OF f(1,2)]) (simp_all add: f(3))
qed

lemma ok_dot:
  "tmpfs_ok s \<Longrightarrow> tm_pseudo_fds s ps = Some p \<Longrightarrow> kind s p = Some FT_DIRECTORY \<Longrightarrow> entry_at s ps dotb = Some p"
  by (fastforce simp: tmpfs_ok_def entry_ok_def kind_def entry_at_def file_of_def)


end
