(* ===== verification/Pseudo_Fd.thy ===== *)
theory Pseudo_Fd
  imports Reverse_Proto
begin

text \<open>
  Pseudo descriptors, \<^verbatim>\<open>fd/pseudo_fd.cpp\<close>: descriptors of the kernel whose methods are requests
  to a server in userland. A method takes the object and the state of the servers and gives
  what it leaves in \<^verbatim>\<open>error\<close>, its result, the changed object and the new state of the servers.

  \<open>rpc\<close> is \<^verbatim>\<open>reversefd_t::send_request\<close> on the reverse descriptor with the given number: it
  gives the response and the data that follow it, as many bytes as the response announces,
  or \<^term>\<open>None\<close> if there is never a response. Requests and responses of one descriptor do not
  overlap, so a call is one step here.
\<close>

record pfd =
  pf_id :: u64
  pf_reverse :: nat
  pf_type :: filetype
  pf_flags :: u16
  pf_pos :: u64
  pf_device :: u64
  pf_device_known :: bool

type_synonym 's rpc = "nat \<Rightarrow> reverse_request \<Rightarrow> bytes \<Rightarrow> 's \<Rightarrow> (reverse_response \<times> bytes \<times> 's) option"
type_synonym ('a, 's) pmethod = "pfd \<Rightarrow> 's \<Rightarrow> (errno \<times> 'a \<times> pfd \<times> 's) option"

text \<open>The constructor.\<close>

definition new_pseudo_fd :: "u64 \<Rightarrow> nat \<Rightarrow> filetype \<Rightarrow> u16 \<Rightarrow> pfd" where
  "new_pseudo_fd i r t fl = \<lparr>pf_id = i, pf_reverse = r, pf_type = t, pf_flags = fl, pf_pos = 0,
     pf_device = 0, pf_device_known = False\<rparr>"

text \<open>
  \<^verbatim>\<open>send_request\<close>: the first \<^verbatim>\<open>send_length\<close> bytes of the buffer follow the request. A negative
  result is an error number, of which 16 bits are kept.
\<close>

definition send_request ::
  "'s rpc \<Rightarrow> pfd \<Rightarrow> reverse_request \<Rightarrow> bytes \<Rightarrow> 's \<Rightarrow> (reverse_response \<times> bytes \<times> 's) option" where
  "send_request rpc p rq buf s = rpc (pf_reverse p) rq (take (unat (rq_send_length rq)) buf) s"

definition rpc_failed :: "reverse_response \<Rightarrow> bool" where
  "rpc_failed resp \<longleftrightarrow> rs_result resp <s 0"

definition rpc_errno :: "cloudabi \<Rightarrow> reverse_response \<Rightarrow> errno" where
  "rpc_errno A resp = num_errno A (ucast (- rs_result resp))"

definition rpc_status :: "cloudabi \<Rightarrow> reverse_response \<Rightarrow> errno" where
  "rpc_status A resp = (if rpc_failed resp then rpc_errno A resp else ESUCCESS)"

definition is_valid_path :: "bytes \<Rightarrow> bool" where
  "is_valid_path path \<longleftrightarrow> (\<forall>c \<in> set path. \<not> (c <s 0x20 \<or> c = 0x7f))"

text \<open>A request without data in either direction whose response only says whether it succeeded.\<close>

definition simple_request :: "cloudabi \<Rightarrow> 's rpc \<Rightarrow> reverse_request \<Rightarrow> bytes \<Rightarrow> (unit, 's) pmethod" where
  "simple_request A rpc rq buf p s =
     do { (resp, b, s) \<leftarrow> send_request rpc p rq buf s;
          Some (rpc_status A resp, (), p, s) }"

definition pseudo_is_readable :: "cloudabi \<Rightarrow> 's rpc \<Rightarrow> (bool \<times> u32 \<times> bool, 's) pmethod" where
  "pseudo_is_readable A rpc p s =
     do { (resp, b, s) \<leftarrow> send_request rpc p (new_request (pf_id p) OP_is_readable\<lparr>rq_offset := pf_pos p\<rparr>) [] s;
          if rpc_failed resp then Some (rpc_errno A resp, (False, 0, False), p, s)
          else Some (ESUCCESS, (rs_result resp = 1, ucast (rs_recv_length resp),
                                has (rs_flags resp) (EVENT_FD_READWRITE_HANGUP A)), p, s) }"

definition pseudo_read :: "cloudabi \<Rightarrow> 's rpc \<Rightarrow> u32 \<Rightarrow> (bytes, 's) pmethod" where
  "pseudo_read A rpc cnt p s =
     (let cnt = (if cnt > 0xffff then 0xffff else cnt) in
      do { (resp, b, s) \<leftarrow> send_request rpc p
             (new_request (pf_id p) OP_pread\<lparr>rq_offset := pf_pos p, rq_recv_length := ucast cnt\<rparr>) [] s;
           if rpc_failed resp then Some (rpc_errno A resp, [], p, s)
           else let n = (if unat (rs_send_length resp) > unat cnt then cnt else ucast (rs_send_length resp)) in
             Some (ESUCCESS, take (unat n) b, p\<lparr>pf_pos := pf_pos p + ucast n\<rparr>, s) })"

definition pseudo_write :: "cloudabi \<Rightarrow> 's rpc \<Rightarrow> bytes \<Rightarrow> (u32, 's) pmethod" where
  "pseudo_write A rpc str p s =
     (let sz = of_nat (length str);
          append = pf_flags p AND FILE_CONST A FDFLAG_APPEND in
      do { (resp, b, s) \<leftarrow> send_request rpc p
             (new_request (pf_id p) OP_pwrite\<lparr>rq_flags := ucast append, rq_offset := pf_pos p,
                rq_send_length := ucast (sz :: u32)\<rparr>) str s;
           if rpc_failed resp then Some (rpc_errno A resp, sz, p, s)
           else if append \<noteq> 0 then Some (ESUCCESS, sz, p\<lparr>pf_pos := rs_result resp\<rparr>, s)
           else Some (ESUCCESS, sz, p\<lparr>pf_pos := pf_pos p + ucast sz\<rparr>, s) })"

definition pseudo_datasync :: "cloudabi \<Rightarrow> 's rpc \<Rightarrow> (unit, 's) pmethod" where
  "pseudo_datasync A rpc p = simple_request A rpc (new_request (pf_id p) OP_datasync) [] p"

definition pseudo_sync :: "cloudabi \<Rightarrow> 's rpc \<Rightarrow> (unit, 's) pmethod" where
  "pseudo_sync A rpc p = simple_request A rpc (new_request (pf_id p) OP_sync) [] p"

text \<open>
  The device number of a descriptor is asked for once. \<^verbatim>\<open>with_device\<close> stands for the first lines
  of the methods that need it; \<open>d\<close> is what the method leaves for its result if they fail.
\<close>

definition lookup_device_id :: "cloudabi \<Rightarrow> 's rpc \<Rightarrow> pfd \<Rightarrow> 's \<Rightarrow> (errno \<times> pfd \<times> 's) option" where
  "lookup_device_id A rpc p s =
     (if pf_device_known p then Some (ESUCCESS, p, s)
      else do {
        (resp, b, s) \<leftarrow> send_request rpc p (new_request (pf_id p) OP_stat_fget\<lparr>rq_flags := ucast (pf_flags p)\<rparr>) [] s;
        if rpc_failed resp then Some (rpc_errno A resp, p, s)
        else if length b < sizeof_filestat A then Some (EIO, p, s)
        else do {
          let device = st_dev (bytes_filestat A (take (sizeof_filestat A) b));
          kassert (device > 0 \<or> pf_type p = FT_SOCKET_STREAM \<or> pf_type p = FT_SOCKET_DGRAM);
          Some (ESUCCESS, p\<lparr>pf_device := device, pf_device_known := True\<rparr>, s)
        }
      })"

definition with_device :: "cloudabi \<Rightarrow> 's rpc \<Rightarrow> 'a \<Rightarrow> ('a, 's) pmethod \<Rightarrow> ('a, 's) pmethod" where
  "with_device A rpc d m p s =
     do { (e, p, s) \<leftarrow> lookup_device_id A rpc p s;
          if e \<noteq> ESUCCESS then Some (e, d, p, s) else m p s }"

definition pseudo_lookup :: "cloudabi \<Rightarrow> 's rpc \<Rightarrow> filestat \<Rightarrow> bytes \<Rightarrow> u16 \<Rightarrow> (filestat, 's) pmethod" where
  "pseudo_lookup A rpc junk file oflags = with_device A rpc junk (\<lambda>p s.
     if \<not> is_valid_path file then Some (EINVAL, junk, p, s)
     else do {
       (resp, b, s) \<leftarrow> send_request rpc p (new_request (pf_id p) OP_lookup\<lparr>rq_flags := ucast oflags,
          rq_send_length := of_nat (length file)\<rparr>) file s;
       if rpc_failed resp then Some (rpc_errno A resp, junk, p, s)
       else if length b < sizeof_filestat A then Some (EIO, junk, p, s)
       else let filestat = bytes_filestat A (take (sizeof_filestat A) b) in
         if st_dev filestat \<noteq> pf_device p then Some (EIO, filestat, p, s)
         else if st_ino filestat \<noteq> rs_result resp then Some (EIO, filestat, p, s)
         else Some (ESUCCESS, filestat, p, s)
     })"

definition pseudo_inode_open :: "cloudabi \<Rightarrow> 's rpc \<Rightarrow> u64 \<Rightarrow> u64 \<Rightarrow> fdstat \<Rightarrow> (pfd option, 's) pmethod" where
  "pseudo_inode_open A rpc dev ino fdstat p s =
     (if dev \<noteq> pf_device p then Some (EINVAL, None, p, s)
      else do {
        (resp, b, s) \<leftarrow> send_request rpc p (new_request (pf_id p) OP_open\<lparr>rq_inode := ino\<rparr>) [] s;
        if rpc_failed resp then Some (rpc_errno A resp, None, p, s)
        else Some (ESUCCESS, Some (new_pseudo_fd (rs_result resp) (pf_reverse p)
               (num_filetype A (ucast (rs_flags resp))) (fs_flags fdstat)), p, s)
      })"

definition pseudo_file_create :: "cloudabi \<Rightarrow> 's rpc \<Rightarrow> bytes \<Rightarrow> filetype \<Rightarrow> (u64, 's) pmethod" where
  "pseudo_file_create A rpc file type = with_device A rpc 0 (\<lambda>p s.
     do { (resp, b, s) \<leftarrow> send_request rpc p (new_request (pf_id p) OP_create\<lparr>
             rq_flags := ucast (filetype_num A type), rq_send_length := of_nat (length file)\<rparr>) file s;
          if rpc_failed resp then Some (rpc_errno A resp, 0, p, s)
          else Some (ESUCCESS, rs_result resp, p, s) })"

definition pseudo_file_readlink :: "cloudabi \<Rightarrow> 's rpc \<Rightarrow> bytes \<Rightarrow> u32 \<Rightarrow> (bytes, 's) pmethod" where
  "pseudo_file_readlink A rpc path destlen p s =
     do { (resp, b, s) \<leftarrow> send_request rpc p (new_request (pf_id p) OP_readlink\<lparr>
             rq_recv_length := ucast destlen, rq_send_length := of_nat (length path)\<rparr>) path s;
          if rpc_failed resp then Some (rpc_errno A resp, [], p, s)
          else let n = (if unat (rs_send_length resp) > unat destlen then unat destlen else unat (rs_send_length resp)) in
            Some (ESUCCESS, take n b, p, s) }"

text \<open>
  Two names in one request. For \<^verbatim>\<open>file_rename\<close> and \<^verbatim>\<open>file_link\<close> the second directory must be a pseudo
  descriptor (\<^term>\<open>None\<close> stands for any other descriptor) of the same server.
\<close>

definition two_name_request :: "cloudabi \<Rightarrow> 's rpc \<Rightarrow> reverse_request \<Rightarrow> bytes \<Rightarrow> bytes \<Rightarrow> (unit, 's) pmethod" where
  "two_name_request A rpc rq path1 path2 p s =
     (if 0 \<in> set path1 then Some (EINVAL, (), p, s)
      else simple_request A rpc (rq\<lparr>rq_send_length := of_nat (length path1 + length path2 + 1)\<rparr>)
             (path1 @ [0] @ path2) p s)"

definition same_server :: "pfd option \<Rightarrow> pfd \<Rightarrow> bool" where
  "same_server fd2 p = (case fd2 of None \<Rightarrow> False | Some p2 \<Rightarrow> pf_reverse p = pf_reverse p2)"

definition pseudo_file_rename :: "cloudabi \<Rightarrow> 's rpc \<Rightarrow> bytes \<Rightarrow> pfd option \<Rightarrow> bytes \<Rightarrow> (unit, 's) pmethod" where
  "pseudo_file_rename A rpc path1 fd2 path2 p s =
     (if \<not> same_server fd2 p then Some (EXDEV, (), p, s)
      else two_name_request A rpc (new_request (pf_id p) OP_rename\<lparr>rq_flags := pf_id (the fd2)\<rparr>) path1 path2 p s)"

definition pseudo_file_link :: "cloudabi \<Rightarrow> 's rpc \<Rightarrow> bytes \<Rightarrow> pfd option \<Rightarrow> bytes \<Rightarrow> (unit, 's) pmethod" where
  "pseudo_file_link A rpc path1 fd2 path2 p s =
     (if \<not> same_server fd2 p then Some (EXDEV, (), p, s)
      else two_name_request A rpc (new_request (pf_id p) OP_link\<lparr>rq_flags := pf_id (the fd2)\<rparr>) path1 path2 p s)"

definition pseudo_file_symlink :: "cloudabi \<Rightarrow> 's rpc \<Rightarrow> bytes \<Rightarrow> bytes \<Rightarrow> (unit, 's) pmethod" where
  "pseudo_file_symlink A rpc path1 path2 p =
     two_name_request A rpc (new_request (pf_id p) OP_symlink) path1 path2 p"

definition pseudo_file_unlink :: "cloudabi \<Rightarrow> 's rpc \<Rightarrow> bytes \<Rightarrow> u8 \<Rightarrow> (unit, 's) pmethod" where
  "pseudo_file_unlink A rpc path flags p =
     simple_request A rpc (new_request (pf_id p) OP_unlink\<lparr>rq_flags := ucast flags,
       rq_send_length := of_nat (length path)\<rparr>) path p"

definition pseudo_file_stat_fget :: "cloudabi \<Rightarrow> 's rpc \<Rightarrow> filestat \<Rightarrow> (filestat, 's) pmethod" where
  "pseudo_file_stat_fget A rpc junk = with_device A rpc junk (\<lambda>p s.
     do { (resp, b, s) \<leftarrow> send_request rpc p (new_request (pf_id p) OP_stat_fget) [] s;
          if rpc_failed resp then Some (rpc_errno A resp, junk, p, s)
          else if length b < sizeof_filestat A then Some (EIO, junk, p, s)
          else let st = bytes_filestat A (take (sizeof_filestat A) b) in
            if st_dev st \<noteq> pf_device p then Some (EIO, st, p, s) else Some (ESUCCESS, st, p, s) })"

definition pseudo_file_stat_put :: "cloudabi \<Rightarrow> 's rpc \<Rightarrow> bytes \<Rightarrow> filestat \<Rightarrow> u16 \<Rightarrow> (unit, 's) pmethod" where
  "pseudo_file_stat_put A rpc path st fsflags = with_device A rpc () (\<lambda>p.
     simple_request A rpc (new_request (pf_id p) OP_stat_put\<lparr>rq_inode := ucast fsflags,
       rq_send_length := of_nat (sizeof_filestat A + length path)\<rparr>) (filestat_bytes A st @ path) p)"

definition pseudo_file_stat_fput :: "cloudabi \<Rightarrow> 's rpc \<Rightarrow> filestat \<Rightarrow> u16 \<Rightarrow> (unit, 's) pmethod" where
  "pseudo_file_stat_fput A rpc st fsflags = with_device A rpc () (\<lambda>p.
     simple_request A rpc (new_request (pf_id p) OP_stat_fput\<lparr>rq_inode := ucast fsflags,
       rq_send_length := of_nat (sizeof_filestat A)\<rparr>) (filestat_bytes A st) p)"

text \<open>Whatever the server answers, \<^verbatim>\<open>file_allocate\<close> and \<^verbatim>\<open>sock_shutdown\<close> end with \<^verbatim>\<open>error = 0\<close>.\<close>

definition pseudo_file_allocate :: "cloudabi \<Rightarrow> 's rpc \<Rightarrow> u64 \<Rightarrow> u64 \<Rightarrow> (unit, 's) pmethod" where
  "pseudo_file_allocate A rpc offset len p s =
     do { (resp, b, s) \<leftarrow> send_request rpc p
            (new_request (pf_id p) OP_allocate\<lparr>rq_offset := offset, rq_flags := len\<rparr>) [] s;
          Some (ESUCCESS, (), p, s) }"

definition pseudo_sock_shutdown :: "cloudabi \<Rightarrow> 's rpc \<Rightarrow> u8 \<Rightarrow> (unit, 's) pmethod" where
  "pseudo_sock_shutdown A rpc how p s =
     do { (resp, b, s) \<leftarrow> send_request rpc p (new_request (pf_id p) OP_sock_shutdown\<lparr>rq_flags := ucast how\<rparr>) [] s;
          Some (ESUCCESS, (), p, s) }"

text \<open>
  \<^verbatim>\<open>readdir\<close> asks for entries until the buffer is full or the server says that there are no
  more. A server that sends neither data nor the last cookie keeps it in the loop, so the
  function is partial. The room that is left is cut to 16 bits in the request.
\<close>

partial_function (option) pseudo_readdir_loop ::
  "cloudabi \<Rightarrow> 's rpc \<Rightarrow> pfd \<Rightarrow> u32 \<Rightarrow> u64 \<Rightarrow> bytes \<Rightarrow> 's \<Rightarrow> (errno \<times> bytes \<times> 's) option" where
  "pseudo_readdir_loop A rpc p nbyte cookie buf s =
     (if length buf < unat nbyte then
        (let recv = (ucast (nbyte - of_nat (length buf)) :: u16) in
         Option.bind (send_request rpc p (new_request (pf_id p) OP_readdir\<lparr>rq_flags := cookie, rq_recv_length := recv\<rparr>) [] s)
           (\<lambda>(resp, b, s).
              if rpc_failed resp then Some (rpc_errno A resp, [], s)
              else if length b > unat recv then Some (EIO, [], s)
              else if rs_result resp = 0 then Some (ESUCCESS, buf @ b, s)
              else pseudo_readdir_loop A rpc p nbyte (rs_result resp) (buf @ b) s))
      else Some (ESUCCESS, buf, s))"

declare pseudo_readdir_loop.simps [code]

definition pseudo_readdir :: "cloudabi \<Rightarrow> 's rpc \<Rightarrow> u32 \<Rightarrow> u64 \<Rightarrow> (bytes, 's) pmethod" where
  "pseudo_readdir A rpc nbyte cookie p s =
     do { (e, buf, s) \<leftarrow> pseudo_readdir_loop A rpc p nbyte cookie [] s; Some (e, buf, p, s) }"

text \<open>
  Sockets. The lengths of the buffers are added up in 16 bits; \<^verbatim>\<open>sock_send\<close> then copies all data
  to a buffer of that size, past its end if the sum was cut. \<open>scatter\<close> distributes the data
  over the buffers of the caller.
\<close>

fun scatter :: "u32 list \<Rightarrow> bytes \<Rightarrow> bytes list" where
  "scatter [] b = []"
| "scatter (n # ns) b = (let copy = (if unat n < length b then unat n else length b) in take copy b # scatter ns (drop copy b))"

definition pseudo_sock_recv :: "cloudabi \<Rightarrow> 's rpc \<Rightarrow> u32 list \<Rightarrow> u16 \<Rightarrow> (bytes list \<times> nat, 's) pmethod" where
  "pseudo_sock_recv A rpc lens flags p s =
     (let recv = (\<Sum>n \<leftarrow> lens. ucast n :: u16) in
      do { (resp, b, s) \<leftarrow> send_request rpc p
             (new_request (pf_id p) OP_sock_recv\<lparr>rq_flags := ucast flags, rq_recv_length := recv\<rparr>) [] s;
           if rpc_failed resp then Some (rpc_errno A resp, ([], 0), p, s)
           else if length b > unat recv then Some (EIO, ([], 0), p, s)
           else Some (ESUCCESS, (scatter lens b, length b), p, s) })"

definition pseudo_sock_send :: "cloudabi \<Rightarrow> 's rpc \<Rightarrow> bytes list \<Rightarrow> u16 \<Rightarrow> (u16, 's) pmethod" where
  "pseudo_sock_send A rpc datas flags p s =
     (let send = (\<Sum>d \<leftarrow> datas. of_nat (length d) :: u16) in
      do { kassert (length (concat datas) \<le> unat send);
           (resp, b, s) \<leftarrow> send_request rpc p
             (new_request (pf_id p) OP_sock_send\<lparr>rq_flags := ucast flags, rq_send_length := send\<rparr>) (concat datas) s;
           if rpc_failed resp then Some (rpc_errno A resp, 0, p, s)
           else Some (ESUCCESS, rs_recv_length resp, p, s) })"

text \<open>The destructor.\<close>

definition pseudo_destroy :: "'s rpc \<Rightarrow> pfd \<Rightarrow> 's \<Rightarrow> 's option" where
  "pseudo_destroy rpc p s =
     do { (resp, b, s) \<leftarrow> send_request rpc p (new_request (pf_id p) OP_close) [] s; Some s }"

end
