(* ===== verification/Pseudo_Server.thy ===== *)
theory Pseudo_Server
  imports Pseudo_Fd Tmpfs_Server
begin

text \<open>
  The two ends of the reverse protocol together: the pseudo descriptors of the kernel
  (\<^verbatim>\<open>fd/pseudo_fd.cpp\<close>) with the dispatcher of a server (\<^verbatim>\<open>userland/libpseudofd/reversefd.cpp\<close>)
  behind them. With a server \<open>h\<close> at the other end, a method of the descriptor is the method of the server of
  the same name: its arguments, its result and its errors arrive unchanged. The limits are
  those of the messages: 16 bits for lengths, and results that are not negative.
\<close>

definition server_rpc :: "cloudabi \<Rightarrow> 's reverse_handler \<Rightarrow> 's rpc" where
  "server_rpc A h r rq buf s = handle_request A h rq buf s"

definition proper_errors :: "('a, 's) hmethod \<Rightarrow> 's \<Rightarrow> bool" where
  "proper_errors m s \<longleftrightarrow> (\<forall>e s'. m s = Some (Inl e, s') \<longrightarrow> e \<noteq> ESUCCESS)"

text \<open>The outcome of a method of a server, as a method of the descriptor reports it.\<close>

definition outcome ::
  "('a, 's) hmethod \<Rightarrow> 'b \<Rightarrow> ('a \<Rightarrow> 'b) \<Rightarrow> ('a \<Rightarrow> pfd) \<Rightarrow> pfd \<Rightarrow> 's \<Rightarrow> (errno \<times> 'b \<times> pfd \<times> 's) option" where
  "outcome m d f g p s =
     (case m s of
        None \<Rightarrow> None
      | Some (Inl e, s') \<Rightarrow> Some (e, d, p, s')
      | Some (Inr x, s') \<Rightarrow> Some (ESUCCESS, f x, g x, s'))"

lemma errno_num_inj: "abi_ok A \<Longrightarrow> errno_num A e = errno_num A e' \<longleftrightarrow> e = e'"
  unfolding abi_ok_def by metis

lemma negative_small: "n \<noteq> 0 \<Longrightarrow> - (ucast (n :: u16) :: u64) <s 0"
proof -
  assume "n \<noteq> 0"
  have "uint (ucast n :: u64) = uint n" by (simp add: unsigned_ucast_eq take_bit_int_eq_self_iff)
    (rule order_less_trans[OF unsigned_less], simp)
  moreover have pos: "0 < uint n" using \<open>n \<noteq> 0\<close> by (simp add: uint_0_iff order_less_le)
  moreover have lt: "uint n < 2 ^ 16" using unsigned_less[of n] by simp
  ultimately have "uint (- (ucast n :: u64)) = 2 ^ 64 - uint n"
    by (simp add: uint_word_ariths zmod_zminus1_eq_if)
  with lt pos show ?thesis by (simp add: word_sless_alt sint_uint_64)
qed

lemma error_response_simps:
  assumes "abi_ok A" "e \<noteq> ESUCCESS"
  shows "rpc_failed (error_response A e)" "rpc_errno A (error_response A e) = e"
proof -
  have "errno_num A e \<noteq> 0" using errno_num_inj[OF assms(1), of e ESUCCESS] assms by (simp add: abi_ok_def)
  then show "rpc_failed (error_response A e)"
    by (simp add: rpc_failed_def error_response_def negative_small)
  have "ucast (ucast (errno_num A e) :: u64) = errno_num A e"
    by (rule bit_word_eqI) (simp add: bit_simps)
  then show "rpc_errno A (error_response A e) = e"
    using assms(1) by (simp add: rpc_errno_def error_response_def abi_ok_def)
qed

lemma success_simps [simp]:
  "\<not> rpc_failed (new_response\<lparr>rs_send_length := n\<rparr>)" "\<not> rpc_failed new_response"
  "rpc_failed (new_response\<lparr>rs_result := r\<rparr>) \<longleftrightarrow> r <s 0"
  "rpc_failed (new_response\<lparr>rs_result := r, rs_send_length := n\<rparr>) \<longleftrightarrow> r <s 0"
  "rpc_failed (new_response\<lparr>rs_result := r, rs_flags := fl\<rparr>) \<longleftrightarrow> r <s 0"
  by (simp_all add: rpc_failed_def new_response_def)

lemma simple_request_server:
  assumes "abi_ok A" "proper_errors m s" "length buf = unat (rq_send_length rq)"
    and "handle_op A h rq buf = tbind m (\<lambda>_. reply 0)"
  shows "simple_request A (server_rpc A h) rq buf p s = outcome m () (\<lambda>_. ()) (\<lambda>_. p) p s"
  using assms(2-) error_response_simps[OF assms(1)]
  by (auto simp: simple_request_def send_request_def server_rpc_def handle_request_def outcome_def tbind_def
      reply_def tret_def rpc_status_def proper_errors_def split: option.splits sum.splits prod.splits)


lemma unat_of_nat_16: "n < 2 ^ 16 \<Longrightarrow> unat (of_nat n :: u16) = n"
  by (simp add: unat_of_nat take_bit_nat_eq_self)

lemma rq_new_request [simp]:
  "rq_op (new_request i op) = op" "rq_pseudofd (new_request i op) = i" "rq_flags (new_request i op) = 0"
  "rq_offset (new_request i op) = 0" "rq_inode (new_request i op) = 0"
  "rq_send_length (new_request i op) = 0" "rq_recv_length (new_request i op) = 0"
  by (simp_all add: new_request_def)

lemma two_names_join [simp]: "0 \<notin> set n1 \<Longrightarrow> two_names (n1 @ 0 # n2) = tret (n1, n2)"
proof -
  assume "0 \<notin> set n1"
  then have "takeWhile (\<lambda>b. b \<noteq> 0) (n1 @ 0 # n2) = n1" by (subst takeWhile_append2) auto
  then show ?thesis by (simp add: two_names_def)
qed

lemma ucast_widen [simp]:
  "ucast (ucast (n :: u8) :: u64) = n" "ucast (ucast (m :: u16) :: u64) = m"
  by (rule bit_word_eqI, simp add: bit_simps)+

lemma two_name_server:
  assumes "abi_ok A" "proper_errors (m n1 n2) s" "0 \<notin> set n1" "length n1 + length n2 + 1 < 2 ^ 16"
    and "\<And>buf len. handle_op A h (rq\<lparr>rq_send_length := len\<rparr>) buf = tbind (two_names buf) (\<lambda>(n1, n2). tbind (m n1 n2) (\<lambda>_. reply 0))"
  shows "two_name_request A (server_rpc A h) rq n1 n2 p s = outcome (m n1 n2) () (\<lambda>_. ()) (\<lambda>_. p) p s"
proof -
  have "length (n1 @ [0] @ n2) = unat (of_nat (length n1 + length n2 + 1) :: u16)"
    unfolding unat_of_nat_16[OF assms(4)] by simp
  then show ?thesis unfolding two_name_request_def using assms
    by (subst if_not_P, simp) (rule simple_request_server, simp_all)
qed

lemma pseudo_two_name_ops:
  assumes "abi_ok A" "0 \<notin> set n1" "length n1 + length n2 + 1 < 2 ^ 16"
  shows "proper_errors (h_symlink h (pf_id p) n1 n2) s \<Longrightarrow>
      pseudo_file_symlink A (server_rpc A h) n1 n2 p s = outcome (h_symlink h (pf_id p) n1 n2) () (\<lambda>_. ()) (\<lambda>_. p) p s"
    and "pf_reverse q = pf_reverse p \<Longrightarrow> proper_errors (h_rename h (pf_id p) n1 (pf_id q) n2) s \<Longrightarrow>
      pseudo_file_rename A (server_rpc A h) n1 (Some q) n2 p s
        = outcome (h_rename h (pf_id p) n1 (pf_id q) n2) () (\<lambda>_. ()) (\<lambda>_. p) p s"
    and "pf_reverse q = pf_reverse p \<Longrightarrow> proper_errors (h_link h (pf_id p) n1 0 (pf_id q) n2) s \<Longrightarrow>
      pseudo_file_link A (server_rpc A h) n1 (Some q) n2 p s
        = outcome (h_link h (pf_id p) n1 0 (pf_id q) n2) () (\<lambda>_. ()) (\<lambda>_. p) p s"
  using assms
  by (simp_all add: pseudo_file_symlink_def pseudo_file_rename_def pseudo_file_link_def same_server_def)
     (rule two_name_server[where m = "h_symlink h (pf_id p)"]
           two_name_server[where m = "\<lambda>n1. h_rename h (pf_id p) n1 (pf_id q)"]
           two_name_server[where m = "\<lambda>n1. h_link h (pf_id p) n1 0 (pf_id q)"]; simp add: handle_op_def)+

lemma pseudo_unlink_server:
  assumes "abi_ok A" "length n < 2 ^ 16" "proper_errors (h_unlink h (pf_id p) n fl) s"
  shows "pseudo_file_unlink A (server_rpc A h) n fl p s = outcome (h_unlink h (pf_id p) n fl) () (\<lambda>_. ()) (\<lambda>_. p) p s"
  unfolding pseudo_file_unlink_def
  by (rule simple_request_server) (use assms in \<open>simp_all add: handle_op_def unat_of_nat_16\<close>)

lemma outcome_eq:
  assumes "abi_ok A" "proper_errors m s"
    and "\<And>x s'. m s = Some (Inr x, s') \<Longrightarrow> \<exists>resp b. k x = tret (resp, b) \<and> cont (resp, b, s') = Some (ESUCCESS, f x, g x, s')"
    and "\<And>resp s'. rpc_failed resp \<Longrightarrow> cont (resp, [], s') = Some (rpc_errno A resp, d, p, s')"
    and "handle_op A h rq (take (unat (rq_send_length rq)) buf) = tbind m k"
  shows "Option.bind (send_request (server_rpc A h) p rq buf s) cont = outcome m d f g p s"
proof (cases "m s")
  case None
  with assms(5) show ?thesis by (simp add: send_request_def server_rpc_def handle_request_def outcome_def tbind_def)
next
  case (Some rs)
  obtain r s' where rs: "rs = (r, s')" by fastforce
  show ?thesis
  proof (cases r)
    case (Inl e)
    with Some rs assms(2) have "e \<noteq> ESUCCESS" by (simp add: proper_errors_def)
    with Inl Some rs assms(4)[of "error_response A e" s'] assms(5) error_response_simps[OF assms(1), of e] show ?thesis
      by (simp add: send_request_def server_rpc_def handle_request_def outcome_def tbind_def)
  next
    case (Inr x)
    with Some rs assms(3)[of x s'] assms(5) show ?thesis
      by (auto simp: send_request_def server_rpc_def handle_request_def outcome_def tbind_def tret_def)
  qed
qed

lemma pseudo_write_server:
  assumes "abi_ok A" "length d < 2 ^ 16" "pf_flags p AND FILE_CONST A FDFLAG_APPEND = 0"
    and "proper_errors (h_pwrite h (pf_id p) (pf_pos p) d) s"
  shows "pseudo_write A (server_rpc A h) d p s =
    outcome (h_pwrite h (pf_id p) (pf_pos p) d) (of_nat (length d)) (\<lambda>_. of_nat (length d))
      (\<lambda>_. p\<lparr>pf_pos := pf_pos p + of_nat (length d)\<rparr>) p s"
proof -
  have l: "ucast (of_nat (length d) :: u32) = (of_nat (length d) :: u16)" "ucast (of_nat (length d) :: u32) = (of_nat (length d) :: u64)"
    using assms(2) by (simp_all add: word_eq_iff_unsigned unsigned_ucast_eq unsigned_of_nat take_bit_nat_eq_self)
  show ?thesis unfolding pseudo_write_def Let_def l assms(3)
    by (rule outcome_eq[OF assms(1,4)])
       (use assms(2) in \<open>auto simp: reply_def handle_op_def handle_pwrite_def is_append_def has_def unat_of_nat_16\<close>)
qed

lemma pseudo_read_server:
  assumes "abi_ok A" "unat n < 2 ^ 16" "proper_errors (h_pread h (pf_id p) (pf_pos p) n) s"
    and "\<And>d s'. h_pread h (pf_id p) (pf_pos p) n s = Some (Inr d, s') \<Longrightarrow> length d \<le> unat n"
  shows "pseudo_read A (server_rpc A h) n p s =
    outcome (h_pread h (pf_id p) (pf_pos p) n) [] (\<lambda>d. d) (\<lambda>d. p\<lparr>pf_pos := pf_pos p + of_nat (length d)\<rparr>) p s"
proof -
  have c: "(if n > 0xffff then 0xffff else n) = n" using assms(2) by (simp add: word_less_nat_alt)
  have u: "unat (ucast n :: u16) = unat n"
    using assms(2) by (simp add: unsigned_ucast_eq take_bit_nat_eq_self)
  have w: "ucast (ucast n :: u16) = n"
    by (rule word_unat_eq_iff[THEN iffD2]) (use assms(2) in \<open>simp add: unsigned_ucast_eq unsigned_take_bit_eq take_bit_nat_eq_self\<close>)
  let ?rq = "new_request (pf_id p) OP_pread\<lparr>rq_offset := pf_pos p, rq_recv_length := ucast n\<rparr>"
  show ?thesis unfolding pseudo_read_def c Let_def
  proof (rule outcome_eq[OF assms(1,3), where k = "\<lambda>d. give ?rq (d, 0)"], goal_cases)
    case (1 d s')
    then have d: "length d \<le> unat n" by (rule assms(4))
    with assms(2) have l: "unat (of_nat (length d) :: u16) = length d" by (simp add: unat_of_nat_16)
    let ?r = "new_response\<lparr>rs_result := 0, rs_send_length := of_nat (length d)\<rparr>"
    have ul: "ucast (of_nat (length d) :: u16) = (of_nat (length d) :: u32)" "ucast (of_nat (length d) :: u32) = (of_nat (length d) :: u64)"
      using d assms(2) by (simp_all add: word_eq_iff_unsigned unsigned_ucast_eq unsigned_of_nat take_bit_nat_eq_self)
    have un: "unat (of_nat (length d) :: u32) = length d" using d assms(2) by (simp add: unat_of_nat take_bit_nat_eq_self)
    have "give ?rq (d, 0) = tret (?r, d)" using d u by (simp add: give_def)
    then show ?case using d l ul un by (intro exI[of _ ?r] exI[of _ d]) simp
  next
    case 3
    show ?case by (simp add: handle_op_def w)
  qed simp
qed

lemma pseudo_readlink_server:
  assumes "abi_ok A" "length path < 2 ^ 16" "unat n < 2 ^ 16" "proper_errors (h_readlink h (pf_id p) path (unat n)) s"
    and "\<And>d s'. h_readlink h (pf_id p) path (unat n) s = Some (Inr d, s') \<Longrightarrow> length d \<le> unat n"
  shows "pseudo_file_readlink A (server_rpc A h) path n p s =
    outcome (h_readlink h (pf_id p) path (unat n)) [] (\<lambda>d. d) (\<lambda>_. p) p s"
proof -
  have u: "unat (ucast n :: u16) = unat n"
    using assms(3) by (simp add: unsigned_ucast_eq take_bit_nat_eq_self)
  let ?rq = "new_request (pf_id p) OP_readlink\<lparr>rq_recv_length := ucast n, rq_send_length := of_nat (length path)\<rparr>"
  show ?thesis unfolding pseudo_file_readlink_def Let_def
  proof (rule outcome_eq[OF assms(1,4), where k = "\<lambda>d. give ?rq (d, 0)"], goal_cases)
    case (1 d s')
    then have d: "length d \<le> unat n" by (rule assms(5))
    with assms(3) have l: "unat (of_nat (length d) :: u16) = length d" by (simp add: unat_of_nat_16)
    let ?r = "new_response\<lparr>rs_result := 0, rs_send_length := of_nat (length d)\<rparr>"
    have "give ?rq (d, 0) = tret (?r, d)" using d u by (simp add: give_def)
    then show ?case using d l by (intro exI[of _ ?r] exI[of _ d]) simp
  next
    case 3
    show ?case using assms(2) by (simp add: handle_op_def u unat_of_nat_16)
  qed simp
qed

text \<open>
  What the descriptors rely on: an error of a method is not the number of success, and a
  method that reads gives no more than it is asked for.
\<close>

definition proper_server :: "'s reverse_handler \<Rightarrow> bool" where
  "proper_server h \<longleftrightarrow> (\<forall>s i j a b n fl off d.
     proper_errors (h_pread h i off (of_nat n)) s \<and> proper_errors (h_pwrite h i off d) s \<and>
     proper_errors (h_readlink h i a n) s \<and> proper_errors (h_unlink h i a fl) s \<and>
     proper_errors (h_symlink h i a b) s \<and> proper_errors (h_rename h i a j b) s \<and> proper_errors (h_link h i a 0 j b) s \<and>
     (\<forall>c s'. (h_pread h i off (of_nat n) s = Some (Inr c, s') \<longrightarrow> length c \<le> unat (of_nat n :: u32)) \<and>
             (h_readlink h i a n s = Some (Inr c, s') \<longrightarrow> length c \<le> n)))"


subsection \<open>The temporary file system is such a server\<close>

lemma proper_errors_throw: "e \<noteq> ESUCCESS \<Longrightarrow> proper_errors (tthrow e) s"
  by (simp add: proper_errors_def tthrow_def)

lemma proper_errors_ret: "proper_errors (tret x) s"
  by (simp add: proper_errors_def tret_def)

lemma proper_errors_none: "proper_errors (\<lambda>s. None) s"
  by (simp add: proper_errors_def)

lemma proper_errors_bind: "(\<And>s. proper_errors m s) \<Longrightarrow> (\<And>x s. proper_errors (f x) s) \<Longrightarrow> proper_errors (tbind m f) s"
  unfolding proper_errors_def tbind_def by (fastforce split: option.splits sum.splits)

lemma proper_errors_if: "proper_errors m s \<Longrightarrow> proper_errors m' s \<Longrightarrow> proper_errors (if b then m else m') s"
  by simp

lemma proper_errors_case: "proper_errors m s \<Longrightarrow> (\<And>x. proper_errors (f x) s) \<Longrightarrow> proper_errors (case y of None \<Rightarrow> m | Some x \<Rightarrow> f x) s"
  by (cases y) simp_all

lemma proper_errors_tm:
  "proper_errors (deref e) s" "proper_errors (upd e g) s" "proper_errors (get_file_entry_from_pseudo i) s"
  by (auto simp: proper_errors_def deref_def upd_def get_file_entry_from_pseudo_def tthrow_def tret_def split: option.splits)

lemma proper_errors_stamp: "proper_errors (stamp_dirs t d1 d2) s"
  unfolding stamp_dirs_def by (intro proper_errors_bind proper_errors_tm)

lemmas proper_errors_intros = proper_errors_bind proper_errors_if proper_errors_case proper_errors_tm proper_errors_stamp
  proper_errors_throw proper_errors_ret proper_errors_none

lemma tmpfs_symlink_proper: "proper_errors (tmpfs_symlink E i a b) s"
proof -
  have u: "upd d g s' \<noteq> Some (Inl ESUCCESS, s'')" for d g s' s''
    using proper_errors_tm(2)[of d g s'] by (auto simp: proper_errors_def)
  have "proper_errors (\<lambda>s. upd (d s) (g s) (h s)) s" for d g and h :: "tmpfs \<Rightarrow> tmpfs" and s
    unfolding proper_errors_def using u by blast
  then show ?thesis unfolding tmpfs_symlink_def Let_def
    by (intro proper_errors_bind proper_errors_if proper_errors_tm proper_errors_throw) simp_all
qed

lemma tmpfs_proper_ops:
  "proper_errors (tmpfs_pread E i off n) s" "proper_errors (tmpfs_pwrite E i off d) s" "proper_errors (tmpfs_unlink A E i a fl) s"
  "proper_errors (tmpfs_rename E i a j b) s" "proper_errors (tmpfs_link E i a j b) s" "proper_errors (tmpfs_readlink E i a k) s"
  unfolding tmpfs_pread_def tmpfs_pwrite_def tmpfs_unlink_def tmpfs_rename_def tmpfs_link_def tmpfs_readlink_def Let_def
  by (intro proper_errors_intros; simp)+

lemma tmpfs_proper: "proper_server (tmpfs_handler A E)"
  unfolding proper_server_def handler_simps
  using pread_length readlink_length by (auto intro: tmpfs_proper_ops tmpfs_symlink_proper)

text \<open>A descriptor of the file that is open as number 9 in the sample file system.\<close>

definition sample_pfd :: pfd where
  "sample_pfd = new_pseudo_fd 9 0 FT_REGULAR_FILE 0"


end
