(* ===== verification/Kernel_Fs.thy ===== *)
theory Kernel_Fs
  imports Vfs Numeric
begin

text \<open>
  The file systems that the kernel serves itself: the files in memory of \<^verbatim>\<open>fd/memory_fd.cpp\<close>, the
  binaries linked into the kernel (\<^verbatim>\<open>fd/bootfs.cpp\<close>) and information about the kernel
  (\<^verbatim>\<open>fd/procfs.cpp\<close>). A method takes and gives the object it runs on. Names of descriptors are
  only for debugging and are left out. A file in memory has its own bytes, or it is a range of
  the kernel's memory with a length.

  The methods that open an inode do not assign \<^verbatim>\<open>error\<close> when they succeed, so the member is part
  of the object here and such a method gives its old value.
\<close>

subsection \<open>Objects\<close>

datatype kfd_kind =
    BOOTFS_DIR | PROCFS_DIR "bytes list" | MEMORY bytes u64 | MEMORY_AT u32 u32 u64
  | PROCFS_UPTIME | PROCFS_CMDLINE | PROCFS_ALLOCTRACK

record kfd =
  kf_kind :: kfd_kind
  kf_flags :: u16
  kf_device :: u64
  kf_error :: errno
  kf_pos :: u64

definition new_kfd :: "kfd_kind \<Rightarrow> kfd" where
  "new_kfd k = \<lparr>kf_kind = k, kf_flags = 0, kf_device = 0, kf_error = ESUCCESS, kf_pos = 0\<rparr>"

fun kf_type :: "kfd_kind \<Rightarrow> filetype" where
  "kf_type BOOTFS_DIR = FT_DIRECTORY"
| "kf_type (PROCFS_DIR path) = FT_DIRECTORY"
| "kf_type (MEMORY c ino) = FT_REGULAR_FILE"
| "kf_type (MEMORY_AT a len ino) = FT_REGULAR_FILE"
| "kf_type PROCFS_UPTIME = FT_REGULAR_FILE"
| "kf_type PROCFS_CMDLINE = FT_REGULAR_FILE"
| "kf_type PROCFS_ALLOCTRACK = FT_REGULAR_FILE"

text \<open>
  What the objects take from the rest of the kernel: the table of binaries with their names,
  the command line, the seconds since the kernel started, and memory.
\<close>

record kenv =
  ke_binaries :: "(bytes \<times> bytes) list"
  ke_cmdline :: "bytes option"
  ke_uptime :: u64
  ke_memory :: "u32 \<Rightarrow> u8"

type_synonym 'a kmethod = "kenv \<Rightarrow> kfd \<Rightarrow> (errno \<times> 'a \<times> kfd) option"

text \<open>
  \<open>strncmp_eq n a b\<close> is \<^verbatim>\<open>strncmp(a, b, n) == 0\<close>; a string ends at a null byte or at the end of the
  list, where the null byte follows in memory.
\<close>

fun char_at :: "bytes \<Rightarrow> u8" where
  "char_at [] = 0"
| "char_at (c # cs) = c"

fun strncmp_eq :: "nat \<Rightarrow> bytes \<Rightarrow> bytes \<Rightarrow> bool" where
  "strncmp_eq 0 a b \<longleftrightarrow> True"
| "strncmp_eq (Suc n) a b \<longleftrightarrow>
     (if char_at a = 0 \<and> char_at b = 0 then True
      else if char_at a \<noteq> char_at b then False
      else strncmp_eq n (tl a) (tl b))"

subsection \<open>Files in memory\<close>

definition file_length :: "bytes \<Rightarrow> u32" where
  "file_length c = of_nat (length c)"

definition memory_bytes :: "(u32 \<Rightarrow> u8) \<Rightarrow> u32 \<Rightarrow> nat \<Rightarrow> bytes" where
  "memory_bytes m a n = map (\<lambda>i. m (a + of_nat i)) [0..<n]"

definition memory_read :: "bytes \<Rightarrow> u32 \<Rightarrow> kfd \<Rightarrow> errno \<times> bytes \<times> kfd" where
  "memory_read c cnt k =
     (if kf_pos k \<ge> ucast (file_length c) then (ESUCCESS, [], k)
      else let bytes_left = (ucast (ucast (file_length c) - kf_pos k) :: u32);
               copied = (if cnt < bytes_left then cnt else bytes_left)
           in (ESUCCESS, take (unat copied) (drop (unat (kf_pos k)) c), k\<lparr>kf_pos := kf_pos k + ucast copied\<rparr>))"

definition memory_filestat :: "u32 \<Rightarrow> u64 \<Rightarrow> kfd \<Rightarrow> filestat" where
  "memory_filestat len ino k = \<lparr>st_dev = kf_device k, st_ino = ino, st_filetype = kf_type (kf_kind k), st_nlink = 1,
     st_size = ucast len, st_atim = 0, st_mtim = 0, st_ctim = 0\<rparr>"

text \<open>
  \<^verbatim>\<open>read\<close> of the files of \<^verbatim>\<open>procfs\<close>: the contents are made for each call. The seconds are printed
  to a buffer of ten bytes; a number that does not fit gives a null pointer, whose length is
  then taken.
\<close>

definition uptime_string :: "u64 \<Rightarrow> bytes option" where
  "uptime_string seconds =
     (case ui64toa_s seconds (replicate 10 0) 10 10 of
        (buf, None) \<Rightarrow> None
      | (buf, Some i) \<Rightarrow> Some (takeWhile (\<lambda>c. c \<noteq> 0) (drop i buf)))"

definition kfd_read :: "u32 \<Rightarrow> bytes kmethod" where
  "kfd_read cnt env k =
     (case kf_kind k of
        MEMORY c ino \<Rightarrow> Some (memory_read c cnt k)
      | MEMORY_AT a len ino \<Rightarrow> Some (memory_read (memory_bytes (ke_memory env) a (unat len)) cnt k)
      | PROCFS_UPTIME \<Rightarrow> do { c \<leftarrow> uptime_string (ke_uptime env); Some (memory_read c cnt k) }
      | PROCFS_CMDLINE \<Rightarrow> Some (memory_read (case ke_cmdline env of None \<Rightarrow> [] | Some c \<Rightarrow> c) cnt k)
      | _ \<Rightarrow> Some (EINVAL, [], k))"

definition kfd_write :: "bytes \<Rightarrow> u32 kmethod" where
  "kfd_write buf env k =
     (case kf_kind k of
        PROCFS_ALLOCTRACK \<Rightarrow> Some (ESUCCESS, of_nat (length buf), k)
      | _ \<Rightarrow> Some (EINVAL, 0, k))"

definition kfd_stat_fget :: "filestat kmethod" where
  "kfd_stat_fget env k =
     (case kf_kind k of
        MEMORY c ino \<Rightarrow> Some (ESUCCESS, memory_filestat (file_length c) ino k, k)
      | MEMORY_AT a len ino \<Rightarrow> Some (ESUCCESS, memory_filestat len ino k, k)
      | PROCFS_UPTIME \<Rightarrow> Some (ESUCCESS, memory_filestat 0 0 k, k)
      | PROCFS_CMDLINE \<Rightarrow> Some (ESUCCESS, memory_filestat 0 0 k, k)
      | _ \<Rightarrow> Some (ESUCCESS, fd_t_filestat (kf_device k) (kf_type (kf_kind k)), k))"

definition kfd_seekable :: "kfd \<Rightarrow> bool" where
  "kfd_seekable k = (case kf_kind k of MEMORY c ino \<Rightarrow> True | MEMORY_AT a len ino \<Rightarrow> True
      | PROCFS_UPTIME \<Rightarrow> True | PROCFS_CMDLINE \<Rightarrow> True | _ \<Rightarrow> False)"

subsection \<open>The binaries in the kernel\<close>

text \<open>The members of the result that every lookup sets; the others are whatever was there.\<close>

definition lookup_base :: "filestat \<Rightarrow> kfd \<Rightarrow> filestat" where
  "lookup_base junk k = junk\<lparr>st_dev := kf_device k, st_nlink := 1, st_atim := 0, st_mtim := 0, st_ctim := 0\<rparr>"

fun find_binary :: "bytes \<Rightarrow> (bytes \<times> bytes) list \<Rightarrow> nat \<Rightarrow> nat option" where
  "find_binary file [] i = None"
| "find_binary file ((name, c) # bs) i = (if strncmp_eq (length file) file name then Some i else find_binary file bs (Suc i))"

definition bootfs_lookup :: "filestat \<Rightarrow> bytes \<Rightarrow> filestat kmethod" where
  "bootfs_lookup junk file env k =
     (let st = lookup_base junk k in
      if strncmp_eq (length file) file dot
      then Some (ESUCCESS, st\<lparr>st_ino := 0, st_filetype := FT_DIRECTORY, st_size := 0\<rparr>, k)
      else case find_binary file (ke_binaries env) 0 of
             Some i \<Rightarrow> Some (ESUCCESS, st\<lparr>st_ino := of_nat (i + 1), st_filetype := FT_REGULAR_FILE,
                         st_size := ucast (file_length (snd (ke_binaries env ! i)))\<rparr>, k)
           | None \<Rightarrow> Some (ENOENT, st, k))"

definition bootfs_inode_open :: "u64 \<Rightarrow> u64 \<Rightarrow> kfd option kmethod" where
  "bootfs_inode_open dev ino env k =
     (if dev \<noteq> kf_device k then Some (EINVAL, None, k)
      else if 1 \<le> unat ino \<and> unat ino \<le> length (ke_binaries env)
      then Some (kf_error k, Some (new_kfd (MEMORY (snd (ke_binaries env ! (unat ino - 1))) 0)), k)
      else Some (EINVAL, None, k))"

subsection \<open>Information about the kernel\<close>

definition kernel_str :: bytes where "kernel_str = [0x6b, 0x65, 0x72, 0x6e, 0x65, 0x6c]"
definition uptime_str :: bytes where "uptime_str = [0x75, 0x70, 0x74, 0x69, 0x6d, 0x65]"
definition alloctracker_str :: bytes where
  "alloctracker_str = [0x61, 0x6c, 0x6c, 0x6f, 0x63, 0x74, 0x72, 0x61, 0x63, 0x6b, 0x65, 0x72]"
definition cmdline_str :: bytes where "cmdline_str = [0x63, 0x6d, 0x64, 0x6c, 0x69, 0x6e, 0x65]"

text \<open>The path of a directory; \<^term>\<open>None\<close> if it does not fit in \<open>len\<close> bytes with a null byte.\<close>

fun procfs_to_string :: "nat \<Rightarrow> bytes list \<Rightarrow> bytes \<Rightarrow> bytes option" where
  "procfs_to_string len [] buf = Some buf"
| "procfs_to_string len (p # ps) buf =
     (if length p \<ge> len - length buf \<or> length p \<ge> len - length buf - 1 then None
      else procfs_to_string len ps (buf @ p @ [slash]))"

definition PROCFS_BUF :: nat where "PROCFS_BUF = 5 * (40 + 1)"

definition procfs_lookup :: "filestat \<Rightarrow> bytes \<Rightarrow> bytes list \<Rightarrow> filestat kmethod" where
  "procfs_lookup junk file path env k =
     (let st = lookup_base junk k;
          found = (\<lambda>ino t. Some (ESUCCESS, st\<lparr>st_ino := ino, st_filetype := t, st_size := 0\<rparr>, k)) in
      if strncmp_eq (length file) file dot then found 0 FT_DIRECTORY
      else do {
        buf \<leftarrow> procfs_to_string PROCFS_BUF path [];
        if length file + 1 + length buf \<ge> PROCFS_BUF then Some (ENOMEM, st, k)
        else let full = takeWhile (\<lambda>c. c \<noteq> 0) (buf @ file) in
          if full = kernel_str @ [slash] @ uptime_str then found 2 FT_REGULAR_FILE
          else if full = kernel_str @ [slash] @ alloctracker_str then found 3 FT_REGULAR_FILE
          else if full = kernel_str @ [slash] @ cmdline_str then found 4 FT_REGULAR_FILE
          else if full = kernel_str \<or> full = kernel_str @ [slash] then found 1 FT_DIRECTORY
          else Some (ENOENT, st, k)
      })"

definition procfs_inode_open :: "u64 \<Rightarrow> u64 \<Rightarrow> kfd option kmethod" where
  "procfs_inode_open dev ino env k =
     (if dev \<noteq> kf_device k then Some (EINVAL, None, k)
      else if ino = 2 then Some (kf_error k, Some (new_kfd PROCFS_UPTIME), k)
      else if ino = 3 then Some (kf_error k, Some (new_kfd PROCFS_ALLOCTRACK), k)
      else if ino = 4 then Some (kf_error k, Some (new_kfd PROCFS_CMDLINE), k)
      else if ino = 1 then Some (kf_error k, Some (new_kfd (PROCFS_DIR [kernel_str])), k)
      else Some (ENOENT, None, k))"

subsection \<open>Virtual methods\<close>

definition kfd_lookup :: "filestat \<Rightarrow> bytes \<Rightarrow> filestat kmethod" where
  "kfd_lookup junk file env k =
     (case kf_kind k of
        BOOTFS_DIR \<Rightarrow> bootfs_lookup junk file env k
      | PROCFS_DIR path \<Rightarrow> procfs_lookup junk file path env k
      | _ \<Rightarrow> Some (EINVAL, junk, k))"

definition kfd_inode_open :: "u64 \<Rightarrow> u64 \<Rightarrow> kfd option kmethod" where
  "kfd_inode_open dev ino env k =
     (case kf_kind k of
        BOOTFS_DIR \<Rightarrow> bootfs_inode_open dev ino env k
      | PROCFS_DIR path \<Rightarrow> procfs_inode_open dev ino env k
      | _ \<Rightarrow> Some (EINVAL, None, k))"

text \<open>
  C32: Reading a file in memory gives the bytes from the position on, as many as are asked for or
  left, never a byte past the end, and moves the position by that number.
\<close>

theorem memory_read_exact:
  assumes "length c < 2 ^ 32"
  shows "memory_read c n k = (ESUCCESS, take (unat n) (drop (unat (kf_pos k)) c),
    k\<lparr>kf_pos := kf_pos k + of_nat (min (unat n) (length c - unat (kf_pos k)))\<rparr>)"
proof -
  have l: "unat (file_length c) = length c" using assms by (simp add: file_length_def unat_of_nat take_bit_nat_eq_self)
  then have ul: "unat (ucast (file_length c) :: u64) = length c"
    using assms by (simp add: unsigned_ucast_eq take_bit_nat_eq_self)
  show ?thesis
  proof (cases "length c \<le> unat (kf_pos k)")
    case True
    then show ?thesis by (simp add: memory_read_def word_le_nat_alt ul)
  next
    case False
    let ?left = "ucast (ucast (file_length c) - kf_pos k) :: u32"
    have u: "unat (ucast (file_length c) - kf_pos k) = length c - unat (kf_pos k)"
      using False by (simp add: unat_sub word_le_nat_alt ul)
    then have left: "unat ?left = length c - unat (kf_pos k)"
      using assms by (simp add: unsigned_ucast_eq take_bit_nat_eq_self)
    let ?n = "if n < ?left then n else ?left"
    have m: "unat ?n = min (unat n) (length c - unat (kf_pos k))" by (simp add: word_less_nat_alt left)
    then have "ucast ?n = (of_nat (min (unat n) (length c - unat (kf_pos k))) :: u64)"
      unfolding m[symmetric] by (simp only: of_nat_unat)
    moreover have "take (min (unat n) (length c - unat (kf_pos k))) (drop (unat (kf_pos k)) c) = take (unat n) (drop (unat (kf_pos k)) c)"
      by (simp add: min_def)
    ultimately show ?thesis using False m
      by (simp add: memory_read_def word_le_nat_alt ul Let_def)
  qed
qed

theorem memory_read_exact_witness:
  "fst (snd (memory_read [1, 2, 3] 9 (new_kfd PROCFS_UPTIME))) = [1, 2, 3]"
  using memory_read_exact[of "[1, 2, 3]" 9 "new_kfd PROCFS_UPTIME"] by (simp add: new_kfd_def)

end
