(* ===== verification/Initrdfs.thy ===== *)
theory Initrdfs
  imports Kernel_Fs
begin

text \<open>
  The initial ram disk, \<^verbatim>\<open>fd/initrdfs.cpp\<close>: a read-only file system over a tar archive in memory.
  Addresses are 32-bit words and wrap around; the memory around the archive is mapped. Every
  walk over the archive first puts each header in order (it ends the size with a null byte and
  cuts slashes off the end of the name), so the memory is a state.
\<close>

type_synonym mem = "u32 \<Rightarrow> u8"

subsection \<open>Headers\<close>

definition header_size :: u32 where "header_size = 512"
definition size_at :: u32 where "size_at = 124"
definition typeflag_at :: u32 where "typeflag_at = 156"

fun strnlen_at :: "mem \<Rightarrow> u32 \<Rightarrow> nat \<Rightarrow> nat" where
  "strnlen_at m a 0 = 0"
| "strnlen_at m a (Suc n) = (if m a = 0 then 0 else Suc (strnlen_at m (a + 1) n))"

definition header_name :: "mem \<Rightarrow> u32 \<Rightarrow> bytes" where
  "header_name m h = memory_bytes m h (strnlen_at m h 100)"

fun parse_octal :: "mem \<Rightarrow> u32 \<Rightarrow> nat \<Rightarrow> u32 \<Rightarrow> u32 option" where
  "parse_octal m a 0 filesize = Some filesize"
| "parse_octal m a (Suc n) filesize =
     (let digit = m a - 0x30 in if digit \<ge> 8 then None else parse_octal m (a + 1) n (filesize * 8 + ucast digit))"

fun strip_slashes :: "nat \<Rightarrow> mem \<Rightarrow> u32 \<Rightarrow> mem" where
  "strip_slashes 0 m h = m"
| "strip_slashes (Suc n) m h = (if m (h + of_nat n) = slash then strip_slashes n (m(h + of_nat n := 0)) h else m)"

definition next_header :: "u32 \<Rightarrow> u32 \<Rightarrow> u32" where
  "next_header h filesize =
     (if filesize = 0 then h + header_size
      else let pad = filesize mod 0x200; pad = (if pad \<noteq> 0 then 0x200 - pad else pad) in h + header_size + filesize + pad)"

text \<open>
  The checks of one header: the memory with the header put in order, and the size of the file if
  the header is legal.
\<close>

definition check_header :: "u32 \<Rightarrow> u32 \<Rightarrow> mem \<Rightarrow> mem \<times> u32 option" where
  "check_header e h m =
     (let namelen = strnlen_at m h 100; sizelen = strnlen_at m (h + size_at) 12; z = h + size_at + of_nat sizelen in
      if m (h + of_nat namelen) \<noteq> 0 then (m, None)
      else if m z \<noteq> 0 \<and> m z \<noteq> 0x20 then (m, None)
      else let m = m(z := 0) in
        case parse_octal m (h + size_at) sizelen 0 of
          None \<Rightarrow> (m, None)
        | Some filesize \<Rightarrow>
            if h + header_size + filesize > e then (m, None)
            else (strip_slashes namelen m h, Some filesize))"

text \<open>
  \<^verbatim>\<open>for_every_initrd_file\<close>: the callback gets the header, the size of the file, the memory and the
  variables it has captured, and says whether to stop. An archive whose sizes wrap around the
  address space can make the walk go in circles, so it is a partial function.
\<close>

partial_function (option) for_every_initrd_file ::
  "(u32 \<Rightarrow> u32 \<Rightarrow> mem \<Rightarrow> 'a \<Rightarrow> bool \<times> 'a) \<Rightarrow> u32 \<Rightarrow> u32 \<Rightarrow> mem \<Rightarrow> 'a \<Rightarrow> (errno \<times> 'a \<times> mem) option" where
  "for_every_initrd_file f e h m x =
     (if h + header_size \<le> e then
        (case check_header e h m of
           (m', None) \<Rightarrow> Some (EIO, x, m')
         | (m', Some filesize) \<Rightarrow>
             (case f h filesize m' x of (stop, x') \<Rightarrow>
                if stop then Some (ESUCCESS, x', m')
                else for_every_initrd_file f e (next_header h filesize) m' x'))
      else Some (ESUCCESS, x, m))"

declare for_every_initrd_file.simps [code]

definition is_file :: "mem \<Rightarrow> u32 \<Rightarrow> bool" where
  "is_file m h \<longleftrightarrow> m (h + typeflag_at) = 0 \<or> m (h + typeflag_at) = 0x30"

text \<open>For an empty name the last byte of the name is the byte before the header.\<close>

definition is_directory :: "mem \<Rightarrow> u32 \<Rightarrow> bool" where
  "is_directory m h \<longleftrightarrow> m (h + of_nat (length (header_name m h)) - 1) = slash \<or> m (h + typeflag_at) = 0x35"

subsection \<open>The file system\<close>

record idir =
  id_subpath :: bytes
  id_start :: u32
  id_size :: u32
  id_inode :: u64
  id_flags :: u16
  id_device :: u64

definition new_idir :: "u32 \<Rightarrow> u32 \<Rightarrow> bytes \<Rightarrow> u64 \<Rightarrow> idir" where
  "new_idir st sz sub ino = \<lparr>id_subpath = sub, id_start = st, id_size = sz, id_inode = ino, id_flags = 0, id_device = 0\<rparr>"

definition ustar_magic :: bytes where "ustar_magic = [0x75, 0x73, 0x74, 0x61, 0x72]"

definition initrdfs_init :: "mem \<Rightarrow> (u32 \<times> u32) option \<Rightarrow> u32 \<times> u32" where
  "initrdfs_init m initrd =
     (case initrd of
        None \<Rightarrow> (0, 0)
      | Some (mmo_start, mmo_end) \<Rightarrow>
          if memory_bytes m (mmo_start + 0x101) 5 \<noteq> ustar_magic then (0, 0) else (mmo_start, mmo_end - mmo_start))"

definition initrdfs_root :: "u32 \<times> u32 \<Rightarrow> idir" where
  "initrdfs_root fs = new_idir (fst fs) (snd fs) [] 0"

type_synonym 'a imethod = "idir \<Rightarrow> mem \<Rightarrow> (errno \<times> 'a \<times> mem) option"

definition strip_end :: "bytes \<Rightarrow> bytes" where
  "strip_end p = rev (dropWhile (\<lambda>c. c = slash) (rev p))"

definition initrd_fullpath :: "bytes \<Rightarrow> bytes \<Rightarrow> bytes" where
  "initrd_fullpath sub file = strip_end ((if sub = [] then [] else sub @ [slash]) @ takeWhile (\<lambda>c. c \<noteq> 0) file)"

definition lookup_callback ::
  "bytes \<Rightarrow> u32 \<Rightarrow> u32 \<Rightarrow> mem \<Rightarrow> u32 \<times> (u32 \<times> filetype \<times> u32) option \<Rightarrow> bool \<times> u32 \<times> (u32 \<times> filetype \<times> u32) option" where
  "lookup_callback fullpath h filesize m x =
     (let filenum = fst x + 1 in
      if strncmp_eq 100 (header_name m h) fullpath \<and> (is_file m h \<or> is_directory m h)
      then (True, filenum, Some (filenum, if is_directory m h then FT_DIRECTORY else FT_REGULAR_FILE, filesize))
      else (False, filenum, snd x))"

text \<open>\<^verbatim>\<open>lookup\<close> ends with \<^verbatim>\<open>error = 0\<close> whether or not the name was found.\<close>

definition initrd_lookup :: "filestat \<Rightarrow> bytes \<Rightarrow> filestat imethod" where
  "initrd_lookup junk file d m =
     (let st = junk\<lparr>st_dev := id_device d, st_nlink := 1, st_atim := 0, st_mtim := 0, st_ctim := 0\<rparr> in
      if strncmp_eq (length file) file dot
      then Some (ESUCCESS, st\<lparr>st_ino := 0, st_filetype := FT_DIRECTORY, st_size := 0\<rparr>, m)
      else if id_start d = 0 then Some (ENOENT, st, m)
      else do {
        kassert (length (id_subpath d) < 100);
        if length (id_subpath d) + length file + 1 + 1 > 100 then Some (ENAMETOOLONG, st, m)
        else do {
          (e, (filenum, found), m) \<leftarrow> for_every_initrd_file (lookup_callback (initrd_fullpath (id_subpath d) file))
             (id_start d + id_size d) (id_start d) m (1, None);
          Some (ESUCCESS, (case found of None \<Rightarrow> st
             | Some (ino, t, sz) \<Rightarrow> st\<lparr>st_ino := ucast ino, st_filetype := t, st_size := ucast sz\<rparr>), m)
        }
      })"

datatype initrd_object = INITRD_DIR idir | INITRD_FILE kfd

definition open_callback ::
  "idir \<Rightarrow> u64 \<Rightarrow> u32 \<Rightarrow> u32 \<Rightarrow> mem \<Rightarrow> u32 \<times> initrd_object option \<Rightarrow> bool \<times> u32 \<times> initrd_object option" where
  "open_callback d ino h filesize m x =
     (let filenum = fst x + 1 in
      if ucast filenum \<noteq> ino then (False, filenum, snd x)
      else if is_directory m h
      then (True, filenum, Some (INITRD_DIR (new_idir (id_start d) (id_size d) (header_name m h) (ucast filenum))))
      else if is_file m h
      then (True, filenum, Some (INITRD_FILE (new_kfd (MEMORY_AT (h + header_size) filesize (ucast filenum)))))
      else (False, filenum, snd x))"

definition initrd_inode_open :: "u64 \<Rightarrow> u64 \<Rightarrow> initrd_object option imethod" where
  "initrd_inode_open dev ino d m =
     (if dev \<noteq> id_device d then Some (EINVAL, None, m)
      else do {
        (e, (filenum, fd), m) \<leftarrow> for_every_initrd_file (open_callback d ino) (id_start d + id_size d) (id_start d) m (1, None);
        Some (if fd = None then ENOENT else ESUCCESS, fd, m)
      })"

text \<open>
  \<^verbatim>\<open>readdir\<close>. An entry lies directly in the directory if its name starts with the path of the
  directory and a slash and has no further slash. The variables are the number of the file, the
  number of the entry, the bytes written so far and the room that is left.
\<close>

definition in_directory :: "bytes \<Rightarrow> bytes \<Rightarrow> bool" where
  "in_directory sub name \<longleftrightarrow>
     length sub < 100 \<and> take (length sub) name = sub \<and> char_at (drop (length sub) name) = slash \<and>
     slash \<notin> set (drop (length sub + 1) name)"

definition readdir_callback ::
  "cloudabi \<Rightarrow> bytes \<Rightarrow> u64 \<Rightarrow> u32 \<Rightarrow> u32 \<Rightarrow> mem \<Rightarrow> u32 \<times> u32 \<times> bytes \<times> nat \<Rightarrow> bool \<times> u32 \<times> u32 \<times> bytes \<times> nat" where
  "readdir_callback A sub cookie h filesize m x =
     (case x of (filenum, entrynum, buf, nbyte) \<Rightarrow>
      let filenum = filenum + 1; name = header_name m h in
      if \<not> in_directory sub name then (False, filenum, entrynum, buf, nbyte)
      else if ucast entrynum < cookie then (False, filenum, entrynum + 1, buf, nbyte)
      else let entrynum = entrynum + 1;
               shown = (if sub = [] then name else drop (length sub + 1) name);
               dirent = \<lparr>d_next = ucast entrynum, d_ino = ucast filenum, d_namlen = of_nat (length shown),
                 d_type = (if is_directory m h then FT_DIRECTORY else if is_file m h then FT_REGULAR_FILE else FT_UNKNOWN)\<rparr>;
               entry = take nbyte (dirent_bytes A dirent @ shown)
           in (nbyte - length entry = 0, filenum, entrynum, buf @ entry, nbyte - length entry))"

definition initrd_readdir :: "cloudabi \<Rightarrow> u32 \<Rightarrow> u64 \<Rightarrow> bytes imethod" where
  "initrd_readdir A nbyte cookie d m =
     do {
       kassert (length (id_subpath d) < 100);
       (e, (filenum, entrynum, buf, left), m) \<leftarrow> for_every_initrd_file (readdir_callback A (id_subpath d) cookie)
          (id_start d + id_size d) (id_start d) m (1, 0, [], unat nbyte);
       Some (e, buf, m)
     }"

definition initrd_stat_fget :: "filestat imethod" where
  "initrd_stat_fget d m = Some (ESUCCESS, \<lparr>st_dev = id_device d, st_ino = id_inode d, st_filetype = FT_DIRECTORY,
     st_nlink = 0, st_size = 0, st_atim = 0, st_mtim = 0, st_ctim = 0\<rparr>, m)"

definition initrd_file_create :: "bytes \<Rightarrow> filetype \<Rightarrow> u64 imethod" where
  "initrd_file_create file t d m = Some (EROFS, 0, m)"

subsection \<open>The walk ends\<close>

text \<open>
  Bytes of a header stay in the header, so the walk finds the sizes of the later headers
  unchanged. \<open>legal_sizes\<close> says that no size in the archive makes the addresses wrap around.
\<close>

definition archive_size :: "mem \<Rightarrow> u32 \<Rightarrow> u32 option" where
  "archive_size m h = parse_octal m (h + size_at) (strnlen_at m (h + size_at) 12) 0"

definition legal_sizes :: "u32 \<Rightarrow> mem \<Rightarrow> bool" where
  "legal_sizes e m \<longleftrightarrow> unat e < 2 ^ 31 \<and>
     (\<forall>h. unat h + 512 \<le> unat e \<longrightarrow> (\<forall>n. archive_size m h = Some n \<longrightarrow> unat n < 2 ^ 31))"

lemma strnlen_at_le: "strnlen_at m a n \<le> n"
  by (induction m a n rule: strnlen_at.induct) auto

lemma strnlen_at_cong: "(\<And>i. i < n \<Longrightarrow> m (a + of_nat i) = m' (a + of_nat i)) \<Longrightarrow> strnlen_at m a n = strnlen_at m' a n"
proof (induction m a n rule: strnlen_at.induct)
  case (2 m a n)
  have "m a = m' a" using "2.prems"[of 0] by simp
  moreover have "m (a + 1 + of_nat i) = m' (a + 1 + of_nat i)" if "i < n" for i
    using "2.prems"[of "Suc i"] that by (simp add: add.assoc)
  ultimately show ?case using "2.IH" by simp
qed simp

lemma parse_octal_cong:
  "(\<And>i. i < n \<Longrightarrow> m (a + of_nat i) = m' (a + of_nat i)) \<Longrightarrow> parse_octal m a n s = parse_octal m' a n s"
proof (induction m a n s rule: parse_octal.induct)
  case (2 m a n s)
  have "m a = m' a" using "2.prems"[of 0] by simp
  moreover have "m (a + 1 + of_nat i) = m' (a + 1 + of_nat i)" if "i < n" for i
    using "2.prems"[of "Suc i"] that by (simp add: add.assoc)
  ultimately show ?case using "2.IH" by (simp add: Let_def)
qed simp

text \<open>What one step does to the memory.\<close>

lemma strip_slashes_changes:
  "strip_slashes n m h a \<noteq> m a \<Longrightarrow> strip_slashes n m h a = 0 \<and> (\<exists>i < n. a = h + of_nat i)"
proof (induction n m h rule: strip_slashes.induct)
  case (2 n m h)
  show ?case
  proof (cases "m (h + of_nat n) = slash")
    case True
    then have s: "strip_slashes (Suc n) m h = strip_slashes n (m(h + of_nat n := 0)) h" by simp
    show ?thesis
    proof (cases "strip_slashes n (m(h + of_nat n := 0)) h a = (m(h + of_nat n := 0)) a")
      case True
      with "2.prems" s show ?thesis by (auto split: if_splits)
    next
      case False
      from "2.IH"[OF \<open>m (h + of_nat n) = slash\<close> False] obtain i where
        "strip_slashes n (m(h + of_nat n := 0)) h a = 0" "i < n" "a = h + of_nat i" by blast
      then show ?thesis unfolding s by (intro conjI exI[of _ i]) simp_all
    qed
  next
    case False
    with "2.prems" show ?thesis by simp
  qed
qed simp

lemma check_header_changes:
  assumes "fst (check_header e h m) a \<noteq> m a"
  shows "fst (check_header e h m) a = 0 \<and> (\<exists>i \<le> 136. a = h + of_nat i)"
proof -
  let ?n = "strnlen_at m h 100" and ?s = "strnlen_at m (h + size_at) 12"
  let ?z = "h + size_at + of_nat ?s"
  have z: "?z = h + of_nat (124 + ?s)" by (simp add: size_at_def add.assoc)
  have le: "?n \<le> 100" "?s \<le> 12" by (rule strnlen_at_le)+
  have c: "fst (check_header e h m) \<in> {m, m(?z := 0), strip_slashes ?n (m(?z := 0)) h}"
    by (auto simp: check_header_def Let_def split: option.splits)
  consider "fst (check_header e h m) a = (m(?z := 0)) a"
    | "fst (check_header e h m) a = strip_slashes ?n (m(?z := 0)) h a" "strip_slashes ?n (m(?z := 0)) h a \<noteq> (m(?z := 0)) a"
    using c assms by (metis empty_iff insert_iff)
  then show ?thesis
  proof cases
    case 1
    with assms have "a = ?z" "fst (check_header e h m) a = 0" by (auto split: if_splits)
    with z le show ?thesis by (intro conjI exI[of _ "124 + ?s"]) auto
  next
    case 2
    from strip_slashes_changes[OF 2(2)] obtain i where
      "strip_slashes ?n (m(?z := 0)) h a = 0" "i < ?n" "a = h + of_nat i" by blast
    with 2(1) le show ?thesis by (intro conjI exI[of _ i]) simp_all
  qed
qed

lemma check_header_size:
  assumes "check_header e h m = (m', Some n)"
  shows "archive_size m h = Some n \<and> h + header_size + n \<le> e"
proof -
  let ?s = "strnlen_at m (h + size_at) 12"
  let ?z = "h + size_at + of_nat ?s"
  have ne: "h + size_at + of_nat i \<noteq> ?z" if "i < ?s" for i
  proof
    assume "h + size_at + of_nat i = ?z"
    then have "(of_nat i :: u32) = of_nat ?s" by simp
    then have "i = ?s" using that strnlen_at_le[of m "h + size_at" 12]
      by (simp add: word_of_nat_eq_iff take_bit_nat_eq_self)
    with that show False by simp
  qed
  have "parse_octal (m(?z := 0)) (h + size_at) ?s 0 = parse_octal m (h + size_at) ?s 0"
    by (rule parse_octal_cong) (use ne in simp)
  with assms show ?thesis
    by (auto simp: check_header_def Let_def archive_size_def not_less split: if_splits option.splits)
qed


lemma header_fits: "unat e < 2 ^ 31 \<Longrightarrow> h + header_size \<le> e \<Longrightarrow> unat h \<le> unat e + 511 \<Longrightarrow> unat h + 512 \<le> unat e"
  by (simp add: word_le_nat_alt header_size_def unat_word_ariths)

lemma next_header_unat:
  assumes "unat e < 2 ^ 31" "unat h + 512 \<le> unat e" "unat n < 2 ^ 31" "h + header_size + n \<le> e"
  shows "unat h + 512 \<le> unat (next_header h n) \<and> unat (next_header h n) \<le> unat e + 511"
proof -
  have s: "unat (h + header_size + n) = unat h + 512 + unat n"
    using assms by (simp add: header_size_def unat_word_ariths)
  then have le: "unat h + 512 + unat n \<le> unat e" using assms(4) by (simp add: word_le_nat_alt)
  let ?p = "if n mod 0x200 \<noteq> 0 then 0x200 - n mod 0x200 else n mod 0x200"
  have p: "unat ?p \<le> 511"
  proof (cases "n mod 0x200 = 0")
    case False
    then have "unat (n mod 0x200) \<noteq> 0" by (simp add: unat_eq_zero)
    moreover have m: "unat (n mod 0x200) < 512" by (simp add: unat_mod)
    moreover have "unat (0x200 - n mod 0x200) = 512 - unat (n mod 0x200)"
      using m by (simp add: unat_sub word_le_nat_alt)
    ultimately show ?thesis using False by simp
  qed simp
  have "unat (h + header_size + n + ?p) = unat h + 512 + unat n + unat ?p"
    using s le p assms(1) by (subst unat_word_ariths) simp
  moreover have "unat (h + header_size) = unat h + 512" using assms by (simp add: header_size_def unat_word_ariths)
  ultimately show ?thesis using le p by (auto simp: next_header_def Let_def)
qed

lemma walk_ends:
  assumes "unat e < 2 ^ 31" "unat h \<le> unat e + 511"
    and "\<And>h' n. unat h \<le> unat h' \<Longrightarrow> unat h' + 512 \<le> unat e \<Longrightarrow> archive_size m h' = Some n \<Longrightarrow> unat n < 2 ^ 31"
  shows "\<exists>er x' m'. for_every_initrd_file f e h m x = Some (er, x', m')"
  using assms
proof (induction "unat e + 1024 - unat h" arbitrary: h m x rule: less_induct)
  case less
  show ?case
  proof (cases "h + header_size \<le> e")
    case False
    then show ?thesis by (subst for_every_initrd_file.simps) simp
  next
    case True
    then have fit: "unat h + 512 \<le> unat e" using less.prems(1,2) by (intro header_fits) simp_all
    obtain m1 r where c: "check_header e h m = (m1, r)" by fastforce
    show ?thesis
    proof (cases r)
      case None
      with True c show ?thesis by (subst for_every_initrd_file.simps) simp
    next
      case (Some n)
      with c have n: "archive_size m h = Some n" "h + header_size + n \<le> e" using check_header_size by blast+
      have n31: "unat n < 2 ^ 31" using less.prems(3)[of h n] fit n by simp
      obtain stop x1 where fx: "f h n m1 x = (stop, x1)" by fastforce
      let ?h = "next_header h n"
      have nh: "unat h + 512 \<le> unat ?h" "unat ?h \<le> unat e + 511"
        using next_header_unat[OF less.prems(1) fit n31 n(2)] by auto
      have same: "m1 a = m a" if "unat h + 512 \<le> unat a" for a
      proof (rule ccontr)
        assume "m1 a \<noteq> m a"
        then obtain i where "i \<le> 136" "a = h + of_nat i" using check_header_changes[of e h m a] c by auto
        then have "unat a = unat h + i" using fit less.prems(1) by (simp add: unat_word_ariths unat_of_nat)
        with that \<open>i \<le> 136\<close> show False by simp
      qed
      have arch: "archive_size m1 h' = archive_size m h'" if "unat ?h \<le> unat h'" "unat h' + 512 \<le> unat e" for h'
      proof -
        have a: "m1 (h' + size_at + of_nat i) = m (h' + size_at + of_nat i)" if "i < 12" for i
        proof (rule same)
          have "unat (h' + size_at + of_nat i) = unat h' + 124 + i"
            using that \<open>unat h' + 512 \<le> unat e\<close> less.prems(1) by (simp add: size_at_def unat_word_ariths unat_of_nat)
          with \<open>unat ?h \<le> unat h'\<close> nh show "unat h + 512 \<le> unat (h' + size_at + of_nat i)" by simp
        qed
        have "strnlen_at m1 (h' + size_at) 12 = strnlen_at m (h' + size_at) 12" by (rule strnlen_at_cong) (rule a)
        then show ?thesis unfolding archive_size_def
          using parse_octal_cong[of "strnlen_at m (h' + size_at) 12" m1 "h' + size_at" m] a strnlen_at_le[of m "h' + size_at" 12] by simp
      qed
      have "\<exists>er x' m'. for_every_initrd_file f e ?h m1 x1 = Some (er, x', m')"
      proof (rule less.hyps)
        show "unat e + 1024 - unat ?h < unat e + 1024 - unat h" using nh by simp
        show "unat n' < 2 ^ 31" if "unat ?h \<le> unat h'" "unat h' + 512 \<le> unat e" "archive_size m1 h' = Some n'" for h' n'
          using less.prems(3)[of h' n'] arch[of h'] that nh by simp
      qed (use less.prems nh in simp_all)
      with True c Some fx show ?thesis by (subst for_every_initrd_file.simps) (simp split: if_splits)
    qed
  qed
qed

lemma walk_returns:
  assumes "legal_sizes (id_start d + id_size d) m" "unat (id_start d) \<le> unat (id_start d + id_size d)"
  shows "\<exists>er x' m'. for_every_initrd_file f (id_start d + id_size d) (id_start d) m x = Some (er, x', m')"
  using assms by (intro walk_ends) (auto simp: legal_sizes_def)


text \<open>An archive with one empty file \<^verbatim>\<open>a\<close>, at address 4096.\<close>

definition sample_archive :: mem where
  "sample_archive = (\<lambda>_. 0)(0x1000 := 0x61)"

definition sample_idir :: idir where
  "sample_idir = initrdfs_root (0x1000, 0x200)"

lemma sample_strnlen: "strnlen_at sample_archive a 12 = (if a = 0x1000 then 1 else 0)"
proof -
  have "strnlen_at sample_archive a (Suc (Suc k)) = (if a = 0x1000 then 1 else 0)" for k
    by (simp add: sample_archive_def)
  from this[of 10] show ?thesis by simp
qed

lemma sample_legal: "legal_sizes (id_start sample_idir + id_size sample_idir) sample_archive"
proof -
  have "archive_size sample_archive h = Some n \<Longrightarrow> unat n < 2 ^ 31" for h n
    by (cases "h + size_at = 0x1000") (auto simp: archive_size_def sample_strnlen, simp add: sample_archive_def)
  then show ?thesis by (simp add: legal_sizes_def sample_idir_def initrdfs_root_def new_idir_def)
qed


text \<open>What every step keeps of the header, the memory and the captured variables holds at the end.\<close>

lemma walk_invariant:
  assumes r: "for_every_initrd_file f e h m x = Some y" and "P h m x"
    and step: "\<And>h m x m1 n s x1. P h m x \<Longrightarrow> check_header e h m = (m1, Some n) \<Longrightarrow> f h n m1 x = (s, x1) \<Longrightarrow>
      Q x1 \<and> P (next_header h n) m1 x1"
    and now: "\<And>h m x. P h m x \<Longrightarrow> Q x"
  shows "Q (fst (snd y))"
proof -
  let ?I = "\<lambda>f' e' h m x y. f' = f \<longrightarrow> e' = e \<longrightarrow> P h m x \<longrightarrow> Q (fst (snd y))"
  have "?I f e h m x y"
  proof (rule for_every_initrd_file.raw_induct[of ?I "((((f, e), h), m), x)" y, unfolded prod.case], goal_cases)
    case (1 F f' e' h m x y)
    show ?case
    proof (intro impI)
      assume eq: "f' = f" "e' = e" and P: "P h m x"
      have IH: "Q (fst (snd y))" if "F f e h m x = Some y" "P h m x" for h m x using 1(1)[OF that(1)] that(2) by simp
      obtain m1 r where c: "check_header e h m = (m1, r)" by (cases "check_header e h m")
      show "Q (fst (snd y))"
      proof (cases "h + header_size \<le> e \<and> r \<noteq> None")
        case False
        with 1(2) eq c now[OF P] show ?thesis by (auto split: if_splits)
      next
        case True
        then obtain k where k: "r = Some k" by blast
        obtain s x1 where fx: "f h k m1 x = (s, x1)" by (cases "f h k m1 x")
        from step[OF P c[unfolded k] fx] have q: "Q x1" "P (next_header h k) m1 x1" by simp_all
        from 1(2) True eq c k fx q IH show ?thesis by (auto split: if_splits)
      qed
    qed
  qed (rule r)
  with assms(2) show ?thesis by simp
qed

text \<open>Headers stay a multiple of 512 bytes apart, also when the addresses wrap around.\<close>

lemma next_header_aligned: "512 dvd unat (h - s) \<Longrightarrow> 512 dvd unat (next_header h n - s)"
proof -
  assume h: "512 dvd unat (h - s)"
  have add: "512 dvd unat (a + b)" if "512 dvd unat a" "512 dvd unat b" for a b :: u32
    using that by (simp add: unat_word_ariths dvd_mod_iff)
  let ?p = "if n mod 0x200 \<noteq> 0 then 0x200 - n mod 0x200 else n mod 0x200"
  have "n + ?p = (if n mod 0x200 = 0 then n else (n - n mod 0x200) + 0x200)" by simp
  moreover have "512 dvd unat (n - n mod 0x200)"
    by (simp add: unat_sub word_le_nat_alt unat_mod dvd_minus_mod)
  moreover have "n mod 0x200 = 0 \<Longrightarrow> 512 dvd unat n"
    by (drule arg_cong[of _ _ unat]) (simp add: unat_mod mod_eq_0_iff_dvd)
  ultimately have p: "512 dvd unat (n + ?p)" using add[of "n - n mod 0x200" "0x200"] by auto
  have "512 dvd unat (0x200 :: u32)" by simp
  from add[OF h this] have s: "512 dvd unat (h - s + 0x200)" .
  have "next_header h n - s = (if n = 0 then h - s + 0x200 else h - s + 0x200 + (n + ?p))"
    by (simp add: next_header_def header_size_def Let_def)
  then show ?thesis using s add[OF s p] by (cases "n = 0") (simp_all only: if_True if_False simp_thms)
qed

lemma name_not_in_root:
  assumes "m h \<noteq> slash"
  shows "\<not> in_directory [] (header_name m h)"
proof -
  have "char_at (memory_bytes m h (strnlen_at m h (Suc k))) = m h" for k
    by (simp add: memory_bytes_def upt_conv_Cons del: upt_Suc)
  from this[of 99] assms show ?thesis by (simp add: in_directory_def header_name_def)
qed



lemma walk_stuck:
  assumes "h + header_size \<le> e" "check_header e h m = (m, Some n)" "next_header h n = h" "\<And>x. \<not> fst (f h n m x)"
  shows "for_every_initrd_file f e h m x = None"
proof (rule ccontr)
  let ?I = "\<lambda>f' e' h' m' x y. f' = f \<longrightarrow> e' = e \<longrightarrow> h' = h \<longrightarrow> m' = m \<longrightarrow> False"
  assume "for_every_initrd_file f e h m x \<noteq> None"
  then obtain y where r: "for_every_initrd_file f e h m x = Some y" by blast
  have "?I f e h m x y"
  proof (rule for_every_initrd_file.raw_induct[of ?I "((((f, e), h), m), x)" y, unfolded prod.case], goal_cases)
    case (1 F f' e' h' m' x y)
    show ?case
    proof (intro impI)
      assume eq: "f' = f" "e' = e" "h' = h" "m' = m"
      obtain s x1 where fx: "f h n m x = (s, x1)" by (cases "f h n m x")
      with assms(4)[of x] 1(2) assms(1-3) eq have "F f e h m x1 = Some y" by simp
      from 1(1)[OF this] show False by simp
    qed
  qed (rule r)
  then show False by simp
qed


text \<open>The size field of the header at 4096 reads 37777777000.\<close>

definition looping_archive :: mem where
  "looping_archive = (\<lambda>_. 0)(0x1000 := 0x61, 0x107c := 0x33, 0x107d := 0x37, 0x107e := 0x37, 0x107f := 0x37, 0x1080 := 0x37,
     0x1081 := 0x37, 0x1082 := 0x37, 0x1083 := 0x37, 0x1084 := 0x30, 0x1085 := 0x30, 0x1086 := 0x30)"

lemma looping_archive_name: "strnlen_at looping_archive 0x1000 100 = 1"
proof -
  have "strnlen_at looping_archive 0x1000 (Suc (Suc k)) = 1" for k by (simp add: looping_archive_def)
  from this[of 98] show ?thesis by simp
qed

lemma looping_archive_header: "check_header 0x1200 0x1000 looping_archive = (looping_archive, Some 0xFFFFFE00)"
proof -
  have "strnlen_at looping_archive 0x107c (Suc (Suc (Suc (Suc (Suc (Suc (Suc (Suc (Suc (Suc (Suc (Suc 0)))))))))))) = 11"
    by (simp add: looping_archive_def)
  then have z: "strnlen_at looping_archive 0x107c 12 = 11" by (simp add: numeral_eq_Suc)
  have "parse_octal looping_archive 0x107c (Suc (Suc (Suc (Suc (Suc (Suc (Suc (Suc (Suc (Suc (Suc 0))))))))))) 0 = Some 0xFFFFFE00"
    by (simp add: looping_archive_def)
  then have p: "parse_octal looping_archive 0x107c 11 0 = Some 0xFFFFFE00" by (simp add: numeral_eq_Suc)
  have "looping_archive(0x1087 := 0) = looping_archive" by (rule ext) (simp add: looping_archive_def)
  moreover have "strip_slashes 1 looping_archive 0x1000 = looping_archive" by (simp add: looping_archive_def slash_def)
  moreover have "looping_archive 0x1001 = 0" "looping_archive 0x1087 = 0" by (simp_all add: looping_archive_def)
  ultimately show ?thesis using z p by (simp add: check_header_def Let_def looping_archive_name size_at_def header_size_def)
qed


end
