(* ===== verification/Kernel_Objects.thy ===== *)
theory Kernel_Objects
  imports Initrdfs Pseudo_Fd
begin

text \<open>
  The descriptors of the kernel as one world: a heap of objects that only grows, the state of
  the servers in userland behind the pseudo descriptors, and the environment of the objects
  of the kernel itself. \<open>kernel_class\<close> is the dispatch on the class of an object.
\<close>

datatype kobj = Kernel kfd | Initrd idir | Pseudo pfd

record 's kworld =
  kw_objs :: "kobj list"
  kw_env :: kenv
  kw_server :: 's

definition get_obj :: "'s kworld \<Rightarrow> fdref \<Rightarrow> kobj option" where
  "get_obj w f = (if f < length (kw_objs w) then Some (kw_objs w ! f) else None)"

definition put_obj :: "fdref \<Rightarrow> kobj \<Rightarrow> 's kworld \<Rightarrow> 's kworld" where
  "put_obj f ob w = w\<lparr>kw_objs := (kw_objs w)[f := ob]\<rparr>"

definition add_obj :: "kobj option \<Rightarrow> 's kworld \<Rightarrow> fdref option \<times> 's kworld" where
  "add_obj ob w =
     (case ob of
        None \<Rightarrow> (None, w)
      | Some ob \<Rightarrow> (Some (length (kw_objs w)), w\<lparr>kw_objs := kw_objs w @ [ob]\<rparr>))"

definition set_memory :: "mem \<Rightarrow> 's kworld \<Rightarrow> 's kworld" where
  "set_memory m w = w\<lparr>kw_env := (kw_env w)\<lparr>ke_memory := m\<rparr>\<rparr>"

text \<open>The members that every descriptor has.\<close>

definition ob_type :: "kobj option \<Rightarrow> filetype" where
  "ob_type ob = (case ob of Some (Kernel k) \<Rightarrow> kf_type (kf_kind k) | Some (Initrd d) \<Rightarrow> FT_DIRECTORY
     | Some (Pseudo p) \<Rightarrow> pf_type p | None \<Rightarrow> FT_UNKNOWN)"

definition ob_flags :: "kobj option \<Rightarrow> u16" where
  "ob_flags ob = (case ob of Some (Kernel k) \<Rightarrow> kf_flags k | Some (Initrd d) \<Rightarrow> id_flags d
     | Some (Pseudo p) \<Rightarrow> pf_flags p | None \<Rightarrow> 0)"

definition ob_set_flags :: "u16 \<Rightarrow> kobj \<Rightarrow> kobj" where
  "ob_set_flags fl ob = (case ob of Kernel k \<Rightarrow> Kernel (k\<lparr>kf_flags := fl\<rparr>) | Initrd d \<Rightarrow> Initrd (d\<lparr>id_flags := fl\<rparr>)
     | Pseudo p \<Rightarrow> Pseudo (p\<lparr>pf_flags := fl\<rparr>))"

definition ob_device :: "kobj option \<Rightarrow> u64" where
  "ob_device ob = (case ob of Some (Kernel k) \<Rightarrow> kf_device k | Some (Initrd d) \<Rightarrow> id_device d
     | Some (Pseudo p) \<Rightarrow> pf_device p | None \<Rightarrow> 0)"

definition ob_seekable :: "kobj option \<Rightarrow> bool" where
  "ob_seekable ob = (case ob of Some (Kernel k) \<Rightarrow> kfd_seekable k | Some (Pseudo p) \<Rightarrow> True | _ \<Rightarrow> False)"

definition ob_pos :: "kobj option \<Rightarrow> u64" where
  "ob_pos ob = (case ob of Some (Kernel k) \<Rightarrow> kf_pos k | Some (Pseudo p) \<Rightarrow> pf_pos p | _ \<Rightarrow> 0)"

definition ob_set_pos :: "u64 \<Rightarrow> kobj \<Rightarrow> kobj" where
  "ob_set_pos x ob = (case ob of Kernel k \<Rightarrow> Kernel (k\<lparr>kf_pos := x\<rparr>) | Initrd d \<Rightarrow> Initrd d
     | Pseudo p \<Rightarrow> Pseudo (p\<lparr>pf_pos := x\<rparr>))"

definition set_flags_at :: "fdref \<Rightarrow> u16 \<Rightarrow> 's kworld \<Rightarrow> 's kworld" where
  "set_flags_at f fl w = (case get_obj w f of None \<Rightarrow> w | Some ob \<Rightarrow> put_obj f (ob_set_flags fl ob) w)"

definition pos_at :: "fdref \<Rightarrow> 's kworld \<Rightarrow> u64" where
  "pos_at f w = ob_pos (get_obj w f)"

definition set_pos_at :: "fdref \<Rightarrow> u64 \<Rightarrow> 's kworld \<Rightarrow> 's kworld" where
  "set_pos_at f x w = (case get_obj w f of None \<Rightarrow> w | Some ob \<Rightarrow> put_obj f (ob_set_pos x ob) w)"

text \<open>
  A call of a method: one implementation for each class. An object of the kernel keeps the error
  of the call in its member.
\<close>

definition no_override :: "errno \<Rightarrow> 'a \<Rightarrow> 'b \<Rightarrow> 'c \<Rightarrow> (errno \<times> 'a \<times> 'c) option" where
  "no_override e d x y = Some (e, d, y)"

definition invoke :: "'a kmethod \<Rightarrow> 'a imethod \<Rightarrow> ('a, 's) pmethod \<Rightarrow> fdref \<Rightarrow> ('a, 's kworld) fd_method" where
  "invoke mk mi mp f w =
     (case get_obj w f of
        None \<Rightarrow> None
      | Some (Kernel k) \<Rightarrow> do { (e, a, k) \<leftarrow> mk (kw_env w) k; Some (e, a, put_obj f (Kernel (k\<lparr>kf_error := e\<rparr>)) w) }
      | Some (Initrd d) \<Rightarrow> do { (e, a, m) \<leftarrow> mi d (ke_memory (kw_env w)); Some (e, a, set_memory m w) }
      | Some (Pseudo p) \<Rightarrow> do { (e, a, p, s) \<leftarrow> mp p (kw_server w);
                                Some (e, a, put_obj f (Pseudo p) (w\<lparr>kw_server := s\<rparr>)) })"

text \<open>Opening an inode makes a new object of the same family.\<close>

definition kernel_inode_open :: "cloudabi \<Rightarrow> 's rpc \<Rightarrow> fdref \<Rightarrow> u64 \<Rightarrow> u64 \<Rightarrow> fdstat \<Rightarrow> (fdref option, 's kworld) fd_method" where
  "kernel_inode_open A rpc f dev ino fds w =
     do { (e, ob, w) \<leftarrow> invoke
            (\<lambda>env k. do { (e, r, k) \<leftarrow> kfd_inode_open dev ino env k; Some (e, map_option Kernel r, k) })
            (\<lambda>d m. do { (e, r, m) \<leftarrow> initrd_inode_open dev ino d m;
                        Some (e, map_option (\<lambda>r. case r of INITRD_DIR d \<Rightarrow> Initrd d | INITRD_FILE k \<Rightarrow> Kernel k) r, m) })
            (\<lambda>p s. do { (e, r, p, s) \<leftarrow> pseudo_inode_open A rpc dev ino fds p s; Some (e, map_option Pseudo r, p, s) }) f w;
          let (r, w) = add_obj ob w in Some (e, r, w) }"

definition kernel_stat_fget :: "cloudabi \<Rightarrow> 's rpc \<Rightarrow> filestat \<Rightarrow> fdref \<Rightarrow> (filestat, 's kworld) fd_method" where
  "kernel_stat_fget A rpc junk = invoke kfd_stat_fget initrd_stat_fget (pseudo_file_stat_fget A rpc junk)"

definition kernel_read :: "cloudabi \<Rightarrow> 's rpc \<Rightarrow> fdref \<Rightarrow> u32 \<Rightarrow> (bytes, 's kworld) fd_method" where
  "kernel_read A rpc f cnt = invoke (kfd_read cnt) (no_override EINVAL []) (pseudo_read A rpc cnt) f"

definition kernel_write :: "cloudabi \<Rightarrow> 's rpc \<Rightarrow> fdref \<Rightarrow> bytes \<Rightarrow> (u32, 's kworld) fd_method" where
  "kernel_write A rpc f d = invoke (kfd_write d) (no_override EINVAL 0) (pseudo_write A rpc d) f"

text \<open>\<^verbatim>\<open>seekable_fd_t::seek\<close> asks for the size of the file only for a position relative to the end.\<close>

definition kernel_seek :: "cloudabi \<Rightarrow> 's rpc \<Rightarrow> filestat \<Rightarrow> fdref \<Rightarrow> u64 \<Rightarrow> whence \<Rightarrow> (u64, 's kworld) fd_method" where
  "kernel_seek A rpc junk f off wh w =
     (if \<not> ob_seekable (get_obj w f) then do { kassert (get_obj w f \<noteq> None); Some (EBADF, 0, w) }
      else do {
        (endpos, w) \<leftarrow> (if wh = WHENCE_END then do { (e, st, w) \<leftarrow> kernel_stat_fget A rpc junk f w; Some ((e, st_size st), w) }
                       else Some ((ESUCCESS, 0), w));
        let (e, p) = seekable_seek endpos off wh (pos_at f w);
        Some (e, p, set_pos_at f p w)
      })"

definition target_pfd :: "'s kworld \<Rightarrow> fdref \<Rightarrow> pfd option" where
  "target_pfd w f = (case get_obj w f of Some (Pseudo p) \<Rightarrow> Some p | _ \<Rightarrow> None)"

definition kernel_class :: "cloudabi \<Rightarrow> 's rpc \<Rightarrow> filestat \<Rightarrow> 's kworld fd_class" where
  "kernel_class A rpc junk = \<lparr>
     fd_type = (\<lambda>f w. ob_type (get_obj w f)),
     fd_flags = (\<lambda>f w. ob_flags (get_obj w f)),
     fd_set_flags = set_flags_at,
     fd_device = (\<lambda>f w. ob_device (get_obj w f)),
     op_seek = kernel_seek A rpc junk,
     op_read = kernel_read A rpc,
     op_write = kernel_write A rpc,
     op_pread = (\<lambda>f cnt off w. if ob_seekable (get_obj w f)
                   then seekable_pread pos_at set_pos_at (kernel_read A rpc) f cnt off w
                   else do { kassert (get_obj w f \<noteq> None); Some (EPIPE, [], w) }),
     op_pwrite = (\<lambda>f d off w. if ob_seekable (get_obj w f)
                   then seekable_pwrite A pos_at set_pos_at (\<lambda>f w. ob_flags (get_obj w f)) set_flags_at (kernel_write A rpc) f d off w
                   else do { kassert (get_obj w f \<noteq> None); Some (EPIPE, 0, w) }),
     op_datasync = invoke (no_override EINVAL ()) (no_override EINVAL ()) (pseudo_datasync A rpc),
     op_sync = invoke (no_override EINVAL ()) (no_override EINVAL ()) (pseudo_sync A rpc),
     op_lookup = (\<lambda>f file ofl. invoke (kfd_lookup junk file) (initrd_lookup junk file) (pseudo_lookup A rpc junk file ofl) f),
     op_inode_open = kernel_inode_open A rpc,
     op_readdir = (\<lambda>f n c. invoke (no_override ENOTDIR []) (initrd_readdir A n c) (pseudo_readdir A rpc n c) f),
     op_file_allocate = (\<lambda>f off len. invoke (no_override EINVAL ()) (no_override EINVAL ()) (pseudo_file_allocate A rpc off len) f),
     op_file_create = (\<lambda>f file t. invoke (no_override EINVAL 0) (initrd_file_create file t) (pseudo_file_create A rpc file t) f),
     op_file_link = (\<lambda>f n1 f2 n2 w. invoke (no_override EINVAL ()) (no_override EINVAL ()) (pseudo_file_link A rpc n1 (target_pfd w f2) n2) f w),
     op_file_readlink = (\<lambda>f file n. invoke (no_override EINVAL []) (no_override EINVAL []) (pseudo_file_readlink A rpc file n) f),
     op_file_rename = (\<lambda>f n1 f2 n2 w. invoke (no_override EINVAL ()) (no_override EINVAL ()) (pseudo_file_rename A rpc n1 (target_pfd w f2) n2) f w),
     op_file_symlink = (\<lambda>f n1 n2. invoke (no_override EINVAL ()) (no_override EINVAL ()) (pseudo_file_symlink A rpc n1 n2) f),
     op_file_unlink = (\<lambda>f n fl. invoke (no_override EINVAL ()) (no_override EINVAL ()) (pseudo_file_unlink A rpc n fl) f),
     op_file_stat_fget = kernel_stat_fget A rpc junk,
     op_file_stat_put = (\<lambda>f n st fl. invoke (no_override EINVAL ()) (no_override EINVAL ()) (pseudo_file_stat_put A rpc n st fl) f),
     op_file_stat_fput = (\<lambda>f st fl. invoke (no_override EINVAL ()) (no_override EINVAL ()) (pseudo_file_stat_fput A rpc st fl) f),
     op_sock_shutdown = (\<lambda>f how. invoke (no_override ENOTSOCK ()) (no_override ENOTSOCK ()) (pseudo_sock_shutdown A rpc how) f)\<rparr>"

subsection \<open>The kernel's own directories are directory servers\<close>

text \<open>
  Directories of \<^verbatim>\<open>bootfs\<close> and \<^verbatim>\<open>procfs\<close> meet the contract of the path operations. The paths of the
  latter are the two that the code makes, so that they fit in the buffer.
\<close>

definition kfd_ok :: "kobj \<Rightarrow> bool" where
  "kfd_ok ob = (case ob of Kernel k \<Rightarrow> (case kf_kind k of PROCFS_DIR path \<Rightarrow> path = [] \<or> path = [kernel_str] | _ \<Rightarrow> True) | _ \<Rightarrow> True)"

definition kernel_inv :: "'s kworld \<Rightarrow> bool" where
  "kernel_inv w \<longleftrightarrow> (\<forall>ob \<in> set (kw_objs w). kfd_ok ob)"

definition kernel_live :: "'s kworld \<Rightarrow> fdref \<Rightarrow> bool" where
  "kernel_live w f \<longleftrightarrow> (\<exists>k. get_obj w f = Some (Kernel k))"

lemma kernel_live_cases:
  assumes "kernel_live w f"
  obtains k where "get_obj w f = Some (Kernel k)" "f < length (kw_objs w)" "kw_objs w ! f = Kernel k"
  using assms by (auto simp: kernel_live_def get_obj_def split: if_splits)

lemma get_put_obj [simp]:
  "f < length (kw_objs w) \<Longrightarrow> get_obj (put_obj f ob w) g = (if g = f then Some ob else get_obj w g)"
  by (auto simp: get_obj_def put_obj_def)

lemma kernel_inv_put: "kernel_inv w \<Longrightarrow> kfd_ok ob \<Longrightarrow> kernel_inv (put_obj f ob w)"
  by (auto simp: kernel_inv_def put_obj_def dest: set_update_subset_insert[THEN subsetD])

lemma kernel_inv_get: "kernel_inv w \<Longrightarrow> get_obj w f = Some ob \<Longrightarrow> kfd_ok ob"
  by (auto simp: kernel_inv_def get_obj_def split: if_splits)

text \<open>A method that keeps the kind of its object keeps the invariant and the types of all objects.\<close>

lemma invoke_kernel:
  assumes w: "kernel_inv w" "kernel_live w f"
    and m: "\<And>k. get_obj w f = Some (Kernel k) \<Longrightarrow> \<exists>e a k'. mk (kw_env w) k = Some (e, a, k') \<and> kf_kind k' = kf_kind k \<and> Q e a"
  shows "\<exists>e a w'. invoke mk mi mp f w = Some (e, a, w') \<and> kernel_inv w' \<and> Q e a \<and>
    (\<forall>g. kernel_live w g \<longrightarrow> kernel_live w' g \<and> ob_type (get_obj w' g) = ob_type (get_obj w g))"
proof -
  obtain k where k: "get_obj w f = Some (Kernel k)" "f < length (kw_objs w)" using kernel_live_cases[OF w(2)] by blast
  obtain e a k' where mk: "mk (kw_env w) k = Some (e, a, k')" "kf_kind k' = kf_kind k" "Q e a" using m[OF k(1)] by blast
  have "kfd_ok (Kernel (k'\<lparr>kf_error := e\<rparr>))" using kernel_inv_get[OF w(1) k(1)] mk(2) by (simp add: kfd_ok_def)
  then have "kernel_inv (put_obj f (Kernel (k'\<lparr>kf_error := e\<rparr>)) w)" by (rule kernel_inv_put[OF w(1)])
  with k mk show ?thesis by (auto simp: invoke_def kernel_live_def ob_type_def)
qed

lemma procfs_fits: "path = [] \<or> path = [kernel_str] \<Longrightarrow> \<exists>buf. procfs_to_string PROCFS_BUF path [] = Some buf"
  by (auto simp: PROCFS_BUF_def kernel_str_def)

lemma kfd_lookup_returns:
  assumes "kfd_ok (Kernel k)"
  shows "\<exists>e st k'. kfd_lookup junk file env k = Some (e, st, k') \<and> kf_kind k' = kf_kind k \<and> st_dev st = (if kf_type (kf_kind k) = FT_DIRECTORY then kf_device k else st_dev junk)"
proof (cases "kf_kind k")
  case (PROCFS_DIR path)
  then obtain buf where "procfs_to_string PROCFS_BUF path [] = Some buf"
    using assms procfs_fits[of path] by (auto simp: kfd_ok_def)
  with PROCFS_DIR show ?thesis
    by (simp add: kfd_lookup_def procfs_lookup_def Let_def lookup_base_def)
qed (simp_all add: kfd_lookup_def bootfs_lookup_def Let_def lookup_base_def split: option.splits)


lemma bootfs_open_returns:
  assumes "kf_error k = ESUCCESS"
  shows "\<exists>e r. bootfs_inode_open dev ino env k = Some (e, r, k) \<and> (e = ESUCCESS \<longleftrightarrow> r \<noteq> None) \<and> (\<forall>k'. r = Some k' \<longrightarrow> kfd_ok (Kernel k'))"
proof (cases "dev = kf_device k \<and> 1 \<le> unat ino \<and> unat ino \<le> length (ke_binaries env)")
  case True
  with assms show ?thesis unfolding bootfs_inode_open_def by (simp only: simp_thms if_True if_False) (simp add: new_kfd_def kfd_ok_def)
next
  case False
  then have "bootfs_inode_open dev ino env k = Some (EINVAL, None, k)" unfolding bootfs_inode_open_def by meson
  then show ?thesis by simp
qed

lemma procfs_open_returns:
  assumes "kf_error k = ESUCCESS"
  shows "\<exists>e r. procfs_inode_open dev ino env k = Some (e, r, k) \<and> (e = ESUCCESS \<longleftrightarrow> r \<noteq> None) \<and> (\<forall>k'. r = Some k' \<longrightarrow> kfd_ok (Kernel k'))"
  unfolding procfs_inode_open_def assms
  by (cases "dev = kf_device k"; cases "ino = 2"; cases "ino = 3"; cases "ino = 4"; cases "ino = 1"; simp add: new_kfd_def kfd_ok_def)

lemma kfd_inode_open_returns:
  assumes "kf_error k = ESUCCESS"
  shows "\<exists>e r. kfd_inode_open dev ino env k = Some (e, r, k) \<and> (e = ESUCCESS \<longleftrightarrow> r \<noteq> None) \<and> (\<forall>k'. r = Some k' \<longrightarrow> kfd_ok (Kernel k'))"
  using bootfs_open_returns[OF assms, of dev ino env] procfs_open_returns[OF assms, of dev ino env]
  by (cases "kf_kind k") (simp_all add: kfd_inode_open_def)

lemma kernel_lookup_error:
  assumes "kernel_live w0 d" "invoke (kfd_lookup junk n) mi mp d w0 = Some (e, st, w)"
  obtains k where "get_obj w d = Some (Kernel k)" "kf_error k = e"
proof -
  obtain k where k: "get_obj w0 d = Some (Kernel k)" "d < length (kw_objs w0)" by (rule kernel_live_cases[OF assms(1)])
  with assms(2) obtain k' where "w = put_obj d (Kernel (k'\<lparr>kf_error := e\<rparr>)) w0"
    by (auto simp: invoke_def bind_eq_Some_iff)
  with k that[of "k'\<lparr>kf_error := e\<rparr>"] show thesis by simp
qed

lemma kernel_open_ok:
  assumes w: "kernel_inv w" and k: "get_obj w d = Some (Kernel k)" "kf_error k = ESUCCESS"
  shows "\<exists>e r w'. kernel_inode_open A rpc d dev ino fds w = Some (e, r, w') \<and> kernel_inv w' \<and>
    (e = ESUCCESS \<longleftrightarrow> r \<noteq> None) \<and> (\<forall>f. r = Some f \<longrightarrow> kernel_live w' f) \<and>
    (\<forall>f. kernel_live w f \<longrightarrow> kernel_live w' f \<and> ob_type (get_obj w' f) = ob_type (get_obj w f))"
proof -
  have d: "d < length (kw_objs w)" using k by (auto simp: get_obj_def split: if_splits)
  obtain e r where o: "kfd_inode_open dev ino (kw_env w) k = Some (e, r, k)" "e = ESUCCESS \<longleftrightarrow> r \<noteq> None"
    "\<forall>k'. r = Some k' \<longrightarrow> kfd_ok (Kernel k')"
    using kfd_inode_open_returns[OF k(2), of dev ino "kw_env w"] by blast
  let ?w = "put_obj d (Kernel (k\<lparr>kf_error := e\<rparr>)) w"
  have i: "kernel_inv ?w" using kernel_inv_get[OF w k(1)] by (intro kernel_inv_put[OF w]) (simp add: kfd_ok_def)
  have def: "kernel_inode_open A rpc d dev ino fds w = Some (e, add_obj (map_option Kernel r) ?w)"
    using k o by (simp add: kernel_inode_open_def invoke_def split: prod.splits)
  have g: "kernel_live w f \<longrightarrow> kernel_live ?w f \<and> ob_type (get_obj ?w f) = ob_type (get_obj w f)" for f
    using d k by (auto simp: kernel_live_def ob_type_def)
  show ?thesis
  proof (cases r)
    case None
    with def o i g show ?thesis by (simp add: add_obj_def)
  next
    case (Some k')
    let ?v = "?w\<lparr>kw_objs := kw_objs ?w @ [Kernel k']\<rparr>"
    have old: "kernel_live ?w f \<Longrightarrow> get_obj ?v f = get_obj ?w f" for f
      by (auto simp: kernel_live_def get_obj_def nth_append split: if_splits)
    have "kernel_inv ?v" using i o(3) Some by (simp add: kernel_inv_def)
    moreover have "kernel_live ?v (length (kw_objs ?w))" by (simp add: kernel_live_def get_obj_def)
    moreover have "kernel_live w f \<longrightarrow> kernel_live ?v f \<and> ob_type (get_obj ?v f) = ob_type (get_obj w f)" for f
    proof
      assume "kernel_live w f"
      with g have h: "kernel_live ?w f" "ob_type (get_obj ?w f) = ob_type (get_obj w f)" by blast+
      then show "kernel_live ?v f \<and> ob_type (get_obj ?v f) = ob_type (get_obj w f)"
        unfolding old[OF h(1)] using h(1) unfolding kernel_live_def old[OF h(1)] by simp
    qed
    ultimately show ?thesis using def o(2) Some by (simp add: add_obj_def)
  qed
qed

lemma kernel_class_simps [simp]:
  "fd_type (kernel_class A rpc junk) f w = ob_type (get_obj w f)"
  "op_lookup (kernel_class A rpc junk) f n fl =
     invoke (kfd_lookup junk n) (initrd_lookup junk n) (pseudo_lookup A rpc junk n fl) f"
  "op_file_readlink (kernel_class A rpc junk) f n sz =
     invoke (no_override EINVAL []) (no_override EINVAL []) (pseudo_file_readlink A rpc n sz) f"
  "op_inode_open (kernel_class A rpc junk) = kernel_inode_open A rpc"
  "op_file_stat_fput (kernel_class A rpc junk) f st fl =
     invoke (no_override EINVAL ()) (no_override EINVAL ()) (pseudo_file_stat_fput A rpc st fl) f"
  by (simp_all add: kernel_class_def)

interpretation kfs: directory_server "kernel_class A rpc junk" kernel_inv kernel_live for A and rpc :: "'s rpc" and junk
proof
  fix w :: "'s kworld" and d n fl
  assume w: "kernel_inv w" "kernel_live w d"
  show "\<exists>e st w'. op_lookup (kernel_class A rpc junk) d n fl w = Some (e, st, w') \<and> kernel_inv w' \<and>
    (\<forall>f. kernel_live w f \<longrightarrow> kernel_live w' f \<and> fd_type (kernel_class A rpc junk) f w' = fd_type (kernel_class A rpc junk) f w)"
    using invoke_kernel[OF w, of "kfd_lookup junk n" "\<lambda>e st. True" "initrd_lookup junk n" "pseudo_lookup A rpc junk n fl"]
      kfd_lookup_returns kernel_inv_get[OF w(1)] by auto blast
next
  fix w :: "'s kworld" and d n sz
  assume w: "kernel_inv w" "kernel_live w d"
  show "\<exists>e link w'. op_file_readlink (kernel_class A rpc junk) d n sz w = Some (e, link, w') \<and> kernel_inv w' \<and>
    (e = ESUCCESS \<longrightarrow> length link \<le> unat sz) \<and>
    (\<forall>f. kernel_live w f \<longrightarrow> kernel_live w' f \<and> fd_type (kernel_class A rpc junk) f w' = fd_type (kernel_class A rpc junk) f w)"
    using invoke_kernel[OF w, of "no_override EINVAL []" "\<lambda>e link. e \<noteq> ESUCCESS" "no_override EINVAL []" "pseudo_file_readlink A rpc n sz"]
    by (auto simp: no_override_def)
next
  fix w0 w :: "'s kworld" and d n fl st fds
  assume w0: "kernel_inv w0" "kernel_live w0 d" and l: "op_lookup (kernel_class A rpc junk) d n fl w0 = Some (ESUCCESS, st, w)"
  have "kernel_inv w"
    using invoke_kernel[OF w0, of "kfd_lookup junk n" "\<lambda>e st. True" "initrd_lookup junk n" "pseudo_lookup A rpc junk n fl"]
      kfd_lookup_returns kernel_inv_get[OF w0(1)] l by auto blast
  moreover obtain k where "get_obj w d = Some (Kernel k)" "kf_error k = ESUCCESS"
    by (rule kernel_lookup_error[OF w0(2) l[unfolded kernel_class_simps]])
  ultimately show "\<exists>e r w'. op_inode_open (kernel_class A rpc junk) d (st_dev st) (st_ino st) fds w = Some (e, r, w') \<and> kernel_inv w' \<and>
    (e = ESUCCESS \<longleftrightarrow> r \<noteq> None) \<and> (\<forall>f. r = Some f \<longrightarrow> kernel_live w' f) \<and>
    (\<forall>f. kernel_live w f \<longrightarrow> kernel_live w' f \<and> fd_type (kernel_class A rpc junk) f w' = fd_type (kernel_class A rpc junk) f w)"
    using kernel_open_ok[of w d k A rpc "st_dev st" "st_ino st" fds] by simp
next
  fix w :: "'s kworld" and f st fl
  assume w: "kernel_inv w" "kernel_live w f"
  show "\<exists>e w'. op_file_stat_fput (kernel_class A rpc junk) f st fl w = Some (e, (), w') \<and> kernel_inv w' \<and>
    (\<forall>f. kernel_live w f \<longrightarrow> kernel_live w' f \<and> fd_type (kernel_class A rpc junk) f w' = fd_type (kernel_class A rpc junk) f w)"
    using invoke_kernel[OF w, of "no_override EINVAL ()" "\<lambda>e a. True" "no_override EINVAL ()" "pseudo_file_stat_fput A rpc st fl"]
    by (auto simp: no_override_def)
qed


definition sample_kworld :: "unit kworld" where
  "sample_kworld = \<lparr>kw_objs = [Kernel (new_kfd BOOTFS_DIR), Kernel (new_kfd (PROCFS_DIR []))],
     kw_env = \<lparr>ke_binaries = [([0x69, 0x6e, 0x69, 0x74], [1, 2, 3])], ke_cmdline = None, ke_uptime = 7, ke_memory = (\<lambda>_. 0)\<rparr>,
     kw_server = ()\<rparr>"

definition sample_junk :: filestat where
  "sample_junk = fd_t_filestat 0 FT_UNKNOWN"

definition sample_fdstat :: fdstat where
  "sample_fdstat = \<lparr>fs_filetype = FT_UNKNOWN, fs_flags = 0, fs_rights_base = 0x4002, fs_rights_inheriting = 0\<rparr>"


text \<open>What \<^verbatim>\<open>strncmp\<close> with the length of a name means: the name is a prefix.\<close>

lemma strncmp_eq_prefix: "0 \<notin> set f \<Longrightarrow> strncmp_eq (length f) f n \<longleftrightarrow> take (length f) n = f"
proof (induction f arbitrary: n)
  case (Cons c f)
  then show ?case by (cases n) auto
qed simp


lemma find_binary_Some:
  "find_binary f bs i = Some j \<Longrightarrow> 0 \<notin> set f \<Longrightarrow>
   i \<le> j \<and> j < i + length bs \<and> take (length f) (fst (bs ! (j - i))) = f \<and> (\<forall>l < j - i. take (length f) (fst (bs ! l)) \<noteq> f)"
proof (induction f bs i rule: find_binary.induct)
  case (2 fl name c bs i)
  show ?case
  proof (cases "take (length fl) name = fl")
    case True
    with 2 show ?thesis by (simp add: strncmp_eq_prefix)
  next
    case False
    with 2 have IH: "Suc i \<le> j" "j < Suc i + length bs" "take (length fl) (fst (bs ! (j - Suc i))) = fl"
      "\<forall>l < j - Suc i. take (length fl) (fst (bs ! l)) \<noteq> fl"
      by (simp_all add: strncmp_eq_prefix)
    obtain d where d: "j = Suc i + d" using IH(1) le_Suc_ex by blast
    have "take (length fl) (fst (((name, c) # bs) ! l)) \<noteq> fl" if "l < j - i" for l
      using that IH(4) False d by (cases l) auto
    with IH d show ?thesis by simp
  qed
qed simp

lemma find_binary_None: "find_binary f bs i = None \<Longrightarrow> 0 \<notin> set f \<Longrightarrow> b \<in> set bs \<Longrightarrow> take (length f) (fst b) \<noteq> f"
  by (induction f bs i rule: find_binary.induct) (auto simp: strncmp_eq_prefix split: if_splits)

text \<open>
  C36: A lookup in \<^verbatim>\<open>bootfs\<close> compares no more than the name that is asked for: it succeeds exactly if
  some binary has a name that starts with it, and finds the first such binary.
\<close>

theorem bootfs_lookup_prefix:
  assumes f: "0 \<notin> set file" "file \<noteq> []" "file \<noteq> dot"
  shows "case bootfs_lookup junk file env k of
     Some (ESUCCESS, st, k') \<Rightarrow> (\<exists>i < length (ke_binaries env). st_ino st = of_nat (i + 1) \<and> st_filetype st = FT_REGULAR_FILE \<and>
        st_size st = ucast (file_length (snd (ke_binaries env ! i))) \<and>
        take (length file) (fst (ke_binaries env ! i)) = file \<and>
        (\<forall>j < i. take (length file) (fst (ke_binaries env ! j)) \<noteq> file))
   | Some (e, st, k') \<Rightarrow> e = ENOENT \<and> (\<forall>b \<in> set (ke_binaries env). take (length file) (fst b) \<noteq> file)
   | None \<Rightarrow> False"
proof -
  have "\<not> strncmp_eq (length file) file dot"
    using f by (cases "file") (auto simp: strncmp_eq_prefix dot_def)
  then show ?thesis
    using find_binary_Some[OF _ f(1), of "ke_binaries env" 0] find_binary_None[OF _ f(1), of "ke_binaries env" 0]
    by (auto simp: bootfs_lookup_def Let_def split: option.split)
qed

theorem bootfs_lookup_prefix_witness:
  "\<exists>st k'. bootfs_lookup sample_junk [0x69, 0x6e] (kw_env sample_kworld) (new_kfd BOOTFS_DIR) = Some (ESUCCESS, st, k') \<and>
     (\<exists>i < 1. st_ino st = of_nat (i + 1) \<and> take 2 (fst (ke_binaries (kw_env sample_kworld) ! i)) = [0x69, 0x6e])"
proof -
  have "\<exists>st k'. bootfs_lookup sample_junk [0x69, 0x6e] (kw_env sample_kworld) (new_kfd BOOTFS_DIR) = Some (ESUCCESS, st, k')"
    by (simp add: bootfs_lookup_def Let_def sample_kworld_def dot_def)
  then show ?thesis
    using bootfs_lookup_prefix[of "[0x69, 0x6e]" "kw_env sample_kworld" sample_junk "new_kfd BOOTFS_DIR"]
    by (auto simp: dot_def sample_kworld_def)
qed

end
