(* ===== verification/User_Lock.thy ===== *)
theory User_Lock
  imports Cosix_Prelude
begin

text \<open>
  Locks and condition variables of a process, the second half of \<^verbatim>\<open>fd/thread.cpp\<close>, with the lists of
  waiters in \<^verbatim>\<open>fd/process_fd.cpp\<close> and what \<^verbatim>\<open>syscall_poll\<close> does with them. A lock is a word in the
  memory of the process that also says who holds it; the kernel keeps lists of the threads that
  wait. A signaler is the list of threads whose conditions are subscribed to it. A pointer to an
  entry of a list is the value that the list is searched for.

  The kernel is not preempted, so a call is one step. \<open>up_woken\<close> records the threads whose
  conditions are satisfied, in order. Words of locks and of condition variables are apart.
\<close>

type_synonym tid = u32

record wake_item =
  wk_tid :: tid
  wk_conditions :: "tid list"

record lock_waiters =
  lw_lock :: u32
  lw_read_signaler :: "tid list"
  lw_number_of_readers :: u32
  lw_writers :: "wake_item list"

record condvar_waiters =
  cw_condvar :: u32
  cw_threads :: "wake_item list"
  cw_lock :: u32

record uproc =
  up_lock :: "u32 \<Rightarrow> u32"
  up_condvar :: "u32 \<Rightarrow> u32"
  up_locks :: "lock_waiters list"
  up_condvars :: "condvar_waiters list"
  up_woken :: "tid list"

text \<open>
  The bits of a lock and the value of a condition variable without waiters are from the CloudABI
  headers. The code relies on two separate bits above the 30 that hold a thread or a count.
\<close>

record lock_abi =
  LOCK_WRLOCKED :: u32
  LOCK_KERNEL_MANAGED :: u32
  CONDVAR_HAS_NO_WAITERS :: u32

definition lock_mask :: u32 where "lock_mask = 0x3fffffff"

definition lock_abi_ok :: "lock_abi \<Rightarrow> bool" where
  "lock_abi_ok L \<longleftrightarrow> LOCK_WRLOCKED L \<noteq> 0 \<and> LOCK_KERNEL_MANAGED L \<noteq> 0 \<and> LOCK_WRLOCKED L AND LOCK_KERNEL_MANAGED L = 0 \<and>
     LOCK_WRLOCKED L AND lock_mask = 0 \<and> LOCK_KERNEL_MANAGED L AND lock_mask = 0 \<and> CONDVAR_HAS_NO_WAITERS L \<noteq> 1"

definition sample_lock_abi :: lock_abi where
  "sample_lock_abi = \<lparr>LOCK_WRLOCKED = 0x40000000, LOCK_KERNEL_MANAGED = 0x80000000, CONDVAR_HAS_NO_WAITERS = 0\<rparr>"

lemma sample_lock_abi_ok: "lock_abi_ok sample_lock_abi"
  by (simp add: lock_abi_ok_def sample_lock_abi_def lock_mask_def)

subsection \<open>Lists of waiters\<close>

definition set_lock :: "u32 \<Rightarrow> u32 \<Rightarrow> uproc \<Rightarrow> uproc" where
  "set_lock l v p = p\<lparr>up_lock := (up_lock p)(l := v)\<rparr>"

definition set_condvar :: "u32 \<Rightarrow> u32 \<Rightarrow> uproc \<Rightarrow> uproc" where
  "set_condvar c v p = p\<lparr>up_condvar := (up_condvar p)(c := v)\<rparr>"

definition get_userland_lock_info :: "u32 \<Rightarrow> uproc \<Rightarrow> lock_waiters option" where
  "get_userland_lock_info l p = find (\<lambda>i. lw_lock i = l) (up_locks p)"

definition new_lock_waiters :: "u32 \<Rightarrow> lock_waiters" where
  "new_lock_waiters l = \<lparr>lw_lock = l, lw_read_signaler = [], lw_number_of_readers = 0, lw_writers = []\<rparr>"

definition get_or_create_userland_lock_info :: "u32 \<Rightarrow> uproc \<Rightarrow> lock_waiters \<times> uproc" where
  "get_or_create_userland_lock_info l p =
     (case get_userland_lock_info l p of
        Some i \<Rightarrow> (i, p)
      | None \<Rightarrow> (new_lock_waiters l, p\<lparr>up_locks := up_locks p @ [new_lock_waiters l]\<rparr>))"

definition forget_userland_lock_info :: "u32 \<Rightarrow> uproc \<Rightarrow> uproc" where
  "forget_userland_lock_info l p =
     p\<lparr>up_locks := takeWhile (\<lambda>i. lw_lock i \<noteq> l) (up_locks p) @ drop 1 (dropWhile (\<lambda>i. lw_lock i \<noteq> l) (up_locks p))\<rparr>"

text \<open>Writing through a pointer to an entry: the first entry for that lock.\<close>

fun put_first :: "('a \<Rightarrow> bool) \<Rightarrow> 'a \<Rightarrow> 'a list \<Rightarrow> 'a list" where
  "put_first P x [] = []"
| "put_first P x (y # ys) = (if P y then x # ys else y # put_first P x ys)"

definition put_lock_info :: "lock_waiters \<Rightarrow> uproc \<Rightarrow> uproc" where
  "put_lock_info i p = p\<lparr>up_locks := put_first (\<lambda>j. lw_lock j = lw_lock i) i (up_locks p)\<rparr>"

definition get_userland_condvar_cv :: "u32 \<Rightarrow> uproc \<Rightarrow> condvar_waiters option" where
  "get_userland_condvar_cv c p = find (\<lambda>i. cw_condvar i = c) (up_condvars p)"

definition get_or_create_userland_condvar_cv :: "u32 \<Rightarrow> u32 \<Rightarrow> uproc \<Rightarrow> condvar_waiters \<times> uproc" where
  "get_or_create_userland_condvar_cv c l p =
     (case get_userland_condvar_cv c p of
        Some i \<Rightarrow> (i, p)
      | None \<Rightarrow> let i = \<lparr>cw_condvar = c, cw_threads = [], cw_lock = l\<rparr> in (i, p\<lparr>up_condvars := up_condvars p @ [i]\<rparr>))"

definition put_condvar_cv :: "condvar_waiters \<Rightarrow> uproc \<Rightarrow> uproc" where
  "put_condvar_cv i p = p\<lparr>up_condvars := put_first (\<lambda>j. cw_condvar j = cw_condvar i) i (up_condvars p)\<rparr>"

subsection \<open>Locks\<close>

text \<open>The signaler that a thread waits for: the one of its own entry, or the one of all readers.\<close>

datatype lock_signaler = SIG_WRITER | SIG_READERS

definition acquisition_userspace_lock_signaler ::
  "lock_abi \<Rightarrow> tid \<Rightarrow> u32 \<Rightarrow> bool \<Rightarrow> uproc \<Rightarrow> lock_signaler option \<times> uproc" where
  "acquisition_userspace_lock_signaler L t l want_write_lock p =
     (let is_write_locked = (up_lock p l AND LOCK_WRLOCKED L \<noteq> 0) in
      if up_lock p l AND lock_mask = 0
      then (None, set_lock l (if want_write_lock then LOCK_WRLOCKED L OR (t AND lock_mask) else 1) p)
      else let info = get_userland_lock_info l p in
        if \<not> is_write_locked \<and> \<not> want_write_lock \<and> (case info of None \<Rightarrow> True | Some i \<Rightarrow> lw_writers i = [])
        then (None, set_lock l (up_lock p l + 1) p)
        else let p = set_lock l (up_lock p l OR LOCK_KERNEL_MANAGED L) p;
                 (i, p) = get_or_create_userland_lock_info l p in
          if want_write_lock
          then (Some SIG_WRITER, put_lock_info (i\<lparr>lw_writers := lw_writers i @ [\<lparr>wk_tid = t, wk_conditions = []\<rparr>]\<rparr>) p)
          else (Some SIG_READERS, put_lock_info (i\<lparr>lw_number_of_readers := lw_number_of_readers i + 1\<rparr>) p))"

definition notify_one :: "wake_item \<Rightarrow> uproc \<Rightarrow> uproc option" where
  "notify_one w p =
     do { kassert (wk_conditions w \<noteq> []);
          kassert (tl (wk_conditions w) = []);
          Some (p\<lparr>up_woken := up_woken p @ [hd (wk_conditions w)]\<rparr>) }"

text \<open>Giving a lock to the first waiting writer, which \<^verbatim>\<open>drop_userspace_lock\<close> and \<^verbatim>\<open>signal_userspace_cv\<close> both do.\<close>

definition give_to_writer :: "lock_abi \<Rightarrow> u32 \<Rightarrow> lock_waiters \<Rightarrow> wake_item \<Rightarrow> wake_item list \<Rightarrow> uproc \<Rightarrow> uproc option" where
  "give_to_writer L l i first rest p =
     (let p = put_lock_info (i\<lparr>lw_writers := rest\<rparr>) p;
          v = LOCK_WRLOCKED L OR (wk_tid first AND lock_mask);
          p = (if rest = [] \<and> lw_number_of_readers i = 0
               then forget_userland_lock_info l (set_lock l v p)
               else set_lock l (v OR LOCK_KERNEL_MANAGED L) p)
      in notify_one first p)"

definition drop_userspace_lock :: "lock_abi \<Rightarrow> tid \<Rightarrow> u32 \<Rightarrow> uproc \<Rightarrow> uproc option" where
  "drop_userspace_lock L t l p =
     (if up_lock p l AND LOCK_WRLOCKED L = 0 then Some p
      else if up_lock p l AND lock_mask \<noteq> t then Some p
      else case get_userland_lock_info l p of
             None \<Rightarrow> Some (set_lock l 0 p)
           | Some i \<Rightarrow>
               (case lw_writers i of
                  first # rest \<Rightarrow> give_to_writer L l i first rest p
                | [] \<Rightarrow> Some (forget_userland_lock_info l
                          ((set_lock l (lw_number_of_readers i) p)\<lparr>up_woken := up_woken p @ lw_read_signaler i\<rparr>))))"

definition cancel_userspace_lock :: "tid \<Rightarrow> u32 \<Rightarrow> bool \<Rightarrow> uproc \<Rightarrow> uproc option" where
  "cancel_userspace_lock t l wanted_write_lock p =
     (case get_userland_lock_info l p of
        None \<Rightarrow> None
      | Some i \<Rightarrow>
          if wanted_write_lock
          then do { kassert (length (filter (\<lambda>w. wk_tid w = t) (lw_writers i)) = 1);
                    Some (put_lock_info (i\<lparr>lw_writers := filter (\<lambda>w. wk_tid w \<noteq> t) (lw_writers i)\<rparr>) p) }
          else do { kassert (lw_number_of_readers i \<ge> 1);
                    Some (put_lock_info (i\<lparr>lw_number_of_readers := lw_number_of_readers i - 1\<rparr>) p) })"

subsection \<open>Condition variables\<close>

definition wait_userspace_cv_signaler :: "lock_abi \<Rightarrow> tid \<Rightarrow> u32 \<Rightarrow> u32 \<Rightarrow> uproc \<Rightarrow> uproc option" where
  "wait_userspace_cv_signaler L t l c p =
     (let (i, p) = get_or_create_userland_condvar_cv c l p;
          i = (if cw_lock i \<noteq> l then i\<lparr>cw_lock := l\<rparr> else i) in
      do {
        p \<leftarrow> drop_userspace_lock L t l p;
        let p = set_condvar c 1 p;
        Some (put_condvar_cv (i\<lparr>cw_threads := cw_threads i @ [\<lparr>wk_tid = t, wk_conditions = []\<rparr>]\<rparr>) p)
      })"

fun move_waiters :: "nat \<Rightarrow> wake_item list \<Rightarrow> wake_item list \<Rightarrow> wake_item list \<times> wake_item list" where
  "move_waiters 0 cv wr = (cv, wr)"
| "move_waiters (Suc n) [] wr = ([], wr)"
| "move_waiters (Suc n) (w # cv) wr = move_waiters n cv (wr @ [w])"

definition signal_userspace_cv :: "lock_abi \<Rightarrow> u32 \<Rightarrow> u32 \<Rightarrow> uproc \<Rightarrow> uproc option" where
  "signal_userspace_cv L c nwaiters p =
     (case get_userland_condvar_cv c p of
        None \<Rightarrow> do { kassert (up_condvar p c = CONDVAR_HAS_NO_WAITERS L); Some p }
      | Some cv \<Rightarrow> do {
          kassert (up_condvar p c \<noteq> CONDVAR_HAS_NO_WAITERS L);
          let l = cw_lock cv;
          let p = set_lock l (up_lock p l OR LOCK_KERNEL_MANAGED L) p;
          let (i, p) = get_or_create_userland_lock_info l p;
          let (threads, writers) = move_waiters (unat nwaiters) (cw_threads cv) (lw_writers i);
          let p = put_condvar_cv (cv\<lparr>cw_threads := threads\<rparr>) p;
          let i = i\<lparr>lw_writers := writers\<rparr>;
          let p = put_lock_info i p;
          let p = (if threads = [] then set_condvar c (CONDVAR_HAS_NO_WAITERS L) p else p);
          if up_lock p l AND lock_mask = 0
          then (case writers of [] \<Rightarrow> Some p | first # rest \<Rightarrow> give_to_writer L l i first rest p)
          else Some p
        })"

text \<open>
  A timed-out wait for a condition variable has to get the lock back: at once if it is free, or by
  waiting for it again. The result says whether the thread has the lock.
\<close>

definition subscribe :: "tid \<Rightarrow> wake_item list \<Rightarrow> wake_item list" where
  "subscribe t = map (\<lambda>w. if wk_tid w = t then w\<lparr>wk_conditions := wk_conditions w @ [t]\<rparr> else w)"

definition unsubscribe :: "tid \<Rightarrow> wake_item list \<Rightarrow> wake_item list" where
  "unsubscribe t = map (\<lambda>w. w\<lparr>wk_conditions := remove1 t (wk_conditions w)\<rparr>)"

definition cancel_userspace_cv :: "lock_abi \<Rightarrow> tid \<Rightarrow> u32 \<Rightarrow> u32 \<Rightarrow> uproc \<Rightarrow> (bool \<times> uproc) option" where
  "cancel_userspace_cv L t l c p =
     (case get_userland_condvar_cv c p of
        None \<Rightarrow> None
      | Some i \<Rightarrow> do {
          let i = (if cw_lock i \<noteq> l then i\<lparr>cw_lock := l\<rparr> else i);
          let num_removed = length (filter (\<lambda>w. wk_tid w = t) (cw_threads i));
          kassert (num_removed = 0 \<or> num_removed = 1);
          let threads = filter (\<lambda>w. wk_tid w \<noteq> t) (cw_threads i);
          let p = put_condvar_cv (i\<lparr>cw_threads := threads\<rparr>) p;
          let p = (if threads = [] then set_condvar c (CONDVAR_HAS_NO_WAITERS L) p else p);
          if up_lock p l AND lock_mask = 0
          then Some (True, set_lock l (LOCK_WRLOCKED L OR (t AND lock_mask)) p)
          else do {
            let p = set_lock l (up_lock p l OR LOCK_KERNEL_MANAGED L) p;
            let (j, p) = get_or_create_userland_lock_info l p;
            let writers = (if num_removed = 1 then lw_writers j @ [\<lparr>wk_tid = t, wk_conditions = []\<rparr>] else lw_writers j);
            kassert (length (filter (\<lambda>w. wk_tid w = t) writers) = 1);
            Some (False, put_lock_info (j\<lparr>lw_writers := subscribe t writers\<rparr>) p)
          }
        })"

subsection \<open>Polling\<close>

text \<open>
  \<^verbatim>\<open>syscall_poll\<close> on a lock or a condition variable, with or without a time limit: the thread has the
  lock at once, or it subscribes to the signaler and blocks. If the time is up before the
  signaler is notified, the condition is cancelled and the thread leaves the queues.
\<close>

definition poll_lock :: "lock_abi \<Rightarrow> tid \<Rightarrow> u32 \<Rightarrow> bool \<Rightarrow> uproc \<Rightarrow> (bool \<times> uproc) option" where
  "poll_lock L t l write p =
     (case acquisition_userspace_lock_signaler L t l write p of
        (None, p) \<Rightarrow> Some (True, p)
      | (Some sig, p) \<Rightarrow> do {
          i \<leftarrow> get_userland_lock_info l p;
          Some (False, put_lock_info (case sig of
             SIG_WRITER \<Rightarrow> i\<lparr>lw_writers := subscribe t (lw_writers i)\<rparr>
           | SIG_READERS \<Rightarrow> i\<lparr>lw_read_signaler := lw_read_signaler i @ [t]\<rparr>) p)
        })"

definition poll_lock_timeout :: "tid \<Rightarrow> u32 \<Rightarrow> bool \<Rightarrow> uproc \<Rightarrow> uproc option" where
  "poll_lock_timeout t l write p =
     do {
       i \<leftarrow> get_userland_lock_info l p;
       cancel_userspace_lock t l write (put_lock_info
         (if write then i\<lparr>lw_writers := unsubscribe t (lw_writers i)\<rparr>
          else i\<lparr>lw_read_signaler := remove1 t (lw_read_signaler i)\<rparr>) p)
     }"

definition poll_condvar :: "lock_abi \<Rightarrow> tid \<Rightarrow> u32 \<Rightarrow> u32 \<Rightarrow> uproc \<Rightarrow> uproc option" where
  "poll_condvar L t l c p =
     do {
       p \<leftarrow> wait_userspace_cv_signaler L t l c p;
       i \<leftarrow> get_userland_condvar_cv c p;
       Some (put_condvar_cv (i\<lparr>cw_threads := subscribe t (cw_threads i)\<rparr>) p)
     }"

definition unsubscribe_cv :: "tid \<Rightarrow> u32 \<Rightarrow> uproc \<Rightarrow> uproc" where
  "unsubscribe_cv t c p = (case get_userland_condvar_cv c p of None \<Rightarrow> p
     | Some i \<Rightarrow> put_condvar_cv (i\<lparr>cw_threads := unsubscribe t (cw_threads i)\<rparr>) p)"

definition unsubscribe_lock :: "tid \<Rightarrow> u32 \<Rightarrow> uproc \<Rightarrow> uproc" where
  "unsubscribe_lock t l p = (case get_userland_lock_info l p of None \<Rightarrow> p
     | Some i \<Rightarrow> put_lock_info (i\<lparr>lw_writers := unsubscribe t (lw_writers i)\<rparr>) p)"

text \<open>The entry of the thread is in one of the two queues, wherever a signal has left it.\<close>

definition poll_condvar_timeout :: "lock_abi \<Rightarrow> tid \<Rightarrow> u32 \<Rightarrow> u32 \<Rightarrow> uproc \<Rightarrow> (bool \<times> uproc) option" where
  "poll_condvar_timeout L t l c p = cancel_userspace_cv L t l c (unsubscribe_lock t l (unsubscribe_cv t c p))"

subsection \<open>Runs of a process\<close>

text \<open>
  A process that follows the protocol: \<open>gs_waits\<close> says what each blocked thread waits for (a lock, whether
  to write, and the condition variable if it waits for one), \<open>gs_writes\<close> and \<open>gs_reads\<close> which thread has
  been given which lock. They are bookkeeping of what the calls have told the threads.
\<close>

record gstate =
  gs_proc :: uproc
  gs_waits :: "tid \<rightharpoonup> u32 \<times> bool \<times> u32 option"
  gs_writes :: "(tid \<times> u32) set"
  gs_reads :: "(tid \<times> u32) set"

definition grant :: "tid \<Rightarrow> u32 \<Rightarrow> bool \<Rightarrow> gstate \<Rightarrow> gstate" where
  "grant t l write s =
     (if write then s\<lparr>gs_waits := (gs_waits s)(t := None), gs_writes := insert (t, l) (gs_writes s)\<rparr>
      else s\<lparr>gs_waits := (gs_waits s)(t := None), gs_reads := insert (t, l) (gs_reads s)\<rparr>)"

definition wake :: "tid \<Rightarrow> gstate \<Rightarrow> gstate" where
  "wake t s = (case gs_waits s t of None \<Rightarrow> s | Some (l, write, c) \<Rightarrow> grant t l write s)"

definition finish :: "uproc \<Rightarrow> gstate \<Rightarrow> gstate" where
  "finish p s = fold wake (up_woken p) (s\<lparr>gs_proc := p\<lparr>up_woken := []\<rparr>\<rparr>)"

definition valid_tid :: "tid \<Rightarrow> bool" where
  "valid_tid t \<longleftrightarrow> 0 < t \<and> t \<le> lock_mask"

definition idle :: "tid \<Rightarrow> gstate \<Rightarrow> bool" where
  "idle t s \<longleftrightarrow> valid_tid t \<and> gs_waits s t = None"

text \<open>
  The last reader turns its lock into a write lock and drops that; other readers count
  themselves off in userland, as \<^verbatim>\<open>drop_userspace_lock\<close> describes.
\<close>

definition leave_read :: "lock_abi \<Rightarrow> tid \<Rightarrow> u32 \<Rightarrow> uproc \<Rightarrow> uproc option" where
  "leave_read L t l p =
     (if up_lock p l AND lock_mask > 1 then Some (set_lock l (up_lock p l - 1) p)
      else drop_userspace_lock L t l
             (set_lock l ((up_lock p l AND LOCK_KERNEL_MANAGED L) OR LOCK_WRLOCKED L OR t) p))"

text \<open>
  The steps: taking a lock, unlocking, a time limit, waiting for and signalling a condition
  variable. A thread does not take a lock that it has; it holds the lock of a condition variable
  when it waits for it, the same one as all threads that have not returned from waiting; and it signals only if the word says
  that there are waiters.
\<close>

inductive lock_step :: "lock_abi \<Rightarrow> gstate \<Rightarrow> gstate \<Rightarrow> bool" for L where
  step_lock: "idle t s \<Longrightarrow> (t, l) \<notin> gs_writes s \<Longrightarrow> (t, l) \<notin> gs_reads s \<Longrightarrow>
    poll_lock L t l write (gs_proc s) = Some (got, p) \<Longrightarrow>
    lock_step L s (if got then grant t l write (s\<lparr>gs_proc := p\<rparr>)
                   else s\<lparr>gs_proc := p, gs_waits := (gs_waits s)(t \<mapsto> (l, write, None))\<rparr>)"
| step_unlock: "idle t s \<Longrightarrow> (t, l) \<in> gs_writes s \<Longrightarrow> drop_userspace_lock L t l (gs_proc s) = Some p \<Longrightarrow>
    lock_step L s (finish p (s\<lparr>gs_writes := gs_writes s - {(t, l)}\<rparr>))"
| step_leave: "idle t s \<Longrightarrow> (t, l) \<in> gs_reads s \<Longrightarrow> leave_read L t l (gs_proc s) = Some p \<Longrightarrow>
    lock_step L s (finish p (s\<lparr>gs_reads := gs_reads s - {(t, l)}\<rparr>))"
| step_timeout: "gs_waits s t = Some (l, write, None) \<Longrightarrow> poll_lock_timeout t l write (gs_proc s) = Some p \<Longrightarrow>
    lock_step L s (s\<lparr>gs_proc := p, gs_waits := (gs_waits s)(t := None)\<rparr>)"
| step_wait: "idle t s \<Longrightarrow> (t, l) \<in> gs_writes s \<Longrightarrow>
    (\<And>u k write. gs_waits s u = Some (k, write, Some c) \<Longrightarrow> k = l) \<Longrightarrow>
    poll_condvar L t l c (gs_proc s) = Some p \<Longrightarrow>
    lock_step L s (finish p (s\<lparr>gs_writes := gs_writes s - {(t, l)}, gs_waits := (gs_waits s)(t \<mapsto> (l, True, Some c))\<rparr>))"
| step_signal: "idle t s \<Longrightarrow> up_condvar (gs_proc s) c \<noteq> CONDVAR_HAS_NO_WAITERS L \<Longrightarrow>
    signal_userspace_cv L c n (gs_proc s) = Some p \<Longrightarrow> lock_step L s (finish p s)"
| step_cv_timeout: "gs_waits s t = Some (l, True, Some c) \<Longrightarrow> poll_condvar_timeout L t l c (gs_proc s) = Some (got, p) \<Longrightarrow>
    lock_step L s (if got then grant t l True (s\<lparr>gs_proc := p\<rparr>)
                   else s\<lparr>gs_proc := p, gs_waits := (gs_waits s)(t \<mapsto> (l, True, None))\<rparr>)"

inductive lock_run :: "lock_abi \<Rightarrow> gstate \<Rightarrow> gstate \<Rightarrow> bool" for L where
  lock_run_none: "lock_run L s s"
| lock_run_step: "lock_run L s s' \<Longrightarrow> lock_step L s' s'' \<Longrightarrow> lock_run L s s''"

definition init_gstate :: "lock_abi \<Rightarrow> gstate" where
  "init_gstate L = \<lparr>gs_proc = \<lparr>up_lock = (\<lambda>_. 0), up_condvar = (\<lambda>_. CONDVAR_HAS_NO_WAITERS L), up_locks = [], up_condvars = [], up_woken = []\<rparr>,
     gs_waits = Map.empty, gs_writes = {}, gs_reads = {}\<rparr>"

end
