(* ===== verification/Lock_Invariant.thy ===== *)
theory Lock_Invariant
  imports User_Lock
begin

text \<open>
  The invariant of the locks and condition variables of a process: what the word of a lock says
  (\<open>word_ok\<close>), what the queues of a lock and of a condition variable hold (\<open>lock_ok\<close>, \<open>cv_ok\<close>), and that
  every waiting thread is in one of them (\<open>placed\<close>). The invariant is stated over views of the lists, so
  that each step is a lemma about functions; \<open>vinv_step\<close> reduces a step to the lock and the condition
  variables that it touches.
\<close>

subsection \<open>Words of locks\<close>

lemma lock_mask_bit: "bit lock_mask n \<longleftrightarrow> n < 30"
proof -
  have m: "lock_mask = (mask 30 :: u32)" by (simp add: lock_mask_def mask_eq_exp_minus_1)
  show ?thesis unfolding m by (auto simp: bit_mask_iff)
qed

lemma and_lock_mask: "v AND lock_mask = take_bit 30 v"
  by (rule bit_word_eqI) (auto simp: bit_simps lock_mask_bit)

lemma unat_lock_mask [simp]: "unat lock_mask = 0x3fffffff"
  by (simp add: lock_mask_def)

lemma unat_low: "unat (v AND lock_mask) = unat v mod 2 ^ 30"
  unfolding and_lock_mask by (simp add: unsigned_take_bit_eq take_bit_eq_mod unat_mod)

lemma valid_tid_low: "valid_tid t \<Longrightarrow> t AND lock_mask = t"
  unfolding valid_tid_def by (simp add: word_unat_eq_iff unat_low word_le_nat_alt)

lemma high_bits: "b AND lock_mask = 0 \<Longrightarrow> bit b n \<Longrightarrow> 30 \<le> n"
  by (metis bit_0_eq bit_and_iff bot_apply bot_bool_def lock_mask_bit not_le)

lemma and_high_cong:
  assumes "b AND lock_mask = 0" "drop_bit 30 v = drop_bit 30 w"
  shows "v AND b = w AND b"
proof (rule bit_word_eqI)
  fix n
  show "bit (v AND b) n = bit (w AND b) n"
  proof (cases "bit b n")
    case True
    then have "30 \<le> n" by (rule high_bits[OF assms(1)])
    then have "bit v n = bit (drop_bit 30 v) (n - 30)" "bit w n = bit (drop_bit 30 w) (n - 30)" by (simp_all add: bit_simps)
    with assms(2) show ?thesis by (simp add: bit_simps)
  qed (simp add: bit_simps)
qed

lemma div_word: "drop_bit 30 v = drop_bit 30 (w :: u32) \<longleftrightarrow> unat v div 2 ^ 30 = unat w div 2 ^ 30"
  by (simp add: word_unat_eq_iff unat_drop_bit_eq drop_bit_eq_div unat_div)

lemma lock_plus:
  assumes "unat (v AND lock_mask) < 2 ^ 30 - 1"
  shows "(v + 1) AND lock_mask = (v AND lock_mask) + 1" "b AND lock_mask = 0 \<Longrightarrow> (v + 1) AND b = v AND b"
proof -
  have m: "unat v mod 2 ^ 30 < 2 ^ 30 - 1" using assms by (simp add: unat_low)
  have n: "unat v + 1 < 2 ^ 32"
  proof (rule ccontr)
    assume "\<not> ?thesis"
    then have "\<not> unat v < 0xffffffff" by simp
    moreover have "unat v < 0x100000000" by simp
    ultimately have "unat v = 0xffffffff" by linarith
    with m show False by simp
  qed
  then have u: "unat (v + 1) = unat v + 1" by (simp add: unat_word_ariths)
  have "(unat v + 1) mod 2 ^ 30 = unat v mod 2 ^ 30 + 1" using m by (simp add: mod_Suc)
  moreover have "unat ((v AND lock_mask) + 1) = unat v mod 2 ^ 30 + 1" using m by (simp add: unat_word_ariths unat_low)
  ultimately show "(v + 1) AND lock_mask = (v AND lock_mask) + 1" by (simp add: word_unat_eq_iff unat_low u)
  have "(unat v + 1) div 2 ^ 30 = unat v div 2 ^ 30" using m by (simp add: div_Suc mod_Suc)
  then have "drop_bit 30 (v + 1) = drop_bit 30 v" by (simp add: div_word u)
  then show "b AND lock_mask = 0 \<Longrightarrow> (v + 1) AND b = v AND b" by (rule and_high_cong[rotated])
qed

lemma lock_minus:
  assumes "v AND lock_mask \<noteq> 0"
  shows "(v - 1) AND lock_mask = (v AND lock_mask) - 1" "b AND lock_mask = 0 \<Longrightarrow> (v - 1) AND b = v AND b"
proof -
  have nz: "unat v mod 2 ^ 30 \<noteq> 0" using assms by (metis unat_low unat_eq_zero)
  then have z: "unat v \<noteq> 0" by auto
  then have "v \<noteq> 0" by auto
  from unat_minus_one[OF this] z have u: "unat (v - 1) + 1 = unat v" by linarith
  have v: "v - 1 + 1 = v" by simp
  have "unat (v - 1) mod 2 ^ 30 < 2 ^ 30 - 1"
  proof (rule ccontr)
    assume "\<not> ?thesis"
    then have "unat (v - 1) mod 2 ^ 30 = 2 ^ 30 - 1" using mod_less_divisor[of "2 ^ 30" "unat (v - 1)"] by simp
    then have "(unat (v - 1) + 1) mod 2 ^ 30 = 0" by (simp add: mod_Suc)
    with u nz show False by simp
  qed
  then have l: "unat ((v - 1) AND lock_mask) < 2 ^ 30 - 1" by (simp add: unat_low)
  from lock_plus(1)[OF l] show "(v - 1) AND lock_mask = (v AND lock_mask) - 1" by (simp add: v)
  show "b AND lock_mask = 0 \<Longrightarrow> (v - 1) AND b = v AND b" using lock_plus(2)[OF l, of b] by (simp add: v)
qed

definition wr :: "lock_abi \<Rightarrow> u32 \<Rightarrow> bool" where "wr L v \<longleftrightarrow> v AND LOCK_WRLOCKED L \<noteq> 0"
definition km :: "lock_abi \<Rightarrow> u32 \<Rightarrow> bool" where "km L v \<longleftrightarrow> v AND LOCK_KERNEL_MANAGED L \<noteq> 0"
definition low :: "u32 \<Rightarrow> u32" where "low v = v AND lock_mask"

lemma low_0 [simp]: "low 0 = 0" "low 1 = 1" "\<not> wr L 0" "low (low v) = low v"
  by (simp_all add: low_def wr_def lock_mask_def and.assoc)

lemma lock_word_simps:
  assumes "lock_abi_ok L"
  shows "low (LOCK_WRLOCKED L OR (t AND lock_mask)) = low t" "wr L (LOCK_WRLOCKED L OR x)"
    "low (LOCK_WRLOCKED L OR (t AND lock_mask) OR LOCK_KERNEL_MANAGED L) = low t"
    "wr L (LOCK_WRLOCKED L OR x OR LOCK_KERNEL_MANAGED L)" "km L (x OR LOCK_KERNEL_MANAGED L)"
    "low (v OR LOCK_KERNEL_MANAGED L) = low v" "wr L (v OR LOCK_KERNEL_MANAGED L) \<longleftrightarrow> wr L v"
    "low ((v AND LOCK_KERNEL_MANAGED L) OR LOCK_WRLOCKED L OR t) = low t"
    "wr L ((v AND LOCK_KERNEL_MANAGED L) OR LOCK_WRLOCKED L OR t)"
proof -
  have a: "LOCK_WRLOCKED L AND lock_mask = 0" "LOCK_KERNEL_MANAGED L AND lock_mask = 0" "LOCK_KERNEL_MANAGED L AND LOCK_WRLOCKED L = 0"
    "LOCK_WRLOCKED L \<noteq> 0" "LOCK_KERNEL_MANAGED L \<noteq> 0"
    using assms by (simp_all add: lock_abi_ok_def and.commute)
  note d = low_def wr_def km_def bit.conj_disj_distrib bit.conj_disj_distrib2
  show "low (LOCK_WRLOCKED L OR (t AND lock_mask)) = low t"
    "low (LOCK_WRLOCKED L OR (t AND lock_mask) OR LOCK_KERNEL_MANAGED L) = low t"
    "low (v OR LOCK_KERNEL_MANAGED L) = low v" "wr L (v OR LOCK_KERNEL_MANAGED L) \<longleftrightarrow> wr L v"
    "low ((v AND LOCK_KERNEL_MANAGED L) OR LOCK_WRLOCKED L OR t) = low t"
    using a by (simp_all add: d and.assoc)
  show "wr L (LOCK_WRLOCKED L OR x)" "wr L (LOCK_WRLOCKED L OR x OR LOCK_KERNEL_MANAGED L)" "km L (x OR LOCK_KERNEL_MANAGED L)"
    "wr L ((v AND LOCK_KERNEL_MANAGED L) OR LOCK_WRLOCKED L OR t)"
    using a by (simp_all add: d or_eq_0_iff)
qed

lemma km_convert: "lock_abi_ok L \<Longrightarrow> km L v \<Longrightarrow> km L ((v AND LOCK_KERNEL_MANAGED L) OR x)"
  by (simp add: km_def bit.conj_disj_distrib2 and.assoc or_eq_0_iff)

lemma lock_step_simps:
  assumes "lock_abi_ok L"
  shows "unat (low v) < 2 ^ 30 - 1 \<Longrightarrow> low (v + 1) = low v + 1 \<and> wr L (v + 1) = wr L v \<and> km L (v + 1) = km L v"
    "low v \<noteq> 0 \<Longrightarrow> low (v - 1) = low v - 1 \<and> wr L (v - 1) = wr L v \<and> km L (v - 1) = km L v"
  using assms lock_plus[of v] lock_minus[of v] by (simp_all add: low_def wr_def km_def lock_abi_ok_def)

subsection \<open>What the lists hold\<close>

definition writers_of :: "uproc \<Rightarrow> u32 \<Rightarrow> wake_item list" where
  "writers_of p l = (case get_userland_lock_info l p of None \<Rightarrow> [] | Some i \<Rightarrow> lw_writers i)"

definition readers_of :: "uproc \<Rightarrow> u32 \<Rightarrow> tid list" where
  "readers_of p l = (case get_userland_lock_info l p of None \<Rightarrow> [] | Some i \<Rightarrow> lw_read_signaler i)"

definition count_of :: "uproc \<Rightarrow> u32 \<Rightarrow> u32" where
  "count_of p l = (case get_userland_lock_info l p of None \<Rightarrow> 0 | Some i \<Rightarrow> lw_number_of_readers i)"

definition threads_of :: "uproc \<Rightarrow> u32 \<Rightarrow> wake_item list" where
  "threads_of p c = (case get_userland_condvar_cv c p of None \<Rightarrow> [] | Some i \<Rightarrow> cw_threads i)"

definition cv_lock_of :: "uproc \<Rightarrow> u32 \<Rightarrow> u32 option" where
  "cv_lock_of p c = map_option cw_lock (get_userland_condvar_cv c p)"

definition lists_ok :: "uproc \<Rightarrow> bool" where
  "lists_ok p \<longleftrightarrow> distinct (map lw_lock (up_locks p)) \<and> distinct (map cw_condvar (up_condvars p))"

lemma find_put_first:
  "find (\<lambda>y. f y = k) (put_first (\<lambda>y. f y = f x) x ys) =
     (if k = f x then (if find (\<lambda>y. f y = k) ys = None then None else Some x) else find (\<lambda>y. f y = k) ys)"
  by (induction ys) auto

lemma map_put_first [simp]: "map f (put_first (\<lambda>y. f y = f x) x ys) = map f ys"
  by (induction ys) auto

lemma find_append: "find P (xs @ ys) = (case find P xs of None \<Rightarrow> find P ys | Some x \<Rightarrow> Some x)"
  by (induction xs) auto

lemma find_key: "find (\<lambda>y. f y = k) ys = Some x \<Longrightarrow> f x = k"
  by (auto simp: find_Some_iff)

lemma find_None_key: "find (\<lambda>y. f y = k) ys = None \<longleftrightarrow> k \<notin> f ` set ys"
  by (auto simp: find_None_iff)

lemma remove_first_find:
  "distinct (map f ys) \<Longrightarrow>
   find (\<lambda>y. f y = k) (takeWhile (\<lambda>y. f y \<noteq> l) ys @ drop 1 (dropWhile (\<lambda>y. f y \<noteq> l) ys)) =
     (if k = l then None else find (\<lambda>y. f y = k) ys)"
  by (induction ys) (auto simp: find_None_key)

lemma remove_first_subset: "set (takeWhile P ys @ drop 1 (dropWhile P ys)) \<subseteq> set ys"
  by (induction ys) auto

lemma remove_first_distinct:
  "distinct (map f ys) \<Longrightarrow> distinct (map f (takeWhile (\<lambda>y. f y \<noteq> l) ys @ drop 1 (dropWhile (\<lambda>y. f y \<noteq> l) ys)))"
proof (induction ys)
  case (Cons y ys)
  then show ?case
  proof (cases "f y = l")
    case False
    have "f y \<notin> f ` set (takeWhile (\<lambda>y. f y \<noteq> l) ys @ drop 1 (dropWhile (\<lambda>y. f y \<noteq> l) ys))"
      by (rule contra_subsetD[OF image_mono[OF remove_first_subset]]) (use Cons.prems in simp)
    with Cons False show ?thesis by (simp add: image_Un)
  qed simp
qed simp

lemmas list_defs = get_userland_lock_info_def get_userland_condvar_cv_def put_lock_info_def put_condvar_cv_def
  set_lock_def set_condvar_def forget_userland_lock_info_def

lemma get_lock_simps [simp]:
  "get_userland_lock_info l (set_lock k v p) = get_userland_lock_info l p"
  "get_userland_lock_info l (set_condvar c v p) = get_userland_lock_info l p"
  "get_userland_lock_info l (put_condvar_cv i p) = get_userland_lock_info l p"
  "get_userland_lock_info l (p\<lparr>up_woken := x\<rparr>) = get_userland_lock_info l p"
  "get_userland_lock_info l (p\<lparr>up_condvars := y\<rparr>) = get_userland_lock_info l p"
  "get_userland_condvar_cv c (set_lock k v p) = get_userland_condvar_cv c p"
  "get_userland_condvar_cv c (set_condvar d v p) = get_userland_condvar_cv c p"
  "get_userland_condvar_cv c (put_lock_info j p) = get_userland_condvar_cv c p"
  "get_userland_condvar_cv c (forget_userland_lock_info k p) = get_userland_condvar_cv c p"
  "get_userland_condvar_cv c (p\<lparr>up_woken := x\<rparr>) = get_userland_condvar_cv c p"
  "get_userland_condvar_cv c (p\<lparr>up_locks := z\<rparr>) = get_userland_condvar_cv c p"
  by (simp_all add: list_defs)

lemma field_simps_up [simp]:
  "up_lock (set_lock k v p) = (up_lock p)(k := v)" "up_lock (set_condvar c v p) = up_lock p"
  "up_lock (put_condvar_cv i p) = up_lock p" "up_lock (put_lock_info j p) = up_lock p"
  "up_lock (forget_userland_lock_info k p) = up_lock p"
  "up_condvar (set_condvar c v p) = (up_condvar p)(c := v)" "up_condvar (set_lock k v p) = up_condvar p"
  "up_condvar (put_condvar_cv i p) = up_condvar p" "up_condvar (put_lock_info j p) = up_condvar p"
  "up_condvar (forget_userland_lock_info k p) = up_condvar p"
  "up_woken (set_condvar c v p) = up_woken p" "up_woken (set_lock k v p) = up_woken p"
  "up_woken (put_condvar_cv i p) = up_woken p" "up_woken (put_lock_info j p) = up_woken p"
  "up_woken (forget_userland_lock_info k p) = up_woken p"
  by (simp_all add: list_defs)

lemma get_put_lock_info:
  "get_userland_lock_info l (put_lock_info i p) =
     (if l = lw_lock i then (if get_userland_lock_info l p = None then None else Some i) else get_userland_lock_info l p)"
  by (simp add: list_defs find_put_first)

lemma get_put_condvar_cv:
  "get_userland_condvar_cv c (put_condvar_cv i p) =
     (if c = cw_condvar i then (if get_userland_condvar_cv c p = None then None else Some i) else get_userland_condvar_cv c p)"
  by (simp add: list_defs find_put_first)

lemma get_forget_lock:
  "lists_ok p \<Longrightarrow> get_userland_lock_info l (forget_userland_lock_info k p) = (if l = k then None else get_userland_lock_info l p)"
  using remove_first_find[of lw_lock "up_locks p" l k] by (simp add: list_defs lists_ok_def)

lemma lists_ok_simps [simp]:
  "lists_ok (set_lock k v p) = lists_ok p" "lists_ok (set_condvar c v p) = lists_ok p" "lists_ok (put_lock_info j p) = lists_ok p"
  "lists_ok (put_condvar_cv i p) = lists_ok p" "lists_ok (p\<lparr>up_woken := x\<rparr>) = lists_ok p"
  by (simp_all add: lists_ok_def list_defs)

lemma lists_ok_forget [simp]: "lists_ok p \<Longrightarrow> lists_ok (forget_userland_lock_info k p)"
  using remove_first_distinct[of lw_lock "up_locks p" k] by (simp add: list_defs lists_ok_def)

lemma get_lock_key: "get_userland_lock_info l p = Some i \<Longrightarrow> lw_lock i = l"
  unfolding get_userland_lock_info_def by (rule find_key)

lemma get_condvar_key: "get_userland_condvar_cv c p = Some i \<Longrightarrow> cw_condvar i = c"
  unfolding get_userland_condvar_cv_def by (rule find_key)

lemma get_or_create_lock:
  assumes "get_or_create_userland_lock_info l p = (i, q)"
  shows "get_userland_lock_info l q = Some i \<and> lw_lock i = l \<and> (lists_ok p \<longrightarrow> lists_ok q) \<and> up_lock q = up_lock p \<and>
    up_condvar q = up_condvar p \<and> up_woken q = up_woken p \<and> get_userland_condvar_cv c q = get_userland_condvar_cv c p \<and>
    lw_writers i = writers_of p l \<and> lw_read_signaler i = readers_of p l \<and> lw_number_of_readers i = count_of p l \<and>
    (k \<noteq> l \<longrightarrow> get_userland_lock_info k q = get_userland_lock_info k p)"
proof (cases "get_userland_lock_info l p")
  case None
  then have "l \<notin> lw_lock ` set (up_locks p)" by (simp add: get_userland_lock_info_def find_None_key)
  with None assms show ?thesis
    by (auto simp: get_or_create_userland_lock_info_def list_defs find_append new_lock_waiters_def lists_ok_def writers_of_def
        readers_of_def count_of_def split: option.splits)
next
  case (Some j)
  with assms get_lock_key[OF Some] show ?thesis
    by (simp add: get_or_create_userland_lock_info_def writers_of_def readers_of_def count_of_def)
qed

lemma get_or_create_condvar:
  assumes "get_or_create_userland_condvar_cv c l p = (i, q)"
  shows "get_userland_condvar_cv c q = Some i \<and> cw_condvar i = c \<and> (lists_ok p \<longrightarrow> lists_ok q) \<and> up_lock q = up_lock p \<and>
    up_condvar q = up_condvar p \<and> up_woken q = up_woken p \<and> get_userland_lock_info k q = get_userland_lock_info k p \<and>
    cw_threads i = threads_of p c \<and> (d \<noteq> c \<longrightarrow> get_userland_condvar_cv d q = get_userland_condvar_cv d p)"
proof (cases "get_userland_condvar_cv c p")
  case None
  then have "c \<notin> cw_condvar ` set (up_condvars p)" by (simp add: get_userland_condvar_cv_def find_None_key)
  with None assms show ?thesis
    by (auto simp: get_or_create_userland_condvar_cv_def list_defs find_append lists_ok_def threads_of_def Let_def split: option.splits)
next
  case (Some j)
  with assms get_condvar_key[OF Some] show ?thesis
    by (simp add: get_or_create_userland_condvar_cv_def threads_of_def)
qed

text \<open>The effect of each list operation on what the lists hold.\<close>

lemma view_simps [simp]:
  "writers_of (set_lock k v p) = writers_of p" "readers_of (set_lock k v p) = readers_of p" "count_of (set_lock k v p) = count_of p"
  "threads_of (set_lock k v p) = threads_of p" "cv_lock_of (set_lock k v p) = cv_lock_of p"
  "writers_of (set_condvar k v p) = writers_of p" "readers_of (set_condvar k v p) = readers_of p" "count_of (set_condvar k v p) = count_of p"
  "threads_of (set_condvar k v p) = threads_of p" "cv_lock_of (set_condvar k v p) = cv_lock_of p"
  "writers_of (p\<lparr>up_woken := x\<rparr>) = writers_of p" "readers_of (p\<lparr>up_woken := x\<rparr>) = readers_of p" "count_of (p\<lparr>up_woken := x\<rparr>) = count_of p"
  "threads_of (p\<lparr>up_woken := x\<rparr>) = threads_of p" "cv_lock_of (p\<lparr>up_woken := x\<rparr>) = cv_lock_of p"
  "writers_of (put_condvar_cv i p) = writers_of p" "readers_of (put_condvar_cv i p) = readers_of p" "count_of (put_condvar_cv i p) = count_of p"
  "threads_of (put_lock_info j p) = threads_of p" "cv_lock_of (put_lock_info j p) = cv_lock_of p"
  "threads_of (forget_userland_lock_info k p) = threads_of p" "cv_lock_of (forget_userland_lock_info k p) = cv_lock_of p"
  by (simp_all add: writers_of_def readers_of_def count_of_def threads_of_def cv_lock_of_def fun_eq_iff)

lemma view_put_lock:
  assumes "get_userland_lock_info (lw_lock i) p \<noteq> None"
  shows "writers_of (put_lock_info i p) = (writers_of p)(lw_lock i := lw_writers i)"
    "readers_of (put_lock_info i p) = (readers_of p)(lw_lock i := lw_read_signaler i)"
    "count_of (put_lock_info i p) = (count_of p)(lw_lock i := lw_number_of_readers i)"
  using assms by (auto simp: writers_of_def readers_of_def count_of_def get_put_lock_info fun_eq_iff)

lemma view_put_condvar:
  assumes "get_userland_condvar_cv (cw_condvar i) p \<noteq> None"
  shows "threads_of (put_condvar_cv i p) = (threads_of p)(cw_condvar i := cw_threads i)"
    "cv_lock_of (put_condvar_cv i p) = (cv_lock_of p)(cw_condvar i \<mapsto> cw_lock i)"
  using assms by (auto simp: threads_of_def cv_lock_of_def get_put_condvar_cv fun_eq_iff)

lemma view_forget:
  assumes "lists_ok p"
  shows "writers_of (forget_userland_lock_info l p) = (writers_of p)(l := [])"
    "readers_of (forget_userland_lock_info l p) = (readers_of p)(l := [])"
    "count_of (forget_userland_lock_info l p) = (count_of p)(l := 0)"
  using assms by (auto simp: writers_of_def readers_of_def count_of_def get_forget_lock fun_eq_iff)

lemma view_get_lock:
  "get_userland_lock_info l p = Some i \<Longrightarrow>
    lw_lock i = l \<and> writers_of p l = lw_writers i \<and> readers_of p l = lw_read_signaler i \<and> count_of p l = lw_number_of_readers i"
  "get_userland_lock_info l p = None \<Longrightarrow> writers_of p l = [] \<and> readers_of p l = [] \<and> count_of p l = 0"
  by (auto simp: writers_of_def readers_of_def count_of_def dest: get_lock_key)

lemma view_create_lock:
  assumes "get_or_create_userland_lock_info l p = (i, q)"
  shows "writers_of q = writers_of p" "readers_of q = readers_of p" "count_of q = count_of p" "threads_of q = threads_of p"
    "cv_lock_of q = cv_lock_of p"
proof -
  have g: "get_userland_lock_info k q = (if k = l then Some i else get_userland_lock_info k p)" for k
    using get_or_create_lock[OF assms, where k = k] by auto
  have "get_userland_condvar_cv c q = get_userland_condvar_cv c p" for c
    using get_or_create_lock[OF assms, where c = c] by simp
  then show "threads_of q = threads_of p" "cv_lock_of q = cv_lock_of p" by (simp_all add: threads_of_def cv_lock_of_def fun_eq_iff)
  show "writers_of q = writers_of p" "readers_of q = readers_of p" "count_of q = count_of p"
    using get_or_create_lock[OF assms] by (auto simp: writers_of_def[of q] readers_of_def[of q] count_of_def[of q] g fun_eq_iff)
      (simp_all add: writers_of_def readers_of_def count_of_def)
qed

subsection \<open>The invariant\<close>

abbreviation tids :: "wake_item list \<Rightarrow> tid set" where
  "tids ws \<equiv> wk_tid ` set ws"

text \<open>The word of a lock says who holds it.\<close>

definition word_ok :: "lock_abi \<Rightarrow> u32 \<Rightarrow> tid set \<Rightarrow> tid set \<Rightarrow> bool" where
  "word_ok L v W R \<longleftrightarrow> (if wr L v then W = {low v} \<and> R = {} else W = {} \<and> finite R \<and> unat (low v) = card R)"

text \<open>
  A lock that threads wait for is held, and its word sends whoever unlocks it to the kernel. Each
  entry of a queue belongs to a thread that waits for that lock and is subscribed to the entry.
\<close>

definition lock_ok :: "lock_abi \<Rightarrow> (tid \<rightharpoonup> u32 \<times> bool \<times> u32 option) \<Rightarrow> u32 \<Rightarrow> u32 \<Rightarrow> wake_item list \<Rightarrow> tid list \<Rightarrow> u32 \<Rightarrow> tid set \<Rightarrow> tid set \<Rightarrow> bool" where
  "lock_ok L waits l v ws rs n W R \<longleftrightarrow>
     word_ok L v W R \<and> (ws \<noteq> [] \<or> n \<noteq> 0 \<longrightarrow> low v \<noteq> 0 \<and> km L v) \<and>
     distinct (map wk_tid ws) \<and> (\<forall>w \<in> set ws. wk_conditions w = [wk_tid w] \<and> (\<exists>c. waits (wk_tid w) = Some (l, True, c))) \<and>
     distinct rs \<and> length rs = unat n \<and> (\<forall>t \<in> set rs. waits t = Some (l, False, None))"

definition cv_ok :: "lock_abi \<Rightarrow> (tid \<rightharpoonup> u32 \<times> bool \<times> u32 option) \<Rightarrow> (u32 \<Rightarrow> wake_item list) \<Rightarrow> u32 \<Rightarrow> u32 \<Rightarrow> wake_item list \<Rightarrow> u32 option \<Rightarrow> bool" where
  "cv_ok L waits ws c v q k \<longleftrightarrow>
     (v = CONDVAR_HAS_NO_WAITERS L \<longleftrightarrow> q = []) \<and> distinct (map wk_tid q) \<and>
     (\<forall>w \<in> set q. wk_conditions w = [wk_tid w] \<and>
        (\<exists>l. k = Some l \<and> waits (wk_tid w) = Some (l, True, Some c) \<and> wk_tid w \<notin> tids (ws l)))"

text \<open>Every thread that waits is in a queue.\<close>

definition placed :: "(u32 \<Rightarrow> wake_item list) \<Rightarrow> (u32 \<Rightarrow> tid list) \<Rightarrow> (u32 \<Rightarrow> wake_item list) \<Rightarrow> (u32 \<rightharpoonup> u32) \<Rightarrow> tid \<Rightarrow> u32 \<Rightarrow> bool \<Rightarrow> u32 option \<Rightarrow> bool" where
  "placed ws rs q k t l write c \<longleftrightarrow>
     (if write then t \<in> tids (ws l) \<or> (\<exists>d. c = Some d \<and> t \<in> tids (q d)) else t \<in> set (rs l) \<and> c = None) \<and>
     (\<forall>d. c = Some d \<longrightarrow> k d = Some l)"

definition vinv where
  "vinv L lk ws rs n v q k waits W R \<longleftrightarrow>
     (\<forall>l. lock_ok L waits l (lk l) (ws l) (rs l) (n l) {t. (t, l) \<in> W} {t. (t, l) \<in> R}) \<and>
     (\<forall>c. cv_ok L waits ws c (v c) (q c) (k c)) \<and>
     (\<forall>t l write c. waits t = Some (l, write, c) \<longrightarrow> placed ws rs q k t l write c) \<and>
     (\<forall>t. waits t \<noteq> None \<or> (\<exists>l. (t, l) \<in> W \<union> R) \<longrightarrow> valid_tid t)"

definition lock_inv :: "lock_abi \<Rightarrow> gstate \<Rightarrow> bool" where
  "lock_inv L s \<longleftrightarrow> (let p = gs_proc s in lists_ok p \<and> up_woken p = [] \<and>
     vinv L (up_lock p) (writers_of p) (readers_of p) (count_of p) (up_condvar p) (threads_of p) (cv_lock_of p)
       (gs_waits s) (gs_writes s) (gs_reads s))"

lemma lock_ok_waits:
  "lock_ok L waits l v ws rs n W R \<Longrightarrow> (\<And>t. t \<in> tids ws \<union> set rs \<Longrightarrow> waits' t = waits t) \<Longrightarrow> lock_ok L waits' l v ws rs n W R"
  unfolding lock_ok_def by simp

lemma cv_ok_waits:
  "cv_ok L waits ws c v q k \<Longrightarrow> (\<And>t. t \<in> tids q \<Longrightarrow> waits' t = waits t) \<Longrightarrow> (\<And>l. k = Some l \<Longrightarrow> tids q \<inter> tids (ws' l) = {}) \<Longrightarrow>
   cv_ok L waits' ws' c v q k"
  unfolding cv_ok_def by (fastforce simp: disjoint_iff)

text \<open>A step at one lock and some condition variables.\<close>

lemma vinv_step:
  assumes inv: "vinv L lk ws rs n v q k waits W R"
    and changed: "\<And>u. waits' u \<noteq> waits u \<Longrightarrow> (waits u = None \<or> (\<exists>w c. waits u = Some (l, w, c))) \<and> (\<forall>c. c \<notin> C \<longrightarrow> u \<notin> tids (q c))"
    and others: "\<And>i. i \<noteq> l \<Longrightarrow> lk' i = lk i \<and> ws' i = ws i \<and> rs' i = rs i \<and> n' i = n i \<and>
        {t. (t, i) \<in> W'} = {t. (t, i) \<in> W} \<and> {t. (t, i) \<in> R'} = {t. (t, i) \<in> R}"
    and this_lock: "lock_ok L waits' l (lk' l) (ws' l) (rs' l) (n' l) {t. (t, l) \<in> W'} {t. (t, l) \<in> R'}"
    and other_cvs: "\<And>c. c \<notin> C \<Longrightarrow> v' c = v c \<and> q' c = q c \<and> k' c = k c \<and> (k c = Some l \<longrightarrow> tids (q c) \<inter> tids (ws' l) = {})"
    and these_cvs: "\<And>c. c \<in> C \<Longrightarrow> cv_ok L waits' ws' c (v' c) (q' c) (k' c)"
    and here: "\<And>u w c. waits' u = Some (l, w, c) \<Longrightarrow> placed ws' rs' q' k' u l w c"
    and elsewhere: "\<And>u i w c. waits' u = Some (i, w, c) \<Longrightarrow> i \<noteq> l \<Longrightarrow> waits u = waits' u \<and> (\<forall>d. c = Some d \<longrightarrow> d \<notin> C)"
    and valid: "\<And>u. waits' u \<noteq> None \<or> (\<exists>l. (u, l) \<in> W' \<union> R') \<Longrightarrow> valid_tid u"
  shows "vinv L lk' ws' rs' n' v' q' k' waits' W' R'"
  unfolding vinv_def
proof (intro conjI allI impI)
  from inv have I: "\<And>i. lock_ok L waits i (lk i) (ws i) (rs i) (n i) {t. (t, i) \<in> W} {t. (t, i) \<in> R}"
    "\<And>c. cv_ok L waits ws c (v c) (q c) (k c)" "\<And>t i w c. waits t = Some (i, w, c) \<Longrightarrow> placed ws rs q k t i w c"
    unfolding vinv_def by blast+
  fix i
  show "lock_ok L waits' i (lk' i) (ws' i) (rs' i) (n' i) {t. (t, i) \<in> W'} {t. (t, i) \<in> R'}"
  proof (cases "i = l")
    case False
    have "waits' t = waits t" if "t \<in> tids (ws i) \<union> set (rs i)" for t
    proof (rule ccontr)
      assume "waits' t \<noteq> waits t"
      from changed[OF this] that False I(1)[of i] show False by (auto simp: lock_ok_def)
    qed
    with lock_ok_waits[OF I(1)[of i], of waits'] others[OF False] show ?thesis by simp
  qed (use this_lock in simp)
next
  from inv have I: "\<And>c. cv_ok L waits ws c (v c) (q c) (k c)" unfolding vinv_def by blast
  fix c
  show "cv_ok L waits' ws' c (v' c) (q' c) (k' c)"
  proof (cases "c \<in> C")
    case False
    have e: "waits' t = waits t" if "t \<in> tids (q c)" for t using changed that False by blast
    have "tids (q c) \<inter> tids (ws' i) = {}" if "k c = Some i" for i
    proof (cases "i = l")
      case False
      with others[OF False] I[of c] that show ?thesis by (auto simp: cv_ok_def)
    qed (use other_cvs[OF False] that in simp)
    from cv_ok_waits[OF I[of c] e this] other_cvs[OF False] show ?thesis by simp
  qed (use these_cvs in simp)
next
  from inv have I: "\<And>t i w c. waits t = Some (i, w, c) \<Longrightarrow> placed ws rs q k t i w c" unfolding vinv_def by blast
  fix t i w c assume w: "waits' t = Some (i, w, c)"
  show "placed ws' rs' q' k' t i w c"
  proof (cases "i = l")
    case False
    from elsewhere[OF w False] w have "waits t = Some (i, w, c)" "\<And>d. c = Some d \<Longrightarrow> d \<notin> C" by simp_all
    with I[of t i w c] others[OF False] other_cvs show ?thesis by (auto simp: placed_def split: if_splits)
  qed (use here w in simp)
next
  fix t assume "waits' t \<noteq> None \<or> (\<exists>l. (t, l) \<in> W' \<union> R')"
  then show "valid_tid t" by (rule valid)
qed

lemma vinvD:
  assumes "vinv L lk ws rs n v q k waits W R"
  shows "lock_ok L waits l (lk l) (ws l) (rs l) (n l) {t. (t, l) \<in> W} {t. (t, l) \<in> R}"
    "cv_ok L waits ws c (v c) (q c) (k c)" "waits t = Some (l, w, d) \<Longrightarrow> placed ws rs q k t l w d"
    "waits t \<noteq> None \<or> (\<exists>l. (t, l) \<in> W \<union> R) \<Longrightarrow> valid_tid t"
  using assms unfolding vinv_def by blast+

lemma not_queued:
  assumes "vinv L lk ws rs n v q k waits W R" "waits t = None"
  shows "t \<notin> tids (ws l)" "t \<notin> set (rs l)" "t \<notin> tids (q c)"
  using vinvD(1)[OF assms(1), of l] vinvD(2)[OF assms(1), of c] assms(2) by (auto simp: lock_ok_def cv_ok_def)

lemma valid_tid_not_0: "valid_tid t \<Longrightarrow> t \<noteq> 0" "valid_tid t \<Longrightarrow> low t = t"
  by (auto simp: valid_tid_def low_def valid_tid_low)

lemma free_lock:
  assumes inv: "vinv L lk ws rs n v q k waits W R" and "low (lk l) = 0"
  shows "ws l = []" "rs l = []" "n l = 0" "{t. (t, l) \<in> W} = {}" "{t. (t, l) \<in> R} = {}" "\<not> wr L (lk l)"
proof -
  note l = vinvD(1)[OF inv, of l]
  show "ws l = []" "n l = 0" using l assms(2) by (auto simp: lock_ok_def)
  with l show "rs l = []" by (simp add: lock_ok_def)
  show w: "\<not> wr L (lk l)"
  proof
    assume "wr L (lk l)"
    with l assms(2) have "(0, l) \<in> W" by (auto simp: lock_ok_def word_ok_def)
    then have "valid_tid 0" by (intro vinvD(4)[OF inv]) blast
    then show False by (simp add: valid_tid_def)
  qed
  with l assms(2) show "{t. (t, l) \<in> W} = {}" "{t. (t, l) \<in> R} = {}" by (auto simp: lock_ok_def word_ok_def)
qed

lemma insert_slice [simp]:
  "{t. (t, i) \<in> insert (u, l) W} = (if i = l then insert u {t. (t, i) \<in> W} else {t. (t, i) \<in> W})"
  "{t. (t, i) \<in> W - {(u, l)}} = (if i = l then {t. (t, i) \<in> W} - {u} else {t. (t, i) \<in> W})"
  by auto

lemma cv_disjoint:
  assumes "vinv L lk ws rs n v q k waits W R" "k c = Some l"
  shows "tids (q c) \<inter> tids (ws l) = {}"
proof -
  have "wk_tid w \<notin> tids (ws l)" if "w \<in> set (q c)" for w
    using vinvD(2)[OF assms(1), of c] assms(2) that by (auto simp: cv_ok_def)
  then show ?thesis by blast
qed

lemma vinv_word:
  assumes inv: "vinv L lk ws rs n v q k waits W R"
    and "lock_ok L waits l x (ws l) (rs l) (n l) {t. (t, l) \<in> W'} {t. (t, l) \<in> R'}"
    and "\<And>i. i \<noteq> l \<Longrightarrow> {t. (t, i) \<in> W'} = {t. (t, i) \<in> W} \<and> {t. (t, i) \<in> R'} = {t. (t, i) \<in> R}"
    and "\<And>u. (u, l) \<in> W' \<union> R' \<Longrightarrow> valid_tid u"
  shows "vinv L (lk(l := x)) ws rs n v q k waits W' R'"
proof (rule vinv_step[OF inv, where C = "{}" and l = l])
  fix u assume u: "waits u \<noteq> None \<or> (\<exists>i. (u, i) \<in> W' \<union> R')"
  show "valid_tid u"
  proof (cases "waits u = None")
    case True
    with u obtain i where i: "(u, i) \<in> W' \<union> R'" by blast
    show ?thesis
    proof (cases "i = l")
      case False
      with i assms(3)[OF False] have "(u, i) \<in> W \<union> R" by blast
      then show ?thesis using vinvD(4)[OF inv, of u] by blast
    qed (use i assms(4) in blast)
  qed (use vinvD(4)[OF inv] in blast)
qed (use assms(2,3) cv_disjoint[OF inv] vinvD(3)[OF inv] in simp_all)

lemma vinv_take_write:
  assumes L: "lock_abi_ok L" and inv: "vinv L lk ws rs n v q k waits W R" and free: "low (lk l) = 0" and t: "valid_tid t"
  shows "vinv L (lk(l := LOCK_WRLOCKED L OR (t AND lock_mask))) ws rs n v q k waits (insert (t, l) W) R"
  using free_lock[OF inv free] t
  by (intro vinv_word[OF inv]) (auto simp: lock_ok_def word_ok_def lock_word_simps[OF L] valid_tid_not_0)

lemma vinv_take_read:
  assumes L: "lock_abi_ok L" and inv: "vinv L lk ws rs n v q k waits W R" and free: "low (lk l) = 0" and t: "valid_tid t"
  shows "vinv L (lk(l := 1)) ws rs n v q k waits W (insert (t, l) R)"
proof -
  have "\<not> wr L 1" using lock_step_simps(1)[OF L, of 0] by simp
  then show ?thesis using free_lock[OF inv free] t
    by (intro vinv_word[OF inv]) (auto simp: lock_ok_def word_ok_def)
qed

text \<open>There are less than \<open>2\<^sup>3\<^sup>0\<close> threads.\<close>

lemma card_tids:
  assumes "\<And>t. t \<in> T \<Longrightarrow> valid_tid t"
  shows "finite T" "card T \<le> 0x3fffffff"
proof -
  have s: "unat ` T \<subseteq> {1..0x3fffffff}"
    using assms by (fastforce simp: valid_tid_def word_le_nat_alt word_less_nat_alt)
  have inj: "inj_on unat T" by (rule inj_onI) (simp add: word_unat_eq_iff)
  show "finite T" using finite_imageD[OF finite_subset[OF s] inj] by simp
  show "card T \<le> 0x3fffffff" using card_mono[OF _ s] by (simp add: card_image[OF inj])
qed

lemma vinv_add_read:
  assumes L: "lock_abi_ok L" and inv: "vinv L lk ws rs n v q k waits W R" and held: "low (lk l) \<noteq> 0" "\<not> wr L (lk l)"
    and t: "valid_tid t" "(t, l) \<notin> R"
  shows "vinv L (lk(l := lk l + 1)) ws rs n v q k waits W (insert (t, l) R)"
proof -
  note l = vinvD(1)[OF inv, of l]
  let ?R = "{u. (u, l) \<in> R}"
  have R: "finite ?R" "unat (low (lk l)) = card ?R" using l held by (auto simp: lock_ok_def word_ok_def)
  have V: "valid_tid u" if "u \<in> insert t ?R" for u
    using that t(1) vinvD(4)[OF inv, of u] by blast
  from card_tids(2)[of "insert t ?R", OF V] R(1) t(2) have c: "card ?R < 0x3fffffff" by simp
  with R(2) have "low (lk l + 1) = low (lk l) + 1 \<and> wr L (lk l + 1) = wr L (lk l) \<and> km L (lk l + 1) = km L (lk l)"
    by (intro lock_step_simps(1)[OF L]) simp
  moreover have u: "unat (low (lk l) + 1) = card ?R + 1" using R(2) c by (simp add: unat_word_ariths)
  moreover from u have "low (lk l) + 1 \<noteq> 0" by (metis add_is_0 one_neq_zero unat_0)
  moreover have "card (insert t ?R) = card ?R + 1" using t(2) R(1) by simp
  ultimately have "lock_ok L waits l (lk l + 1) (ws l) (rs l) (n l) {u. (u, l) \<in> W} (insert t ?R)"
    using l held R by (simp add: lock_ok_def word_ok_def)
  then have "lock_ok L waits l (lk l + 1) (ws l) (rs l) (n l) {u. (u, l) \<in> W} {u. (u, l) \<in> insert (t, l) R}"
    by (simp only: insert_slice if_True simp_thms)
  then show ?thesis
  proof (rule vinv_word[OF inv])
    fix u assume "(u, l) \<in> W \<union> insert (t, l) R"
    then show "valid_tid u" using V vinvD(4)[OF inv, of u] by blast
  qed (simp only: insert_slice if_False simp_thms)
qed

lemma valid_waits:
  assumes "vinv L lk ws rs n v q k waits W R" "waits u \<noteq> None \<or> (\<exists>i. (u, i) \<in> W \<union> R)"
  shows "valid_tid u"
  using assms(2) by (rule vinvD(4)[OF assms(1)])

text \<open>A thread is in one queue only.\<close>

lemma in_writers:
  assumes inv: "vinv L lk ws rs n v q k waits W R" and "t \<in> tids (ws l)"
  shows "\<exists>c. waits t = Some (l, True, c)" "t \<notin> tids (q c)" "valid_tid t"
proof -
  from assms(2) obtain w where w: "w \<in> set (ws l)" "t = wk_tid w" by blast
  then show e: "\<exists>c. waits t = Some (l, True, c)" using vinvD(1)[OF inv, of l] by (simp add: lock_ok_def)
  then show "valid_tid t" by (intro vinvD(4)[OF inv]) auto
  show "t \<notin> tids (q c)"
  proof
    assume "t \<in> tids (q c)"
    then obtain u where "u \<in> set (q c)" "t = wk_tid u" by blast
    then obtain i where "waits t = Some (i, True, Some c)" "t \<notin> tids (ws i)" using vinvD(2)[OF inv, of c] by (auto simp: cv_ok_def)
    with e assms(2) show False by simp
  qed
qed

lemma in_readers:
  assumes inv: "vinv L lk ws rs n v q k waits W R" and "t \<in> set (rs l)"
  shows "waits t = Some (l, False, None)" "t \<notin> tids (q c)" "valid_tid t"
proof -
  show e: "waits t = Some (l, False, None)" using vinvD(1)[OF inv, of l] assms(2) by (simp add: lock_ok_def)
  then show "valid_tid t" by (intro vinvD(4)[OF inv]) auto
  show "t \<notin> tids (q c)" using vinvD(2)[OF inv, of c] e by (auto simp: cv_ok_def)
qed

lemma in_condvar:
  assumes inv: "vinv L lk ws rs n v q k waits W R" and "t \<in> tids (q c)"
  shows "\<exists>l. waits t = Some (l, True, Some c) \<and> k c = Some l" "valid_tid t"
proof -
  show e: "\<exists>l. waits t = Some (l, True, Some c) \<and> k c = Some l" using vinvD(2)[OF inv, of c] assms(2) by (auto simp: cv_ok_def)
  then show "valid_tid t" by (intro vinvD(4)[OF inv]) auto
qed

text \<open>Waiting for a lock.\<close>

lemma vinv_enqueue_writer:
  assumes L: "lock_abi_ok L" and inv: "vinv L lk ws rs n v q k waits W R" and held: "low (lk l) \<noteq> 0"
    and t: "valid_tid t" "waits t = None"
  shows "vinv L (lk(l := lk l OR LOCK_KERNEL_MANAGED L)) (ws(l := ws l @ [\<lparr>wk_tid = t, wk_conditions = [t]\<rparr>])) rs n v q k
    (waits(t \<mapsto> (l, True, None))) W R"
proof (rule vinv_step[OF inv, where C = "{}" and l = l], goal_cases)
  case 3
  from vinvD(1)[OF inv, of l] held t not_queued[OF inv t(2), of l]
  show ?case by (auto simp: lock_ok_def word_ok_def lock_word_simps[OF L])
next
  case (4 c)
  with cv_disjoint[OF inv, of c l] not_queued(3)[OF inv t(2), of c] show ?case by auto
next
  case (6 u w c)
  with vinvD(3)[OF inv, of u l w c] show ?case by (auto simp: placed_def split: if_splits)
next
  case (8 u)
  with t vinvD(4)[OF inv, of u] show ?case by (auto split: if_splits)
qed (use not_queued(3)[OF inv t(2)] t in \<open>auto split: if_splits\<close>)

lemma vinv_enqueue_reader:
  assumes L: "lock_abi_ok L" and inv: "vinv L lk ws rs n v q k waits W R" and held: "low (lk l) \<noteq> 0"
    and t: "valid_tid t" "waits t = None"
  shows "vinv L (lk(l := lk l OR LOCK_KERNEL_MANAGED L)) ws (rs(l := rs l @ [t])) (n(l := n l + 1)) v q k
    (waits(t \<mapsto> (l, False, None))) W R"
proof (rule vinv_step[OF inv, where C = "{}" and l = l], goal_cases)
  case 3
  note l = vinvD(1)[OF inv, of l]
  have "card (set (rs l)) \<le> 0x3fffffff" by (rule card_tids) (rule in_readers(3)[OF inv])
  then have "unat (n l) \<le> 0x3fffffff" using l by (simp add: lock_ok_def distinct_card)
  then have "unat (n l + 1) = unat (n l) + 1" by (simp add: unat_word_ariths)
  with l held t not_queued[OF inv t(2), of l]
  show ?case by (auto simp: lock_ok_def word_ok_def lock_word_simps[OF L])
next
  case (6 u w c)
  with vinvD(3)[OF inv, of u l w c] show ?case by (auto simp: placed_def split: if_splits)
next
  case (8 u)
  with t vinvD(4)[OF inv, of u] show ?case by (auto split: if_splits)
qed (use not_queued(3)[OF inv t(2)] t cv_disjoint[OF inv] in \<open>auto split: if_splits\<close>)

text \<open>Handing a lock over.\<close>

lemma vinv_give:
  assumes L: "lock_abi_ok L" and inv: "vinv L lk ws rs n v q k waits W R" and held: "{u. (u, l) \<in> W} = {t}" and w: "ws l = first # rest"
    and x: "wr L x" "low x = low (wk_tid first)" "rest \<noteq> [] \<or> n l \<noteq> 0 \<Longrightarrow> km L x"
  shows "vinv L (lk(l := x)) (ws(l := rest)) rs n v q k (waits(wk_tid first := None)) (insert (wk_tid first, l) (W - {(t, l)})) R"
proof -
  let ?f = "wk_tid first"
  note l = vinvD(1)[OF inv, of l]
  have f: "?f \<in> tids (ws l)" using w by simp
  note valid = in_writers(3)[OF inv f]
  have wr: "wr L (lk l)" "{u. (u, l) \<in> R} = {}" using l held by (auto simp: lock_ok_def word_ok_def split: if_splits)
  show ?thesis
  proof (rule vinv_step[OF inv, where C = "{}" and l = l], goal_cases)
    case (1 u)
    then have "u = ?f" by (auto split: if_splits)
    with in_writers[OF inv f] show ?case by auto
  next
    case 3
    have "?f \<notin> set (rs l)" using l in_writers(1)[OF inv f] by (auto simp: lock_ok_def)
    moreover have "?f \<notin> tids rest" using l w by (simp add: lock_ok_def)
    then have "wk_tid u \<noteq> ?f" if "u \<in> set rest" for u using that by (metis imageI)
    moreover have W: "{u. (u, l) \<in> insert (?f, l) (W - {(t, l)})} = {?f}" using held by auto
    ultimately show ?case unfolding W using l w wr x valid valid_tid_not_0[OF valid] by (auto simp: lock_ok_def word_ok_def)
  next
    case (4 c)
    with cv_disjoint[OF inv, of c l] w show ?case by auto
  next
    case (6 u w c)
    then have "u \<noteq> ?f" "waits u = Some (l, w, c)" by (auto split: if_splits)
    with vinvD(3)[OF inv, of u l w c] \<open>ws l = first # rest\<close> show ?case by (auto simp: placed_def)
  next
    case (8 u)
    with valid vinvD(4)[OF inv, of u] show ?case by (auto split: if_splits)
  qed (use valid in \<open>auto split: if_splits\<close>)
qed

lemma readers_bound:
  assumes inv: "vinv L lk ws rs n v q k waits W R"
  shows "length (rs l) = unat (n l)" "distinct (rs l)" "unat (n l) \<le> 0x3fffffff" "low (n l) = n l"
proof -
  show e: "length (rs l) = unat (n l)" "distinct (rs l)" using vinvD(1)[OF inv, of l] by (simp_all add: lock_ok_def)
  have "card (set (rs l)) \<le> 0x3fffffff" by (rule card_tids) (rule in_readers(3)[OF inv])
  with e show b: "unat (n l) \<le> 0x3fffffff" by (simp add: distinct_card)
  then show "low (n l) = n l" by (simp add: low_def word_unat_eq_iff unat_low)
qed

lemma low_not_wr:
  assumes "lock_abi_ok L" "low x = x"
  shows "\<not> wr L x"
proof -
  have "lock_mask AND LOCK_WRLOCKED L = 0" using assms(1) by (simp add: lock_abi_ok_def and.commute)
  then have "(x AND lock_mask) AND LOCK_WRLOCKED L = 0" by (simp add: and.assoc)
  then show ?thesis using assms(2) by (simp add: low_def wr_def)
qed

lemma vinv_readers:
  assumes L: "lock_abi_ok L" and inv: "vinv L lk ws rs n v q k waits W R" and held: "{u. (u, l) \<in> W} = {t}" and w: "ws l = []"
  shows "vinv L (lk(l := n l)) ws (rs(l := [])) (n(l := 0)) v q k (\<lambda>u. if u \<in> set (rs l) then None else waits u)
    (W - {(t, l)}) (R \<union> (\<lambda>u. (u, l)) ` set (rs l))"
proof -
  note l = vinvD(1)[OF inv, of l]
  note b = readers_bound[OF inv, of l]
  have wr: "wr L (lk l)" "{u. (u, l) \<in> R} = {}" using l held by (auto simp: lock_ok_def word_ok_def split: if_splits)
  have R: "{u. (u, i) \<in> R \<union> (\<lambda>u. (u, l)) ` set (rs l)} = (if i = l then set (rs l) else {u. (u, i) \<in> R})" for i
    using wr(2) by auto
  show ?thesis
  proof (rule vinv_step[OF inv, where C = "{}" and l = l], goal_cases)
    case (1 u)
    then have "u \<in> set (rs l)" by (auto split: if_splits)
    with in_readers[OF inv this] show ?case by auto
  next
    case (2 i)
    then show ?case unfolding R by simp
  next
    case 3
    have "finite (set (rs l))" "unat (low (n l)) = card (set (rs l))" "\<not> wr L (n l)"
      using b low_not_wr[OF L] by (simp_all add: distinct_card)
    moreover have W: "{u. (u, l) \<in> W - {(t, l)}} = {}" using held by auto
    ultimately show ?case unfolding R W using w by (simp add: lock_ok_def word_ok_def)
  next
    case (4 c)
    with w show ?case by simp
  next
    case (6 u m c)
    then have "u \<notin> set (rs l)" "waits u = Some (l, m, c)" by (auto split: if_splits)
    with vinvD(3)[OF inv, of u l m c] show ?case by (auto simp: placed_def split: if_splits)
  next
    case (8 u)
    with in_readers(3)[OF inv, of u l] vinvD(4)[OF inv, of u] show ?case by (auto split: if_splits)
  qed (auto split: if_splits)
qed

text \<open>A reader leaves; the last one becomes the writer.\<close>

lemma vinv_leave:
  assumes L: "lock_abi_ok L" and inv: "vinv L lk ws rs n v q k waits W R" and r: "(t, l) \<in> R" and more: "low (lk l) > 1"
  shows "vinv L (lk(l := lk l - 1)) ws rs n v q k waits W (R - {(t, l)})"
proof -
  note l = vinvD(1)[OF inv, of l]
  have wr: "\<not> wr L (lk l)" "{u. (u, l) \<in> W} = {}" "finite {u. (u, l) \<in> R}" "unat (low (lk l)) = card {u. (u, l) \<in> R}"
    using l r by (auto simp: lock_ok_def word_ok_def split: if_splits)
  have nz: "low (lk l) \<noteq> 0" using more by auto
  have u: "unat (low (lk l) - 1) = unat (low (lk l)) - 1" by (rule unat_minus_one[OF nz])
  have "unat (low (lk l)) > 1" using more by (simp add: word_less_nat_alt)
  with u have nz': "low (lk l) - 1 \<noteq> 0" by (metis less_numeral_extra(3) unat_0 zero_less_diff)
  have c: "card ({u. (u, l) \<in> R} - {t}) = card {u. (u, l) \<in> R} - 1" using wr(3) r by (simp add: card_Diff_singleton)
  have "lock_ok L waits l (lk l - 1) (ws l) (rs l) (n l) {u. (u, l) \<in> W} ({u. (u, l) \<in> R} - {t})"
    using l lock_step_simps(2)[OF L nz] wr u c nz' by (simp add: lock_ok_def word_ok_def)
  then have "lock_ok L waits l (lk l - 1) (ws l) (rs l) (n l) {u. (u, l) \<in> W} {u. (u, l) \<in> R - {(t, l)}}"
    by (simp only: insert_slice if_True simp_thms)
  then show ?thesis
  proof (rule vinv_word[OF inv])
    fix u assume "(u, l) \<in> W \<union> (R - {(t, l)})"
    then show "valid_tid u" using vinvD(4)[OF inv, of u] by blast
  qed (simp only: insert_slice if_False simp_thms)
qed

lemma vinv_convert:
  assumes L: "lock_abi_ok L" and inv: "vinv L lk ws rs n v q k waits W R" and r: "(t, l) \<in> R" and last: "\<not> low (lk l) > 1"
  shows "vinv L (lk(l := (lk l AND LOCK_KERNEL_MANAGED L) OR LOCK_WRLOCKED L OR t)) ws rs n v q k waits (insert (t, l) W) (R - {(t, l)})"
    and "(t, l) \<notin> W"
proof -
  note l = vinvD(1)[OF inv, of l]
  have wr: "\<not> wr L (lk l)" "{u. (u, l) \<in> W} = {}" "finite {u. (u, l) \<in> R}" "unat (low (lk l)) = card {u. (u, l) \<in> R}"
    using l r by (auto simp: lock_ok_def word_ok_def split: if_splits)
  then show "(t, l) \<notin> W" by blast
  have "unat (low (lk l)) \<le> 1" using last by (simp add: word_less_nat_alt)
  moreover have "card {u. (u, l) \<in> R} \<noteq> 0" using wr(3) r by auto
  ultimately have "card {u. (u, l) \<in> R} = 1" using wr(4) by linarith
  then obtain u where "{u. (u, l) \<in> R} = {u}" by (rule card_1_singletonE)
  with r have R: "{u. (u, l) \<in> R} = {t}" by auto
  have valid: "valid_tid t" using vinvD(4)[OF inv, of t] r by blast
  let ?x = "(lk l AND LOCK_KERNEL_MANAGED L) OR LOCK_WRLOCKED L OR t"
  have x: "low ?x = t" "wr L ?x" "km L (lk l) \<Longrightarrow> km L ?x"
    using lock_word_simps(8,9)[OF L] valid_tid_not_0[OF valid] km_convert[OF L] by (auto simp: or.assoc)
  have "lock_ok L waits l ?x (ws l) (rs l) (n l) (insert t {u. (u, l) \<in> W}) ({u. (u, l) \<in> R} - {t})"
    using l x wr(2) R valid_tid_not_0[OF valid] unfolding lock_ok_def word_ok_def by simp
  then have "lock_ok L waits l ?x (ws l) (rs l) (n l) {u. (u, l) \<in> insert (t, l) W} {u. (u, l) \<in> R - {(t, l)}}"
    by (simp only: insert_slice if_True simp_thms)
  then show "vinv L (lk(l := ?x)) ws rs n v q k waits (insert (t, l) W) (R - {(t, l)})"
  proof (rule vinv_word[OF inv])
    fix u assume "(u, l) \<in> insert (t, l) W \<union> (R - {(t, l)})"
    then show "valid_tid u" using vinvD(4)[OF inv, of u] valid by blast
  qed (simp only: insert_slice if_False simp_thms)
qed

text \<open>A thread that waits for a lock gives up.\<close>

lemma vinv_leave_writers:
  assumes inv: "vinv L lk ws rs n v q k waits W R" and t: "waits t = Some (l, True, c)" "t \<in> tids (ws l)"
  shows "vinv L lk (ws(l := filter (\<lambda>w. wk_tid w \<noteq> t) (ws l))) rs n v q k (waits(t := None)) W R"
proof (rule vinv_step[OF inv, where C = "{}" and l = l], goal_cases)
  case (1 u)
  with in_writers(2)[OF inv t(2)] t show ?case by (auto split: if_splits)
next
  case 3
  have "t \<notin> set (rs l)" using in_readers(1)[OF inv] t by auto
  with vinvD(1)[OF inv, of l] show ?case by (auto simp: lock_ok_def distinct_map_filter)
next
  case (4 d)
  with cv_disjoint[OF inv, of d l] show ?case by auto
next
  case (6 u w d)
  with vinvD(3)[OF inv, of u l w d] show ?case by (auto simp: placed_def split: if_splits)
next
  case (8 u)
  with vinvD(4)[OF inv, of u] show ?case by (auto split: if_splits)
qed (use t in \<open>auto split: if_splits\<close>)

lemma vinv_leave_readers:
  assumes inv: "vinv L lk ws rs n v q k waits W R" and t: "waits t = Some (l, False, c)"
  shows "vinv L lk ws (rs(l := remove1 t (rs l))) (n(l := n l - 1)) v q k (waits(t := None)) W R" and "n l \<ge> 1"
proof -
  note l = vinvD(1)[OF inv, of l]
  from vinvD(3)[OF inv t] have m: "t \<in> set (rs l)" by (simp add: placed_def)
  note b = readers_bound[OF inv, of l]
  have nz: "unat (n l) \<noteq> 0" using b m by (metis length_0_conv empty_iff empty_set)
  then have nz': "n l \<noteq> 0" by auto
  then show "n l \<ge> 1" using nz by (simp add: word_le_nat_alt)
  have u: "unat (n l - 1) = unat (n l) - 1" by (rule unat_minus_one[OF nz'])
  show "vinv L lk ws (rs(l := remove1 t (rs l))) (n(l := n l - 1)) v q k (waits(t := None)) W R"
  proof (rule vinv_step[OF inv, where C = "{}" and l = l], goal_cases)
    case (1 u)
    with in_readers(2)[OF inv m] t show ?case by (auto split: if_splits)
  next
    case 3
    have "t \<notin> tids (ws l)" using in_writers(1)[OF inv, of t l] t by auto
    moreover have "length (remove1 t (rs l)) = unat (n l - 1)" using m b u by (simp add: length_remove1)
    moreover have "set (remove1 t (rs l)) = set (rs l) - {t}" using b by (simp add: set_remove1_eq)
    ultimately show ?case using l nz' by (auto simp: lock_ok_def)
  next
    case (4 d)
    with cv_disjoint[OF inv, of d l] show ?case by auto
  next
    case (6 u w d)
    with vinvD(3)[OF inv, of u l w d] b show ?case by (auto simp: placed_def set_remove1_eq split: if_splits)
  next
    case (8 u)
    with vinvD(4)[OF inv, of u] show ?case by (auto split: if_splits)
  qed (use t in \<open>auto split: if_splits\<close>)
qed

text \<open>Waiting for a condition variable.\<close>

lemma vinv_cv_wait:
  assumes L: "lock_abi_ok L" and inv: "vinv L lk ws rs n v q k waits W R" and t: "valid_tid t" "waits t = None"
    and same: "\<And>u i w. waits u = Some (i, w, Some c) \<Longrightarrow> i = l"
  shows "vinv L lk ws rs n (v(c := 1)) (q(c := q c @ [\<lparr>wk_tid = t, wk_conditions = [t]\<rparr>])) (k(c \<mapsto> l))
    (waits(t \<mapsto> (l, True, Some c))) W R"
proof (rule vinv_step[OF inv, where C = "{c}" and l = l], goal_cases)
  case (1 u)
  with not_queued(3)[OF inv t(2)] t show ?case by (auto split: if_splits)
next
  case 3
  show ?case by (rule lock_ok_waits[OF vinvD(1)[OF inv, of l]]) (use not_queued[OF inv t(2), of l] in auto)
next
  case (4 d)
  with cv_disjoint[OF inv, of d l] show ?case by auto
next
  case (5 d)
  have "CONDVAR_HAS_NO_WAITERS L \<noteq> 1" using L by (simp add: lock_abi_ok_def)
  moreover have "waits (wk_tid w) = Some (l, True, Some c) \<and> wk_conditions w = [wk_tid w] \<and> wk_tid w \<notin> tids (ws l) \<and> wk_tid w \<noteq> t" if "w \<in> set (q c)" for w
  proof -
    from in_condvar(1)[OF inv imageI[OF that, of wk_tid]] obtain i where "waits (wk_tid w) = Some (i, True, Some c)" "k c = Some i" by blast
    with same[of "wk_tid w" i True] vinvD(2)[OF inv, of c] that t(2) show ?thesis by (auto simp: cv_ok_def)
  qed
  moreover have "distinct (map wk_tid (q c))" using vinvD(2)[OF inv, of c] by (simp add: cv_ok_def)
  ultimately show ?case using 5 not_queued[OF inv t(2)] by (auto simp: cv_ok_def)
next
  case (6 u w d)
  with vinvD(3)[OF inv, of u l w d] show ?case by (auto simp: placed_def split: if_splits)
next
  case (7 u i w d)
  with same[of u i w] show ?case by (auto split: if_splits)
next
  case (8 u)
  with t vinvD(4)[OF inv, of u] show ?case by (auto split: if_splits)
qed simp

text \<open>A signal moves threads to the queue of a lock that is held.\<close>

lemma vinv_signal:
  assumes L: "lock_abi_ok L" and inv: "vinv L lk ws rs n v q k waits W R" and held: "low (lk l) \<noteq> 0" and k: "k c = Some l"
  shows "vinv L (lk(l := lk l OR LOCK_KERNEL_MANAGED L)) (ws(l := ws l @ take m (q c))) rs n
    (if drop m (q c) = [] then v(c := CONDVAR_HAS_NO_WAITERS L) else v) (q(c := drop m (q c))) k waits W R"
proof -
  note cv = vinvD(2)[OF inv, of c]
  have q: "q c = take m (q c) @ drop m (q c)" by simp
  have d: "distinct (map wk_tid (take m (q c) @ drop m (q c)))" using cv by (simp add: cv_ok_def)
  then have dd: "tids (take m (q c)) \<inter> tids (drop m (q c)) = {}" "distinct (map wk_tid (take m (q c)))" "distinct (map wk_tid (drop m (q c)))"
    by (simp_all only: map_append distinct_append set_map)
  have sub: "w \<in> set (q c)" if "w \<in> set (take m (q c)) \<or> w \<in> set (drop m (q c))" for w
    using that by (auto dest: in_set_takeD in_set_dropD)
  have w: "waits (wk_tid w) = Some (l, True, Some c) \<and> wk_conditions w = [wk_tid w] \<and> wk_tid w \<notin> tids (ws l)" if "w \<in> set (q c)" for w
    using cv k that by (auto simp: cv_ok_def)
  have disj: "tids (take m (q c)) \<inter> tids (ws l) = {}" using w sub by blast
  show ?thesis
  proof (rule vinv_step[OF inv, where C = "{c}" and l = l], goal_cases)
    case 3
    have "distinct (map wk_tid (ws l @ take m (q c)))"
      using vinvD(1)[OF inv, of l] dd(2) disj by (simp add: lock_ok_def inf_commute)
    moreover have "wk_conditions u = [wk_tid u] \<and> (\<exists>c. waits (wk_tid u) = Some (l, True, c))" if "u \<in> set (ws l @ take m (q c))" for u
      using that vinvD(1)[OF inv, of l] w sub by (auto simp: lock_ok_def)
    ultimately show ?case using vinvD(1)[OF inv, of l] held by (simp add: lock_ok_def word_ok_def lock_word_simps[OF L])
  next
    case (4 e)
    have "u \<notin> tids (take m (q c))" if "u \<in> tids (q e)" for u
    proof
      assume "u \<in> tids (take m (q c))"
      then obtain x where "x \<in> set (take m (q c))" "u = wk_tid x" by blast
      with w sub have "waits u = Some (l, True, Some c)" by blast
      with in_condvar(1)[OF inv that] 4 show False by simp
    qed
    then have "tids (q e) \<inter> tids (take m (q c)) = {}" by blast
    with 4 cv_disjoint[OF inv, of e l] show ?case by (simp add: image_Un Int_Un_distrib del: take_all_iff)
  next
    case (5 e)
    have "wk_conditions x = [wk_tid x] \<and> waits (wk_tid x) = Some (l, True, Some c) \<and> wk_tid x \<notin> tids (ws l @ take m (q c))" if "x \<in> set (drop m (q c))" for x
      using w[of x] sub[of x] that dd(1) by auto
    moreover have "v c \<noteq> CONDVAR_HAS_NO_WAITERS L" if "drop m (q c) \<noteq> []"
      using cv that by (cases "q c") (auto simp: cv_ok_def)
    ultimately show ?case using 5 dd(3) k by (auto simp: cv_ok_def)
  next
    case (6 u x d)
    have mv: "u \<in> tids (take m (q c)) \<or> u \<in> tids (drop m (q c))" if "u \<in> tids (q c)"
      using that by (subst (asm) q) (simp only: set_append image_Un Un_iff)
    note p = vinvD(3)[OF inv 6]
    show ?case
    proof (cases "\<exists>e. x \<and> d = Some e \<and> u \<in> tids (q e)")
      case True
      then obtain e where e: "x" "d = Some e" "u \<in> tids (q e)" by blast
      with p have "k e = Some l" by (simp add: placed_def)
      with e mv show ?thesis by (cases "e = c") (auto simp: placed_def image_Un simp del: take_all_iff)
    qed (use p in \<open>auto simp: placed_def split: if_splits\<close>)
  next
    case (7 u i x d)
    from vinvD(3)[OF inv 7(1)] 7(2) k show ?case by (auto simp: placed_def)
  next
    case (8 u)
    with vinvD(4)[OF inv, of u] show ?case by auto
  qed simp_all
qed

text \<open>A wait for a condition variable times out, before or after a signal.\<close>

lemma vinv_cv_leave:
  assumes inv: "vinv L lk ws rs n v q k waits W R" and t: "t \<in> tids (q c)"
  shows "vinv L lk ws rs n (if filter (\<lambda>w. wk_tid w \<noteq> t) (q c) = [] then v(c := CONDVAR_HAS_NO_WAITERS L) else v)
    (q(c := filter (\<lambda>w. wk_tid w \<noteq> t) (q c))) k (waits(t := None)) W R"
proof -
  from in_condvar(1)[OF inv t] obtain l where l: "waits t = Some (l, True, Some c)" "k c = Some l" by blast
  have nw: "t \<notin> tids (ws l)" using cv_disjoint[OF inv l(2)] t by blast
  show ?thesis
  proof (rule vinv_step[OF inv, where C = "{c}" and l = l], goal_cases)
    case (1 u)
    then have "u = t" by (auto split: if_splits)
    moreover have "t \<notin> tids (q d)" if "d \<noteq> c" for d using in_condvar(1)[OF inv, of t d] l(1) that by auto
    ultimately show ?case using l(1) by blast
  next
    case 3
    show ?case by (rule lock_ok_waits[OF vinvD(1)[OF inv, of l]]) (use nw l in_readers(1)[OF inv, of _ l] in auto)
  next
    case (4 d)
    with cv_disjoint[OF inv, of d l] show ?case by auto
  next
    case (5 d)
    have "v c \<noteq> CONDVAR_HAS_NO_WAITERS L" using vinvD(2)[OF inv, of c] t by (auto simp: cv_ok_def)
    with 5 vinvD(2)[OF inv, of c] show ?case by (auto simp: cv_ok_def distinct_map_filter)
  next
    case (6 u w d)
    with vinvD(3)[OF inv, of u l w d] show ?case by (auto simp: placed_def split: if_splits)
  next
    case (7 u i w d)
    then have "waits u = Some (i, w, d)" by (auto split: if_splits)
    with vinvD(3)[OF inv this] 7 l(2) show ?case by (auto simp: placed_def split: if_splits)
  next
    case (8 u)
    with vinvD(4)[OF inv, of u] show ?case by (auto split: if_splits)
  qed simp_all
qed

lemma vinv_cv_forget:
  assumes inv: "vinv L lk ws rs n v q k waits W R" and t: "waits t = Some (l, True, c)" "t \<in> tids (ws l)"
  shows "vinv L lk ws rs n v q k (waits(t \<mapsto> (l, True, None))) W R"
proof (rule vinv_step[OF inv, where C = "{}" and l = l], goal_cases)
  case (1 u)
  with in_writers(2)[OF inv t(2)] t show ?case by (auto split: if_splits)
next
  case 3
  have "t \<notin> set (rs l)" using in_readers(1)[OF inv] t by auto
  with vinvD(1)[OF inv, of l] t show ?case by (auto simp: lock_ok_def)
next
  case (4 d)
  with cv_disjoint[OF inv, of d l] show ?case by auto
next
  case (6 u w d)
  with vinvD(3)[OF inv, of u l w d] t show ?case by (auto simp: placed_def split: if_splits)
next
  case (8 u)
  with vinvD(4)[OF inv, of u] t show ?case by (auto split: if_splits)
qed (use t in \<open>auto split: if_splits\<close>)

subsection \<open>The operations keep the invariant\<close>

definition pinv :: "lock_abi \<Rightarrow> uproc \<Rightarrow> (tid \<rightharpoonup> u32 \<times> bool \<times> u32 option) \<Rightarrow> (tid \<times> u32) set \<Rightarrow> (tid \<times> u32) set \<Rightarrow> bool" where
  "pinv L p waits W R \<longleftrightarrow> lists_ok p \<and>
     vinv L (up_lock p) (writers_of p) (readers_of p) (count_of p) (up_condvar p) (threads_of p) (cv_lock_of p) waits W R"

lemma lock_inv_pinv: "lock_inv L s \<longleftrightarrow> up_woken (gs_proc s) = [] \<and> pinv L (gs_proc s) (gs_waits s) (gs_writes s) (gs_reads s)"
  by (auto simp: lock_inv_def pinv_def Let_def)

lemma pinv_woken [simp]: "pinv L (p\<lparr>up_woken := x\<rparr>) waits W R = pinv L p waits W R"
  by (simp add: pinv_def)

text \<open>Waking a list of threads.\<close>

definition cleared :: "tid list \<Rightarrow> (tid \<rightharpoonup> 'a) \<Rightarrow> (tid \<rightharpoonup> 'a)" where
  "cleared xs waits = (\<lambda>u. if u \<in> set xs then None else waits u)"

definition given :: "tid list \<Rightarrow> (tid \<rightharpoonup> u32 \<times> bool \<times> u32 option) \<Rightarrow> bool \<Rightarrow> (tid \<times> u32) set" where
  "given xs waits write = {(u, l). u \<in> set xs \<and> (\<exists>c. waits u = Some (l, write, c))}"

lemma cleared_simps: "cleared [] waits = waits" "cleared (x # xs) waits = cleared xs (waits(x := None))"
  by (auto simp: cleared_def fun_eq_iff)

lemma given_simps: "given [] waits w = {}"
  "given (x # xs) waits w = (case waits x of Some (l, w', c) \<Rightarrow> if w' = w then {(x, l)} else {} | None \<Rightarrow> {}) \<union> given xs (waits(x := None)) w"
  by (auto simp: given_def split: option.splits if_splits)

lemma fold_wake:
  "fold wake xs s = s\<lparr>gs_waits := cleared xs (gs_waits s), gs_writes := gs_writes s \<union> given xs (gs_waits s) True,
     gs_reads := gs_reads s \<union> given xs (gs_waits s) False\<rparr>"
proof (induction xs arbitrary: s)
  case (Cons x xs)
  have "(wake x s) = s\<lparr>gs_waits := (gs_waits s)(x := None),
      gs_writes := gs_writes s \<union> given [x] (gs_waits s) True, gs_reads := gs_reads s \<union> given [x] (gs_waits s) False\<rparr>"
    by (cases "gs_waits s x") (auto simp: wake_def grant_def given_simps fun_upd_idem split: prod.splits)
  then show ?case by (simp add: Cons.IH cleared_simps given_simps Un_assoc fun_upd_def)
qed (simp add: cleared_simps given_simps)

lemma finish_eq:
  "finish p s = s\<lparr>gs_proc := p\<lparr>up_woken := []\<rparr>, gs_waits := cleared (up_woken p) (gs_waits s),
     gs_writes := gs_writes s \<union> given (up_woken p) (gs_waits s) True, gs_reads := gs_reads s \<union> given (up_woken p) (gs_waits s) False\<rparr>"
  by (simp add: finish_def fold_wake)

lemma finish_inv:
  "lock_inv L (finish p s) \<longleftrightarrow> pinv L p (cleared (up_woken p) (gs_waits s)) (gs_writes s \<union> given (up_woken p) (gs_waits s) True)
     (gs_reads s \<union> given (up_woken p) (gs_waits s) False)"
  by (simp add: finish_eq lock_inv_pinv)

end
