(* ===== verification/Lock_Safety.thy ===== *)
theory Lock_Safety
  imports Lock_Invariant
begin

text \<open>
  Each operation on locks and condition variables returns and keeps the invariant, so it holds in
  every state that a process can reach. Mutual exclusion, that no waiting thread is lost and that
  no assertion of the kernel fails follow; so does the one way in which a process halts the kernel.
\<close>

definition same_cvs :: "uproc \<Rightarrow> uproc \<Rightarrow> bool" where
  "same_cvs p p' \<longleftrightarrow> up_condvar p' = up_condvar p \<and> threads_of p' = threads_of p \<and> cv_lock_of p' = cv_lock_of p"

lemma pinvD:
  assumes "pinv L p waits W R"
  shows "lists_ok p" "vinv L (up_lock p) (writers_of p) (readers_of p) (count_of p) (up_condvar p) (threads_of p) (cv_lock_of p) waits W R"
  using assms by (simp_all add: pinv_def)

lemma writer_word:
  assumes inv: "vinv L lk ws rs n v q k waits W R" and t: "(t, l) \<in> W"
  shows "wr L (lk l)" "low (lk l) = t" "{u. (u, l) \<in> W} = {t}" "valid_tid t"
proof -
  from vinvD(1)[OF inv, of l] have ok: "word_ok L (lk l) {u. (u, l) \<in> W} {u. (u, l) \<in> R}" by (simp add: lock_ok_def)
  then show "wr L (lk l)" using t by (auto simp: word_ok_def split: if_splits)
  then have e: "{u. (u, l) \<in> W} = {low (lk l)}" using ok by (simp add: word_ok_def)
  moreover have "t \<in> {u. (u, l) \<in> W}" using t by simp
  ultimately show "low (lk l) = t" by simp
  with e show "{u. (u, l) \<in> W} = {t}" by simp
  show "valid_tid t" using vinvD(4)[OF inv, of t] t by blast
qed

lemma writer_entry:
  assumes inv: "vinv L lk ws rs n v q k waits W R" and w: "w \<in> set (ws l)"
  shows "wk_conditions w = [wk_tid w]"
  using vinvD(1)[OF inv, of l] w by (simp add: lock_ok_def)

lemma give_ok:
  assumes L: "lock_abi_ok L" and p: "pinv L p waits W R" and held: "{u. (u, l) \<in> W} = {t}"
    and i: "get_userland_lock_info l p = Some i" "lw_writers i = first # rest"
  shows "\<exists>p'. give_to_writer L l i first rest p = Some p' \<and> up_woken p' = up_woken p @ [wk_tid first] \<and>
    pinv L p' (waits(wk_tid first := None)) (insert (wk_tid first, l) (W - {(t, l)})) R \<and> same_cvs p p'"
proof -
  note ok = pinvD[OF p]
  note v = view_get_lock(1)[OF i(1)]
  let ?v = "LOCK_WRLOCKED L OR (wk_tid first AND lock_mask)"
  have ws: "writers_of p l = first # rest" using v i(2) by simp
  have c: "wk_conditions first = [wk_tid first]" using writer_entry[OF ok(2), of first l] ws by simp
  let ?i = "i\<lparr>lw_writers := rest\<rparr>"
  have g: "get_userland_lock_info (lw_lock ?i) p \<noteq> None" using i(1) v by simp
  have views: "writers_of (put_lock_info ?i p) = (writers_of p)(l := rest)" "readers_of (put_lock_info ?i p) = readers_of p"
    "count_of (put_lock_info ?i p) = count_of p"
    using view_put_lock[OF g] v by (auto simp: fun_eq_iff)
  show ?thesis
  proof (cases "rest = [] \<and> lw_number_of_readers i = 0")
    case True
    then have rs: "readers_of p l = []" "count_of p l = 0" using readers_bound(1)[OF ok(2), of l] v by auto
    have "vinv L ((up_lock p)(l := ?v)) ((writers_of p)(l := rest)) (readers_of p) (count_of p) (up_condvar p) (threads_of p) (cv_lock_of p)
       (waits(wk_tid first := None)) (insert (wk_tid first, l) (W - {(t, l)})) R"
      using True rs by (intro vinv_give[OF L ok(2) held ws]) (simp_all add: lock_word_simps[OF L])
    with True rs ok(1) c show ?thesis
      by (simp add: give_to_writer_def Let_def notify_one_def pinv_def same_cvs_def view_forget views[unfolded conjunct1[OF True]] fun_upd_idem)
  next
    case False
    have "vinv L ((up_lock p)(l := ?v OR LOCK_KERNEL_MANAGED L)) ((writers_of p)(l := rest)) (readers_of p) (count_of p) (up_condvar p) (threads_of p) (cv_lock_of p)
       (waits(wk_tid first := None)) (insert (wk_tid first, l) (W - {(t, l)})) R"
      by (intro vinv_give[OF L ok(2) held ws]) (simp_all add: lock_word_simps[OF L])
    with False ok(1) c show ?thesis
      by (auto simp: give_to_writer_def Let_def notify_one_def pinv_def same_cvs_def views)
  qed
qed

lemma given_readers:
  assumes inv: "vinv L lk ws rs n v q k waits W R"
  shows "given (rs l) waits True = {}" "given (rs l) waits False = (\<lambda>u. (u, l)) ` set (rs l)"
  using in_readers(1)[OF inv] by (auto simp: given_def)

lemma drop_ok:
  assumes L: "lock_abi_ok L" and p: "pinv L p waits W R" "up_woken p = []" and t: "(t, l) \<in> W"
  shows "\<exists>p'. drop_userspace_lock L t l p = Some p' \<and>
    pinv L p' (cleared (up_woken p') waits) ((W - {(t, l)}) \<union> given (up_woken p') waits True) (R \<union> given (up_woken p') waits False) \<and>
    same_cvs p p' \<and> None \<notin> waits ` set (up_woken p')"
proof -
  note ok = pinvD[OF p(1)]
  note w = writer_word[OF ok(2) t]
  have word: "up_lock p l AND LOCK_WRLOCKED L \<noteq> 0" "up_lock p l AND lock_mask = t"
    using w(1,2) by (simp_all add: wr_def low_def)
  note readers = vinv_readers[OF L ok(2) w(3)]
  note gr = given_readers[OF ok(2), of l]
  show ?thesis
  proof (cases "get_userland_lock_info l p")
    case None
    note v = view_get_lock(2)[OF None]
    from readers v have "vinv L ((up_lock p)(l := 0)) (writers_of p) (readers_of p) (count_of p) (up_condvar p) (threads_of p) (cv_lock_of p) waits (W - {(t, l)}) R"
      by (simp add: fun_upd_idem)
    with None word ok(1) p(2) show ?thesis
      by (auto simp: drop_userspace_lock_def pinv_def same_cvs_def cleared_simps given_simps)
  next
    case (Some i)
    note v = view_get_lock(1)[OF Some]
    show ?thesis
    proof (cases "lw_writers i")
      case Nil
      let ?p = "forget_userland_lock_info l ((set_lock l (lw_number_of_readers i) p)\<lparr>up_woken := up_woken p @ lw_read_signaler i\<rparr>)"
      have d: "drop_userspace_lock L t l p = Some ?p" using word Some Nil by (simp add: drop_userspace_lock_def)
      have wk: "up_woken ?p = readers_of p l" using p(2) v by simp
      have "pinv L ?p (cleared (readers_of p l) waits) (W - {(t, l)}) (R \<union> (\<lambda>u. (u, l)) ` set (readers_of p l))"
        using readers v Nil ok(1) by (simp add: pinv_def view_forget cleared_def fun_upd_idem)
      moreover have "None \<notin> waits ` set (readers_of p l)" using in_readers(1)[OF ok(2), of _ l] by fastforce
      moreover have "same_cvs p ?p" by (simp add: same_cvs_def)
      ultimately show ?thesis using d gr by (intro exI[of _ ?p]) (simp only: wk Un_empty_right simp_thms)
    next
      case (Cons first rest)
      let ?f = "wk_tid first"
      obtain p' where g: "give_to_writer L l i first rest p = Some p'" "up_woken p' = up_woken p @ [?f]"
        "pinv L p' (waits(?f := None)) (insert (?f, l) (W - {(t, l)})) R" "same_cvs p p'"
        using give_ok[OF L p(1) w(3) Some Cons] by blast
      have "?f \<in> tids (writers_of p l)" using v Cons by simp
      from in_writers(1)[OF ok(2) this] obtain c where c: "waits ?f = Some (l, True, c)" by blast
      have "drop_userspace_lock L t l p = Some p'" using word Some Cons g(1) by (simp add: drop_userspace_lock_def)
      moreover have "up_woken p' = [?f]" using g(2) p(2) by simp
      ultimately show ?thesis using g(3,4) c by (simp add: cleared_simps given_simps)
    qed
  qed
qed

lemma subscribe_other: "t \<notin> tids ws \<Longrightarrow> subscribe t ws = ws"
  unfolding subscribe_def by (rule map_idI) auto

lemma subscribe_new: "t \<notin> tids ws \<Longrightarrow> subscribe t (ws @ [\<lparr>wk_tid = t, wk_conditions = []\<rparr>]) = ws @ [\<lparr>wk_tid = t, wk_conditions = [t]\<rparr>]"
  using subscribe_other[of t ws] by (simp add: subscribe_def)

lemma acquire_word:
  assumes L: "lock_abi_ok L" and p: "pinv L p waits W R" and t: "valid_tid t" "(t, l) \<notin> R"
    and now: "acquisition_userspace_lock_signaler L t l write p = (None, p')"
  shows "pinv L p' waits (if write then insert (t, l) W else W) (if write then R else insert (t, l) R) \<and> up_woken p' = up_woken p"
proof (cases "low (up_lock p l) = 0")
  case True
  with now have "p' = set_lock l (if write then LOCK_WRLOCKED L OR (t AND lock_mask) else 1) p"
    by (simp add: acquisition_userspace_lock_signaler_def low_def)
  with vinv_take_write[OF L pinvD(2)[OF p] True t(1)] vinv_take_read[OF L pinvD(2)[OF p] True t(1)] pinvD(1)[OF p]
  show ?thesis by (simp add: pinv_def)
next
  case False
  then have n: "up_lock p l AND lock_mask \<noteq> 0" by (simp add: low_def)
  with now have "p' = set_lock l (up_lock p l + 1) p" "\<not> wr L (up_lock p l)" "\<not> write"
    by (auto simp: acquisition_userspace_lock_signaler_def Let_def wr_def split: if_splits prod.splits)
  with vinv_add_read[OF L pinvD(2)[OF p] False _ t] pinvD(1)[OF p] show ?thesis by (simp add: pinv_def)
qed

lemma acquire_wait:
  assumes L: "lock_abi_ok L" and p: "pinv L p waits W R" and t: "valid_tid t" "waits t = None"
    and later: "acquisition_userspace_lock_signaler L t l write p = (Some sig, p')"
  shows "\<exists>p''. poll_lock L t l write p = Some (False, p'') \<and> pinv L p'' (waits(t \<mapsto> (l, write, None))) W R \<and> up_woken p'' = up_woken p"
proof -
  note ok = pinvD[OF p]
  have held: "low (up_lock p l) \<noteq> 0"
    using later by (auto simp: acquisition_userspace_lock_signaler_def low_def split: if_splits)
  define p1 where "p1 = set_lock l (up_lock p l OR LOCK_KERNEL_MANAGED L) p"
  obtain i p2 where c: "get_or_create_userland_lock_info l p1 = (i, p2)" by fastforce
  note g = get_or_create_lock[OF c]
  note vc = view_create_lock[OF c]
  have ok2: "lists_ok p2" using g ok(1) by (simp add: p1_def)
  have i: "lw_writers i = writers_of p l" "lw_read_signaler i = readers_of p l" "lw_number_of_readers i = count_of p l" "lw_lock i = l"
    "get_userland_lock_info l p2 = Some i" "up_woken p2 = up_woken p" "up_condvar p2 = up_condvar p"
    "up_lock p2 = (up_lock p)(l := up_lock p l OR LOCK_KERNEL_MANAGED L)"
    using g by (simp_all add: p1_def)
  have r: "sig = (if write then SIG_WRITER else SIG_READERS)"
    "p' = (if write then put_lock_info (i\<lparr>lw_writers := lw_writers i @ [\<lparr>wk_tid = t, wk_conditions = []\<rparr>]\<rparr>) p2
           else put_lock_info (i\<lparr>lw_number_of_readers := lw_number_of_readers i + 1\<rparr>) p2)"
    using later c by (auto simp: acquisition_userspace_lock_signaler_def Let_def p1_def split: if_splits)
  have put: "get_userland_lock_info l (put_lock_info j p2) = Some j" if "lw_lock j = l" for j
    using that i by (simp add: get_put_lock_info)
  note nq = not_queued[OF ok(2) t(2)]
  show ?thesis
  proof (cases "write")
    case True
    let ?j = "i\<lparr>lw_writers := lw_writers i @ [\<lparr>wk_tid = t, wk_conditions = []\<rparr>]\<rparr>"
    let ?k = "?j\<lparr>lw_writers := writers_of p l @ [\<lparr>wk_tid = t, wk_conditions = [t]\<rparr>]\<rparr>"
    have "poll_lock L t l write p = Some (False, put_lock_info ?k (put_lock_info ?j p2))"
      using later r True put[of ?j] i subscribe_new[OF nq(1), of l] by (simp add: poll_lock_def)
    moreover have "pinv L (put_lock_info ?k (put_lock_info ?j p2)) (waits(t \<mapsto> (l, True, None))) W R"
      using vinv_enqueue_writer[OF L ok(2) held t] ok2 i put[of ?j] vc
      by (simp add: pinv_def view_put_lock p1_def fun_upd_idem)
    ultimately show ?thesis using True i(6) by simp
  next
    case False
    let ?j = "i\<lparr>lw_number_of_readers := lw_number_of_readers i + 1\<rparr>"
    let ?k = "?j\<lparr>lw_read_signaler := readers_of p l @ [t]\<rparr>"
    have "poll_lock L t l write p = Some (False, put_lock_info ?k (put_lock_info ?j p2))"
      using later r False put[of ?j] i by (simp add: poll_lock_def)
    moreover have "pinv L (put_lock_info ?k (put_lock_info ?j p2)) (waits(t \<mapsto> (l, False, None))) W R"
      using vinv_enqueue_reader[OF L ok(2) held t] ok2 i put[of ?j] vc
      by (simp add: pinv_def view_put_lock p1_def fun_upd_idem)
    ultimately show ?thesis using False i(6) by simp
  qed
qed

lemma poll_lock_ok:
  assumes L: "lock_abi_ok L" and p: "pinv L p waits W R" and t: "valid_tid t" "waits t = None" "(t, l) \<notin> R"
  shows "\<exists>got p'. poll_lock L t l write p = Some (got, p') \<and> up_woken p' = up_woken p \<and>
    (if got then pinv L p' waits (if write then insert (t, l) W else W) (if write then R else insert (t, l) R)
     else pinv L p' (waits(t \<mapsto> (l, write, None))) W R)"
proof (cases "acquisition_userspace_lock_signaler L t l write p")
  case (Pair sig p')
  show ?thesis
  proof (cases sig)
    case None
    with acquire_word[OF L p t(1,3), of "write" p'] Pair show ?thesis
      by (intro exI[of _ True] exI[of _ p']) (simp add: poll_lock_def)
  next
    case (Some x)
    with acquire_wait[OF L p t(1,2), of l "write" x p'] Pair obtain p'' where
      "poll_lock L t l write p = Some (False, p'')" "pinv L p'' (waits(t \<mapsto> (l, write, None))) W R" "up_woken p'' = up_woken p" by blast
    then show ?thesis by (intro exI[of _ False] exI[of _ p'']) simp
  qed
qed

lemma leave_read_ok:
  assumes L: "lock_abi_ok L" and p: "pinv L p waits W R" "up_woken p = []" and t: "(t, l) \<in> R"
  shows "\<exists>p'. leave_read L t l p = Some p' \<and>
    pinv L p' (cleared (up_woken p') waits) (W \<union> given (up_woken p') waits True) ((R - {(t, l)}) \<union> given (up_woken p') waits False)"
proof (cases "low (up_lock p l) > 1")
  case True
  with vinv_leave[OF L pinvD(2)[OF p(1)] t] pinvD(1)[OF p(1)] p(2) show ?thesis
    by (simp add: leave_read_def low_def pinv_def cleared_simps given_simps)
next
  case False
  note c = vinv_convert[OF L pinvD(2)[OF p(1)] t False]
  let ?q = "set_lock l ((up_lock p l AND LOCK_KERNEL_MANAGED L) OR LOCK_WRLOCKED L OR t) p"
  have q: "pinv L ?q waits (insert (t, l) W) (R - {(t, l)})" "up_woken ?q = []" using c(1) pinvD(1)[OF p(1)] p(2) by (simp_all add: pinv_def)
  from drop_ok[OF L q, of t l] c(2) False show ?thesis by (auto simp: leave_read_def low_def)
qed

text \<open>Leaving a queue and coming back.\<close>

lemma filter_unsubscribe:
  "(\<And>w. w \<in> set ws \<Longrightarrow> wk_conditions w = [wk_tid w]) \<Longrightarrow>
   filter (\<lambda>w. wk_tid w \<noteq> t) (unsubscribe t ws) = filter (\<lambda>w. wk_tid w \<noteq> t) ws"
  unfolding unsubscribe_def by (induction ws) auto

lemma unsubscribe_other: "(\<And>w. w \<in> set ws \<Longrightarrow> wk_conditions w = [wk_tid w]) \<Longrightarrow> t \<notin> tids ws \<Longrightarrow> unsubscribe t ws = ws"
  unfolding unsubscribe_def by (rule map_idI) auto

lemma subscribe_unsubscribe: "(\<And>w. w \<in> set ws \<Longrightarrow> wk_conditions w = [wk_tid w]) \<Longrightarrow> subscribe t (unsubscribe t ws) = ws"
  unfolding subscribe_def unsubscribe_def by (induction ws) auto

lemma count_unsubscribe: "length (filter (\<lambda>w. wk_tid w = t) (unsubscribe t ws)) = length (filter (\<lambda>w. wk_tid w = t) ws)"
  unfolding unsubscribe_def by (induction ws) auto

lemma count_tid:
  "distinct (map wk_tid ws) \<Longrightarrow> length (filter (\<lambda>w. wk_tid w = t) ws) = (if t \<in> tids ws then 1 else 0)"
  by (induction ws) auto

lemma entries:
  assumes inv: "vinv L lk ws rs n v q k waits W R"
  shows "w \<in> set (ws l) \<Longrightarrow> wk_conditions w = [wk_tid w]" "distinct (map wk_tid (ws l))"
    "w \<in> set (q c) \<Longrightarrow> wk_conditions w = [wk_tid w]" "distinct (map wk_tid (q c))"
  using vinvD(1)[OF inv, of l] vinvD(2)[OF inv, of c] by (simp_all add: lock_ok_def cv_ok_def)

lemma timeout_ok:
  assumes p: "pinv L p waits W R" and t: "waits t = Some (l, write, None)"
  shows "\<exists>p'. poll_lock_timeout t l write p = Some p' \<and> pinv L p' (waits(t := None)) W R \<and> up_woken p' = up_woken p"
proof -
  note ok = pinvD[OF p]
  note placed = vinvD(3)[OF ok(2) t]
  have "writers_of p l \<noteq> [] \<or> readers_of p l \<noteq> []" using placed by (auto simp: placed_def split: if_splits)
  then obtain i where i: "get_userland_lock_info l p = Some i" using view_get_lock(2)[of l p] by (cases "get_userland_lock_info l p") auto
  note v = view_get_lock(1)[OF i]
  have put: "get_userland_lock_info l (put_lock_info j p) = Some j" if "lw_lock j = l" for j
    using that i by (simp add: get_put_lock_info)
  show ?thesis
  proof (cases "write")
    case True
    then have m: "t \<in> tids (writers_of p l)" using placed by (simp add: placed_def)
    let ?j = "i\<lparr>lw_writers := unsubscribe t (lw_writers i)\<rparr>"
    let ?k = "?j\<lparr>lw_writers := filter (\<lambda>w. wk_tid w \<noteq> t) (writers_of p l)\<rparr>"
    have "poll_lock_timeout t l write p = Some (put_lock_info ?k (put_lock_info ?j p))"
      using True i put[of ?j] v m entries(1)[OF ok(2), where l = l] entries(2)[OF ok(2), where l = l] filter_unsubscribe[of "lw_writers i" t] count_tid[of "writers_of p l" t]
      by (simp add: poll_lock_timeout_def cancel_userspace_lock_def count_unsubscribe)
    moreover have "pinv L (put_lock_info ?k (put_lock_info ?j p)) (waits(t := None)) W R"
      using vinv_leave_writers[OF ok(2) _ m] t True ok(1) i v put[of ?j] by (simp add: pinv_def view_put_lock fun_upd_idem)
    ultimately show ?thesis by simp
  next
    case False
    with t have "waits t = Some (l, False, None)" by simp
    note r = vinv_leave_readers[OF ok(2) this]
    let ?j = "i\<lparr>lw_read_signaler := remove1 t (lw_read_signaler i)\<rparr>"
    let ?k = "?j\<lparr>lw_number_of_readers := lw_number_of_readers i - 1\<rparr>"
    have "poll_lock_timeout t l write p = Some (put_lock_info ?k (put_lock_info ?j p))"
      using False i put[of ?j] v r(2) by (simp add: poll_lock_timeout_def cancel_userspace_lock_def)
    moreover have "pinv L (put_lock_info ?k (put_lock_info ?j p)) (waits(t := None)) W R"
      using r(1) ok(1) i v put[of ?j] by (simp add: pinv_def view_put_lock fun_upd_idem)
    ultimately show ?thesis by simp
  qed
qed

lemma vinv_new_cv:
  assumes inv: "vinv L lk ws rs n v q k waits W R" and "k c = None"
  shows "vinv L lk ws rs n v q (k(c \<mapsto> l)) waits W R"
proof -
  have q: "q c = []" using vinvD(2)[OF inv, of c] assms(2) by (cases "q c") (auto simp: cv_ok_def)
  have "cv_ok L waits ws d (v d) (q d) ((k(c \<mapsto> l)) d)" for d
    using vinvD(2)[OF inv, of d] q by (auto simp: cv_ok_def)
  moreover have "placed ws rs q (k(c \<mapsto> l)) t i w d" if "waits t = Some (i, w, d)" for t i w d
    using vinvD(3)[OF inv that] assms(2) by (auto simp: placed_def)
  ultimately show ?thesis using inv unfolding vinv_def by blast
qed

lemma vinv_km:
  assumes L: "lock_abi_ok L" and inv: "vinv L lk ws rs n v q k waits W R"
  shows "vinv L (lk(l := lk l OR LOCK_KERNEL_MANAGED L)) ws rs n v q k waits W R"
proof (rule vinv_word[OF inv])
  show "lock_ok L waits l (lk l OR LOCK_KERNEL_MANAGED L) (ws l) (rs l) (n l) {t. (t, l) \<in> W} {t. (t, l) \<in> R}"
    using vinvD(1)[OF inv, of l] by (simp add: lock_ok_def word_ok_def lock_word_simps[OF L])
next
  fix u assume "(u, l) \<in> W \<union> R"
  then show "valid_tid u" using vinvD(4)[OF inv, of u] by blast
qed simp

lemma get_cv_views:
  "get_userland_condvar_cv c p = Some i \<Longrightarrow> cw_condvar i = c \<and> threads_of p c = cw_threads i \<and> cv_lock_of p c = Some (cw_lock i)"
  "get_userland_condvar_cv c p = None \<Longrightarrow> threads_of p c = [] \<and> cv_lock_of p c = None"
  by (auto simp: threads_of_def cv_lock_of_def dest: get_condvar_key)

lemma view_create_cv:
  assumes "get_or_create_userland_condvar_cv c l p = (i, q)"
  shows "writers_of q = writers_of p" "readers_of q = readers_of p" "count_of q = count_of p" "threads_of q = threads_of p"
    "cv_lock_of q = (if cv_lock_of p c = None then (cv_lock_of p)(c \<mapsto> l) else cv_lock_of p)" "cw_threads i = threads_of p c"
    "cw_condvar i = c" "get_userland_condvar_cv c q = Some i" "up_lock q = up_lock p" "up_condvar q = up_condvar p"
    "up_woken q = up_woken p" "lists_ok p \<Longrightarrow> lists_ok q"
proof -
  note g = get_or_create_condvar[OF assms]
  have lk: "get_userland_lock_info k q = get_userland_lock_info k p" for k using get_or_create_condvar[OF assms, where k = k] by simp
  show "writers_of q = writers_of p" "readers_of q = readers_of p" "count_of q = count_of p"
    by (simp_all add: writers_of_def readers_of_def count_of_def lk fun_eq_iff)
  have cv: "get_userland_condvar_cv d q = (if d = c then Some i else get_userland_condvar_cv d p)" for d
    using get_or_create_condvar[OF assms, where d = d] by auto
  show "cw_threads i = threads_of p c" "cw_condvar i = c" "get_userland_condvar_cv c q = Some i" "up_lock q = up_lock p" "up_condvar q = up_condvar p"
    "up_woken q = up_woken p" "lists_ok p \<Longrightarrow> lists_ok q" using g by simp_all
  then show "threads_of q = threads_of p" by (auto simp: threads_of_def[of q] cv fun_eq_iff) (simp add: threads_of_def)
  have "cw_lock i = (case get_userland_condvar_cv c p of None \<Rightarrow> l | Some j \<Rightarrow> cw_lock j)"
    using assms by (auto simp: get_or_create_userland_condvar_cv_def Let_def split: option.splits)
  then show "cv_lock_of q = (if cv_lock_of p c = None then (cv_lock_of p)(c \<mapsto> l) else cv_lock_of p)"
    by (auto simp: cv_lock_of_def cv fun_eq_iff split: option.splits)
qed

lemma woken_upd:
  assumes "t \<notin> set xs"
  shows "cleared xs (waits(t \<mapsto> x)) = (cleared xs waits)(t \<mapsto> x)" "given xs (waits(t \<mapsto> x)) w = given xs waits w"
  using assms by (auto simp: cleared_def given_def fun_eq_iff split: if_splits)

lemma poll_condvar_ok:
  assumes L: "lock_abi_ok L" and p: "pinv L p waits W R" "up_woken p = []" and t: "(t, l) \<in> W" "waits t = None"
    and same: "\<forall>u i w. waits u = Some (i, w, Some c) \<longrightarrow> i = l" and new: "waits' = waits(t \<mapsto> (l, True, Some c))"
  shows "\<exists>p'. poll_condvar L t l c p = Some p' \<and>
    pinv L p' (cleared (up_woken p') waits') ((W - {(t, l)}) \<union> given (up_woken p') waits' True) (R \<union> given (up_woken p') waits' False)"
proof -
  note ok = pinvD[OF p(1)]
  obtain i p1 where c: "get_or_create_userland_condvar_cv c l p = (i, p1)" by fastforce
  note vc = view_create_cv[OF c]
  have ok1: "lists_ok p1" using vc(12) ok(1) .
  have p1: "pinv L p1 waits W R" "up_woken p1 = []"
    using ok1 vc ok(2) vinv_new_cv[OF ok(2), of c l] p(2) by (simp_all add: pinv_def)
  from drop_ok[OF L p1 t(1)] obtain p2 where d: "drop_userspace_lock L t l p1 = Some p2"
    "pinv L p2 (cleared (up_woken p2) waits) ((W - {(t, l)}) \<union> given (up_woken p2) waits True) (R \<union> given (up_woken p2) waits False)"
    "same_cvs p1 p2" "None \<notin> waits ` set (up_woken p2)" by blast
  note ok2 = pinvD[OF d(2)]
  have tw: "t \<notin> set (up_woken p2)" using d(4) t(2) by (metis imageI)
  have cv: "threads_of p2 = threads_of p" "up_condvar p2 = up_condvar p" using d(3) vc by (simp_all add: same_cvs_def)
  have valid: "valid_tid t" by (rule writer_word(4)[OF ok(2) t(1)])
  have tn: "cleared (up_woken p2) waits t = None" using t(2) by (simp add: cleared_def)
  have nq: "t \<notin> tids (threads_of p c)" using not_queued(3)[OF ok2(2) tn, of c] cv by simp
  have get2: "get_userland_condvar_cv c p2 \<noteq> None"
    using d(3) vc(8) get_cv_views(2)[of c p2] get_cv_views(1)[OF vc(8)] by (auto simp: same_cvs_def)
  define j where "j = i\<lparr>cw_lock := l, cw_threads := threads_of p c @ [\<lparr>wk_tid = t, wk_conditions = []\<rparr>]\<rparr>"
  define k where "k = j\<lparr>cw_threads := threads_of p c @ [\<lparr>wk_tid = t, wk_conditions = [t]\<rparr>]\<rparr>"
  define p3 where "p3 = put_condvar_cv j (set_condvar c 1 p2)"
  have ij: "(if cw_lock i \<noteq> l then i\<lparr>cw_lock := l\<rparr> else i) = i\<lparr>cw_lock := l\<rparr>" by simp
  have w: "wait_userspace_cv_signaler L t l c p = Some p3"
    unfolding wait_userspace_cv_signaler_def c Let_def prod.case ij using d(1) vc(6) by (simp add: p3_def j_def)
  have keys: "cw_condvar j = c" "cw_condvar k = c" "cw_lock k = l" "cw_threads k = threads_of p c @ [\<lparr>wk_tid = t, wk_conditions = [t]\<rparr>]"
    using vc(7) by (simp_all add: j_def k_def)
  have g3: "get_userland_condvar_cv c p3 = Some j" using get2 keys by (simp add: p3_def get_put_condvar_cv)
  have poll: "poll_condvar L t l c p = Some (put_condvar_cv k p3)"
    using w g3 subscribe_new[OF nq] by (simp add: poll_condvar_def k_def j_def)
  have v3: "threads_of (put_condvar_cv k p3) = (threads_of p2)(c := threads_of p c @ [\<lparr>wk_tid = t, wk_conditions = [t]\<rparr>])"
    "cv_lock_of (put_condvar_cv k p3) = (cv_lock_of p2)(c \<mapsto> l)"
    using view_put_condvar[of k p3] view_put_condvar[of j "set_condvar c 1 p2"] g3 get2 keys by (simp_all add: p3_def)
  have "vinv L (up_lock p2) (writers_of p2) (readers_of p2) (count_of p2) ((up_condvar p2)(c := 1))
     ((threads_of p2)(c := threads_of p2 c @ [\<lparr>wk_tid = t, wk_conditions = [t]\<rparr>])) ((cv_lock_of p2)(c \<mapsto> l))
     ((cleared (up_woken p2) waits)(t \<mapsto> (l, True, Some c))) ((W - {(t, l)}) \<union> given (up_woken p2) waits True) (R \<union> given (up_woken p2) waits False)"
    by (rule vinv_cv_wait[OF L ok2(2) valid tn]) (use same in \<open>auto simp: cleared_def split: if_splits\<close>)
  then have "pinv L (put_condvar_cv k p3) (cleared (up_woken p2) waits') ((W - {(t, l)}) \<union> given (up_woken p2) waits' True) (R \<union> given (up_woken p2) waits' False)"
    using ok2(1) v3 cv by (simp add: pinv_def woken_upd[OF tw] new p3_def)
  with poll show ?thesis by (simp add: p3_def)
qed

lemma move_waiters_eq: "move_waiters n cv ws = (drop n cv, ws @ take n cv)"
  by (induction n cv ws rule: move_waiters.induct) auto

lemma set_lock_twice [simp]: "set_lock l x (set_lock l y p) = set_lock l x p"
  by (simp add: set_lock_def)

lemma give_set_lock: "give_to_writer L l i first rest (set_lock l x p) = give_to_writer L l i first rest p"
proof -
  have e: "put_lock_info j (set_lock l x p) = set_lock l x (put_lock_info j p)" for j by (simp add: set_lock_def put_lock_info_def)
  show ?thesis unfolding give_to_writer_def Let_def e set_lock_twice ..
qed

text \<open>The state of a signal after the waiters have been moved.\<close>

lemma signal_moved:
  assumes p: "lists_ok p" and cv: "get_userland_condvar_cv c p = Some cv" "cw_lock cv = l"
    and c: "get_or_create_userland_lock_info l (set_lock l x p) = (i, p2)"
    and p5: "p5 = (let p4 = put_lock_info (i\<lparr>lw_writers := ws\<rparr>) (put_condvar_cv (cv\<lparr>cw_threads := q\<rparr>) p2)
                   in if q = [] then set_condvar c y p4 else p4)"
  shows "lists_ok p5" "up_woken p5 = up_woken p" "up_lock p5 = (up_lock p)(l := x)" "up_condvar p5 = (if q = [] then (up_condvar p)(c := y) else up_condvar p)"
    "writers_of p5 = (writers_of p)(l := ws)" "readers_of p5 = readers_of p" "count_of p5 = count_of p"
    "threads_of p5 = (threads_of p)(c := q)" "cv_lock_of p5 = cv_lock_of p" "get_userland_lock_info l p5 = Some (i\<lparr>lw_writers := ws\<rparr>)"
    "lw_writers i = writers_of p l"
proof -
  note g = get_or_create_lock[OF c]
  note vc = view_create_lock[OF c]
  define p4 where p4: "p4 = put_lock_info (i\<lparr>lw_writers := ws\<rparr>) (put_condvar_cv (cv\<lparr>cw_threads := q\<rparr>) p2)"
  have e: "p5 = (if q = [] then set_condvar c y p4 else p4)" by (simp only: p5 p4 Let_def)
  have lk: "get_userland_lock_info (lw_lock (i\<lparr>lw_writers := ws\<rparr>)) (put_condvar_cv (cv\<lparr>cw_threads := q\<rparr>) p2) \<noteq> None" using g by simp
  have key: "cw_condvar cv = c" using get_cv_views(1)[OF cv(1)] by simp
  have gc: "get_userland_condvar_cv c p2 = Some cv" using get_or_create_lock[OF c, where c = c] cv(1) by simp
  then have cvk: "get_userland_condvar_cv (cw_condvar (cv\<lparr>cw_threads := q\<rparr>)) p2 \<noteq> None" using key by simp
  have i: "lw_lock i = l" "lw_read_signaler i = readers_of p l" "lw_number_of_readers i = count_of p l" using g by simp_all
  show "lw_writers i = writers_of p l" using g by simp
  have "lists_ok p4" "up_woken p4 = up_woken p" "up_lock p4 = (up_lock p)(l := x)" "up_condvar p4 = up_condvar p"
    using g p by (simp_all add: p4)
  then show "lists_ok p5" "up_woken p5 = up_woken p" "up_lock p5 = (up_lock p)(l := x)"
    "up_condvar p5 = (if q = [] then (up_condvar p)(c := y) else up_condvar p)" by (simp_all add: e)
  have "writers_of p4 = (writers_of p)(l := ws)" "readers_of p4 = readers_of p" "count_of p4 = count_of p"
    using view_put_lock[OF lk] i vc by (simp_all add: p4 fun_upd_idem)
  then show "writers_of p5 = (writers_of p)(l := ws)" "readers_of p5 = readers_of p" "count_of p5 = count_of p" by (simp_all add: e)
  have "threads_of p4 = (threads_of p)(c := q)" "cv_lock_of p4 = cv_lock_of p"
    using view_put_condvar[OF cvk] key vc get_cv_views(1)[OF cv(1)] by (simp_all add: p4 fun_upd_idem)
  then show "threads_of p5 = (threads_of p)(c := q)" "cv_lock_of p5 = cv_lock_of p" by (simp_all add: e)
  have "get_userland_lock_info l p4 = Some (i\<lparr>lw_writers := ws\<rparr>)" using g by (simp add: p4 get_put_lock_info)
  then show "get_userland_lock_info l p5 = Some (i\<lparr>lw_writers := ws\<rparr>)" by (simp add: e)
qed

lemma signal_ok:
  assumes L: "lock_abi_ok L" and p: "pinv L p waits W R" "up_woken p = []" and c: "up_condvar p c \<noteq> CONDVAR_HAS_NO_WAITERS L"
  shows "\<exists>p'. signal_userspace_cv L c nw p = Some p' \<and>
    pinv L p' (cleared (up_woken p') waits) (W \<union> given (up_woken p') waits True) (R \<union> given (up_woken p') waits False)"
proof -
  note ok = pinvD[OF p(1)]
  have ne: "threads_of p c \<noteq> []" using vinvD(2)[OF ok(2), of c] c by (simp add: cv_ok_def)
  then obtain cv where cv: "get_userland_condvar_cv c p = Some cv" using get_cv_views(2)[of c p] by (cases "get_userland_condvar_cv c p") auto
  note g = get_cv_views(1)[OF cv]
  define l where "l = cw_lock cv"
  let ?x = "up_lock p l OR LOCK_KERNEL_MANAGED L"
  obtain i p2 where cr: "get_or_create_userland_lock_info l (set_lock l ?x p) = (i, p2)" by fastforce
  let ?m = "unat nw"
  let ?q = "drop ?m (threads_of p c)"
  let ?ws = "writers_of p l @ take ?m (threads_of p c)"
  let ?i = "i\<lparr>lw_writers := ?ws\<rparr>"
  define p5 where "p5 = (let p4 = put_lock_info ?i (put_condvar_cv (cv\<lparr>cw_threads := ?q\<rparr>) p2)
     in if ?q = [] then set_condvar c (CONDVAR_HAS_NO_WAITERS L) p4 else p4)"
  note m = signal_moved[OF ok(1) cv l_def[symmetric] cr p5_def]
  have k: "cv_lock_of p c = Some l" using g l_def by simp
  have s: "signal_userspace_cv L c nw p =
     (if low (up_lock p l) = 0 then (case ?ws of [] \<Rightarrow> Some p5 | first # rest \<Rightarrow> give_to_writer L l ?i first rest p5) else Some p5)"
  proof -
    have x: "low (up_lock p5 l) = low (up_lock p l)" using lock_word_simps(6)[OF L] m(3) by simp
    have th: "cw_threads cv = threads_of p c" using g by simp
    have ka: "kassert (up_condvar p c \<noteq> CONDVAR_HAS_NO_WAITERS L) = Some ()" using c by (simp add: kassert_def)
    have "signal_userspace_cv L c nw p =
      (if low (up_lock p5 l) = 0 then (case ?ws of [] \<Rightarrow> Some p5 | first # rest \<Rightarrow> give_to_writer L l ?i first rest p5) else Some p5)"
      unfolding signal_userspace_cv_def cv option.case ka bind.bind_lunit Let_def l_def[symmetric] cr prod.case th m(11) move_waiters_eq
        p5_def low_def by (rule refl)
    then show ?thesis unfolding x .
  qed
  show ?thesis
  proof (cases "low (up_lock p l) = 0")
    case False
    from vinv_signal[OF L ok(2) False k, of ?m] m have "pinv L p5 waits W R" by (simp add: pinv_def)
    with s False m(2) p(2) show ?thesis by (simp add: cleared_simps given_simps)
  next
    case True
    note free = free_lock[OF ok(2) True]
    show ?thesis
    proof (cases "take ?m (threads_of p c)")
      case Nil
      then have "?m = 0" using ne by simp
      then have "pinv L p5 waits W R" using vinv_km[OF L ok(2), of l] m ne by (simp add: pinv_def fun_upd_idem)
      with s True Nil free(1) m(2) p(2) show ?thesis by (simp add: cleared_simps given_simps)
    next
      case (Cons first rest)
      let ?f = "wk_tid first"
      have "first \<in> set (take ?m (threads_of p c))" using Cons by simp
      then have "first \<in> set (threads_of p c)" by (rule in_set_takeD)
      then have fq: "?f \<in> tids (threads_of p c)" by simp
      from in_condvar[OF ok(2) fq] k have w: "waits ?f = Some (l, True, Some c)" and valid: "valid_tid ?f" by auto
      have nW: "(?f, l) \<notin> W" using free(4) by blast
      let ?y = "LOCK_WRLOCKED L OR (?f AND lock_mask)"
      note t = vinv_take_write[OF L ok(2) True valid]
      have "low ?y \<noteq> 0" using lock_word_simps(1)[OF L, of ?f] valid_tid_not_0[OF valid] by simp
      with vinv_signal[OF L t, of l c ?m] k m have p6: "pinv L (set_lock l (?y OR LOCK_KERNEL_MANAGED L) p5) waits (insert (?f, l) W) R"
        by (simp add: pinv_def)
      have held: "{u. (u, l) \<in> insert (?f, l) W} = {?f}" using free(4) by auto
      from give_ok[OF L p6 held, of ?i first rest] m(10) free(1) Cons obtain p' where
        "give_to_writer L l ?i first rest p5 = Some p'" "up_woken p' = [?f]" "pinv L p' (waits(?f := None)) (insert (?f, l) W) R"
        using m(2) p(2) nW by (auto simp: give_set_lock)
      with s True Cons free(1) w show ?thesis by (simp add: cleared_simps given_simps)
    qed
  qed
qed

lemma unsubscribe_cv_views:
  assumes "get_userland_condvar_cv c p = Some i"
  shows "threads_of (unsubscribe_cv t c p) = (threads_of p)(c := unsubscribe t (threads_of p c))" "cv_lock_of (unsubscribe_cv t c p) = cv_lock_of p"
    "writers_of (unsubscribe_cv t c p) = writers_of p" "readers_of (unsubscribe_cv t c p) = readers_of p" "count_of (unsubscribe_cv t c p) = count_of p"
    "up_lock (unsubscribe_cv t c p) = up_lock p" "up_condvar (unsubscribe_cv t c p) = up_condvar p" "up_woken (unsubscribe_cv t c p) = up_woken p"
    "lists_ok (unsubscribe_cv t c p) = lists_ok p"
proof -
  note g = get_cv_views(1)[OF assms]
  have "get_userland_condvar_cv (cw_condvar (i\<lparr>cw_threads := unsubscribe t (cw_threads i)\<rparr>)) p \<noteq> None" using assms g by simp
  from view_put_condvar[OF this] g
  show "threads_of (unsubscribe_cv t c p) = (threads_of p)(c := unsubscribe t (threads_of p c))" "cv_lock_of (unsubscribe_cv t c p) = cv_lock_of p"
    using assms by (simp_all add: unsubscribe_cv_def fun_upd_idem)
qed (use assms in \<open>simp_all add: unsubscribe_cv_def\<close>)

lemma unsubscribe_lock_views:
  shows "writers_of (unsubscribe_lock t l p) = (writers_of p)(l := unsubscribe t (writers_of p l))" "readers_of (unsubscribe_lock t l p) = readers_of p"
    "count_of (unsubscribe_lock t l p) = count_of p" "threads_of (unsubscribe_lock t l p) = threads_of p" "cv_lock_of (unsubscribe_lock t l p) = cv_lock_of p"
    "up_lock (unsubscribe_lock t l p) = up_lock p" "up_condvar (unsubscribe_lock t l p) = up_condvar p" "up_woken (unsubscribe_lock t l p) = up_woken p"
    "lists_ok (unsubscribe_lock t l p) = lists_ok p" "get_userland_condvar_cv d (unsubscribe_lock t l p) = get_userland_condvar_cv d p"
proof -
  have "writers_of (unsubscribe_lock t l p) = (writers_of p)(l := unsubscribe t (writers_of p l)) \<and>
    readers_of (unsubscribe_lock t l p) = readers_of p \<and> count_of (unsubscribe_lock t l p) = count_of p"
  proof (cases "get_userland_lock_info l p")
    case None
    then show ?thesis using view_get_lock(2)[OF None] by (simp add: unsubscribe_lock_def unsubscribe_def fun_upd_idem)
  next
    case (Some i)
    note v = view_get_lock(1)[OF Some]
    have "get_userland_lock_info (lw_lock (i\<lparr>lw_writers := unsubscribe t (lw_writers i)\<rparr>)) p \<noteq> None" using Some v by simp
    from view_put_lock[OF this] v Some show ?thesis by (simp add: unsubscribe_lock_def fun_upd_idem)
  qed
  then show "writers_of (unsubscribe_lock t l p) = (writers_of p)(l := unsubscribe t (writers_of p l))"
    "readers_of (unsubscribe_lock t l p) = readers_of p" "count_of (unsubscribe_lock t l p) = count_of p" by simp_all
qed (simp_all add: unsubscribe_lock_def split: option.split)

text \<open>The state of a cancelled wait before it looks at the lock.\<close>

lemma cancel_left:
  fixes t :: tid
  assumes p: "pinv L p waits W R" and k: "cv_lock_of p c = Some l"
  defines "q \<equiv> filter (\<lambda>w. wk_tid w \<noteq> t) (threads_of p c)"
  defines "ws \<equiv> unsubscribe t (writers_of p l)"
  shows "\<exists>p2. poll_condvar_timeout L t l c p =
     (if low (up_lock p l) = 0 then Some (True, set_lock l (LOCK_WRLOCKED L OR (t AND lock_mask)) p2)
      else do {
        let (j, p3) = get_or_create_userland_lock_info l (set_lock l (up_lock p l OR LOCK_KERNEL_MANAGED L) p2);
        let ws' = (if t \<in> tids (threads_of p c) then ws @ [\<lparr>wk_tid = t, wk_conditions = []\<rparr>] else ws);
        kassert (length (filter (\<lambda>w. wk_tid w = t) ws') = 1);
        Some (False, put_lock_info (j\<lparr>lw_writers := subscribe t ws'\<rparr>) p3)
      }) \<and> lists_ok p2 \<and> up_woken p2 = up_woken p \<and> up_lock p2 = up_lock p \<and> writers_of p2 = (writers_of p)(l := ws) \<and> readers_of p2 = readers_of p \<and>
      count_of p2 = count_of p \<and> up_condvar p2 = (if q = [] then (up_condvar p)(c := CONDVAR_HAS_NO_WAITERS L) else up_condvar p) \<and>
      threads_of p2 = (threads_of p)(c := q) \<and> cv_lock_of p2 = cv_lock_of p"
proof -
  note ok = pinvD[OF p]
  obtain i0 where "get_userland_condvar_cv c p = Some i0" using k get_cv_views(2)[of c p] by (cases "get_userland_condvar_cv c p") auto
  note i0 = this
  define p1 where "p1 = unsubscribe_lock t l (unsubscribe_cv t c p)"
  note v1 = unsubscribe_cv_views[OF i0, of t] unsubscribe_lock_views[where t = t and l = l and p = "unsubscribe_cv t c p"]
  have vp1: "lists_ok p1" "up_woken p1 = up_woken p" "up_lock p1 = up_lock p" "up_condvar p1 = up_condvar p" "writers_of p1 = (writers_of p)(l := ws)"
    "readers_of p1 = readers_of p" "count_of p1 = count_of p" "threads_of p1 = (threads_of p)(c := unsubscribe t (threads_of p c))" "cv_lock_of p1 = cv_lock_of p"
    using v1 ok(1) by (simp_all add: p1_def ws_def)
  then obtain i where i: "get_userland_condvar_cv c p1 = Some i" using k get_cv_views(2)[of c p1] by (cases "get_userland_condvar_cv c p1") auto
  note g = get_cv_views(1)[OF i]
  have il: "cw_lock i = l" "cw_threads i = unsubscribe t (threads_of p c)" "cw_condvar i = c" using g vp1 k by simp_all
  have f: "filter (\<lambda>w. wk_tid w \<noteq> t) (cw_threads i) = q"
    unfolding il q_def by (rule filter_unsubscribe) (rule entries(3)[OF ok(2)])
  have n: "length (filter (\<lambda>w. wk_tid w = t) (cw_threads i)) = (if t \<in> tids (threads_of p c) then 1 else 0)"
    unfolding il count_unsubscribe by (rule count_tid[OF entries(4)[OF ok(2)]])
  define p2' where "p2' = put_condvar_cv (i\<lparr>cw_threads := q\<rparr>) p1"
  define p2 where "p2 = (if q = [] then set_condvar c (CONDVAR_HAS_NO_WAITERS L) p2' else p2')"
  have "get_userland_condvar_cv (cw_condvar (i\<lparr>cw_threads := q\<rparr>)) p1 \<noteq> None" using i il by simp
  from view_put_condvar[OF this] il vp1 k have v2: "threads_of p2' = (threads_of p)(c := q)" "cv_lock_of p2' = cv_lock_of p"
    by (simp_all add: p2'_def fun_upd_idem)
  have vp2': "lists_ok p2'" "up_woken p2' = up_woken p" "up_lock p2' = up_lock p" "writers_of p2' = (writers_of p)(l := ws)"
    "readers_of p2' = readers_of p" "count_of p2' = count_of p" "up_condvar p2' = up_condvar p"
    using vp1 by (simp_all add: p2'_def)
  have vp2: "lists_ok p2" "up_woken p2 = up_woken p" "up_lock p2 = up_lock p" "writers_of p2 = (writers_of p)(l := ws)"
    "readers_of p2 = readers_of p" "count_of p2 = count_of p" "up_condvar p2 = (if q = [] then (up_condvar p)(c := CONDVAR_HAS_NO_WAITERS L) else up_condvar p)"
    "threads_of p2 = (threads_of p)(c := q)" "cv_lock_of p2 = cv_lock_of p"
    using vp2' v2 by (simp_all add: p2_def)
  have ki: "(if cw_lock i \<noteq> l then i\<lparr>cw_lock := l\<rparr> else i) = i" using il by simp
  have ka: "kassert ((if t \<in> tids (threads_of p c) then 1 else 0) = (0::nat) \<or> (if t \<in> tids (threads_of p c) then 1 else 0) = (1::nat)) = Some ()" by simp
  have "poll_condvar_timeout L t l c p =
     (if low (up_lock p2 l) = 0 then Some (True, set_lock l (LOCK_WRLOCKED L OR (t AND lock_mask)) p2)
      else do {
        let (j, p3) = get_or_create_userland_lock_info l (set_lock l (up_lock p2 l OR LOCK_KERNEL_MANAGED L) p2);
        let ws' = (if (if t \<in> tids (threads_of p c) then 1 else 0) = (1::nat) then lw_writers j @ [\<lparr>wk_tid = t, wk_conditions = []\<rparr>] else lw_writers j);
        kassert (length (filter (\<lambda>w. wk_tid w = t) ws') = 1);
        Some (False, put_lock_info (j\<lparr>lw_writers := subscribe t ws'\<rparr>) p3)
      })"
    unfolding poll_condvar_timeout_def p1_def[symmetric] cancel_userspace_cv_def i option.case Let_def ki n ka bind.bind_lunit f low_def
      p2_def p2'_def by (rule refl)
  moreover obtain j p3 where c: "get_or_create_userland_lock_info l (set_lock l (up_lock p2 l OR LOCK_KERNEL_MANAGED L) p2) = (j, p3)" by fastforce
  moreover have "lw_writers j = ws" using get_or_create_lock[OF c] vp2 by simp
  ultimately show ?thesis using vp2 by (intro exI[of _ p2]) (simp add: Let_def)
qed

lemma cv_timeout_ok:
  assumes L: "lock_abi_ok L" and p: "pinv L p waits W R" and t: "waits t = Some (l, True, Some c)"
  shows "\<exists>got p'. poll_condvar_timeout L t l c p = Some (got, p') \<and> up_woken p' = up_woken p \<and>
    (if got then pinv L p' (waits(t := None)) (insert (t, l) W) R else pinv L p' (waits(t \<mapsto> (l, True, None))) W R)"
proof -
  note ok = pinvD[OF p]
  note placed = vinvD(3)[OF ok(2) t]
  have k: "cv_lock_of p c = Some l" using placed by (simp add: placed_def)
  have valid: "valid_tid t" using vinvD(4)[OF ok(2), of t] t by simp
  let ?q = "filter (\<lambda>w. wk_tid w \<noteq> t) (threads_of p c)"
  let ?ws = "unsubscribe t (writers_of p l)"
  let ?x = "up_lock p l OR LOCK_KERNEL_MANAGED L"
  from cancel_left[OF p k, of t] obtain p2 where r: "poll_condvar_timeout L t l c p =
     (if low (up_lock p l) = 0 then Some (True, set_lock l (LOCK_WRLOCKED L OR (t AND lock_mask)) p2)
      else do {
        let (j, p3) = get_or_create_userland_lock_info l (set_lock l ?x p2);
        let ws' = (if t \<in> tids (threads_of p c) then ?ws @ [\<lparr>wk_tid = t, wk_conditions = []\<rparr>] else ?ws);
        kassert (length (filter (\<lambda>w. wk_tid w = t) ws') = 1);
        Some (False, put_lock_info (j\<lparr>lw_writers := subscribe t ws'\<rparr>) p3)
      })" and v2: "lists_ok p2" "up_woken p2 = up_woken p" "up_lock p2 = up_lock p" "writers_of p2 = (writers_of p)(l := ?ws)" "readers_of p2 = readers_of p"
      "count_of p2 = count_of p" "up_condvar p2 = (if ?q = [] then (up_condvar p)(c := CONDVAR_HAS_NO_WAITERS L) else up_condvar p)"
      "threads_of p2 = (threads_of p)(c := ?q)" "cv_lock_of p2 = cv_lock_of p" by blast
  obtain j p3 where c: "get_or_create_userland_lock_info l (set_lock l ?x p2) = (j, p3)" by fastforce
  note g = get_or_create_lock[OF c]
  note vc = view_create_lock[OF c]
  have v4: "lists_ok (put_lock_info (j\<lparr>lw_writers := w\<rparr>) p3) \<and> up_woken (put_lock_info (j\<lparr>lw_writers := w\<rparr>) p3) = up_woken p \<and>
    pinv L (put_lock_info (j\<lparr>lw_writers := w\<rparr>) p3) ww W R =
    vinv L ((up_lock p)(l := ?x)) ((writers_of p)(l := w)) (readers_of p) (count_of p) (up_condvar p2) ((threads_of p)(c := ?q)) (cv_lock_of p) ww W R" for w ww
    using g vc v2 by (simp add: pinv_def view_put_lock fun_upd_idem)
  show ?thesis
  proof (cases "t \<in> tids (threads_of p c)")
    case True
    have nw: "t \<notin> tids (writers_of p l)" using cv_disjoint[OF ok(2) k] True by blast
    have us: "?ws = writers_of p l" by (rule unsubscribe_other[OF entries(1)[OF ok(2)] nw])
    note lv = vinv_cv_leave[OF ok(2) True]
    show ?thesis
    proof (cases "low (up_lock p l) = 0")
      case free: True
      from vinv_take_write[OF L lv free valid] v2 us
      have "pinv L (set_lock l (LOCK_WRLOCKED L OR (t AND lock_mask)) p2) (waits(t := None)) (insert (t, l) W) R"
        by (simp add: pinv_def fun_upd_idem)
      then show ?thesis using r free v2(2) by (intro exI[of _ True] exI) auto
    next
      case False
      let ?w = "writers_of p l @ [\<lparr>wk_tid = t, wk_conditions = [t]\<rparr>]"
      have "length (filter (\<lambda>w. wk_tid w = t) (writers_of p l @ [\<lparr>wk_tid = t, wk_conditions = []\<rparr>])) = 1"
        using count_tid[OF entries(2)[OF ok(2), of l], of t] nw by simp
      then have "poll_condvar_timeout L t l c p = Some (False, put_lock_info (j\<lparr>lw_writers := ?w\<rparr>) p3)"
        using r False c True us subscribe_new[OF nw] by simp
      moreover have "pinv L (put_lock_info (j\<lparr>lw_writers := ?w\<rparr>) p3) (waits(t \<mapsto> (l, True, None))) W R"
        using vinv_enqueue_writer[OF L lv False valid] v4[of ?w] v2(7) by simp
      ultimately show ?thesis using v4[of ?w] by (intro exI[of _ False] exI) auto
    qed
  next
    case False
    then have m: "t \<in> tids (writers_of p l)" using placed by (simp add: placed_def)
    have q: "?q = threads_of p c" using False by (intro filter_True) auto
    have held: "low (up_lock p l) \<noteq> 0" using vinvD(1)[OF ok(2), of l] m by (auto simp: lock_ok_def)
    have cv: "up_condvar p2 = up_condvar p" using v2(7) vinvD(2)[OF ok(2), of c] by (simp add: q cv_ok_def fun_upd_idem)
    have "length (filter (\<lambda>w. wk_tid w = t) ?ws) = 1"
      using count_tid[OF entries(2)[OF ok(2), of l], of t] m by (simp add: count_unsubscribe)
    moreover have s: "subscribe t ?ws = writers_of p l" by (rule subscribe_unsubscribe) (rule entries(1)[OF ok(2)])
    ultimately have "poll_condvar_timeout L t l c p = Some (False, put_lock_info (j\<lparr>lw_writers := writers_of p l\<rparr>) p3)"
      using r held c False by simp
    moreover have "pinv L (put_lock_info (j\<lparr>lw_writers := writers_of p l\<rparr>) p3) (waits(t \<mapsto> (l, True, None))) W R"
      using vinv_cv_forget[OF vinv_km[OF L ok(2), of l] t m] v4[of "writers_of p l"] by (simp add: q cv fun_upd_idem)
    ultimately show ?thesis using v4[of "writers_of p l"] by (intro exI[of _ False] exI) auto
  qed
qed

subsection \<open>Reachable states\<close>

lemma idleD: "idle t s \<Longrightarrow> valid_tid t" "idle t s \<Longrightarrow> gs_waits s t = None"
  by (simp_all add: idle_def)

lemma lock_step_inv:
  assumes L: "lock_abi_ok L" and s: "lock_inv L s" and step: "lock_step L s s'"
  shows "lock_inv L s'"
proof -
  have p: "pinv L (gs_proc s) (gs_waits s) (gs_writes s) (gs_reads s)" and w: "up_woken (gs_proc s) = []"
    using s by (simp_all add: lock_inv_pinv)
  from step show ?thesis
  proof cases
    case (step_lock t l "write" got p')
    with poll_lock_ok[OF L p idleD[OF step_lock(2)] step_lock(4), of "write"] w idleD(2)[OF step_lock(2)] show ?thesis
      by (auto simp: lock_inv_pinv grant_def fun_upd_idem split: if_splits)
  next
    case (step_unlock t l p')
    with drop_ok[OF L p w step_unlock(3)] show ?thesis by (auto simp: finish_inv)
  next
    case (step_leave t l p')
    with leave_read_ok[OF L p w step_leave(3)] show ?thesis by (auto simp: finish_inv)
  next
    case (step_timeout t l "write" p')
    with timeout_ok[OF p step_timeout(2)] w show ?thesis by (auto simp: lock_inv_pinv)
  next
    case (step_wait t l c p')
    have same: "\<forall>u i x. gs_waits s u = Some (i, x, Some c) \<longrightarrow> i = l" using step_wait(4) by blast
    from poll_condvar_ok[OF L p w step_wait(3) idleD(2)[OF step_wait(2)] same refl] step_wait(1,5) show ?thesis by (auto simp: finish_inv)
  next
    case (step_signal t c n p')
    with signal_ok[OF L p w step_signal(3), of n] show ?thesis by (auto simp: finish_inv)
  next
    case (step_cv_timeout t l c got p')
    with cv_timeout_ok[OF L p step_cv_timeout(2)] w show ?thesis by (auto simp: lock_inv_pinv grant_def split: if_splits)
  qed
qed

lemma init_inv: "lock_abi_ok L \<Longrightarrow> lock_inv L (init_gstate L)"
  by (simp add: lock_inv_def init_gstate_def Let_def lists_ok_def vinv_def lock_ok_def word_ok_def cv_ok_def writers_of_def
      readers_of_def count_of_def threads_of_def get_userland_lock_info_def get_userland_condvar_cv_def)

lemma lock_run_inv:
  assumes "lock_abi_ok L" "lock_run L (init_gstate L) s"
  shows "lock_inv L s"
  using assms(2)
proof (induction "init_gstate L" s rule: lock_run.induct)
  case lock_run_none
  show ?case by (rule init_inv[OF assms(1)])
next
  case (lock_run_step s' s'')
  with lock_step_inv[OF assms(1)] show ?case by blast
qed

lemma lock_runD:
  assumes "lock_abi_ok L" "lock_run L (init_gstate L) s"
  shows "pinv L (gs_proc s) (gs_waits s) (gs_writes s) (gs_reads s)" "up_woken (gs_proc s) = []"
  using lock_run_inv[OF assms] by (simp_all add: lock_inv_pinv)

subsection \<open>What a process can rely on\<close>

text \<open>A run to look at: thread 1 has lock 8, thread 2 waits for it.\<close>

definition lock_next :: "lock_abi \<Rightarrow> tid \<Rightarrow> u32 \<Rightarrow> bool \<Rightarrow> gstate \<Rightarrow> gstate" where
  "lock_next L t l write s = (case poll_lock L t l write (gs_proc s) of
       Some (got, p) \<Rightarrow> if got then grant t l write (s\<lparr>gs_proc := p\<rparr>) else s\<lparr>gs_proc := p, gs_waits := (gs_waits s)(t \<mapsto> (l, write, None))\<rparr>
     | None \<Rightarrow> s)"

lemma lock_next_run:
  assumes "lock_run L i s" "idle t s" "(t, l) \<notin> gs_writes s" "(t, l) \<notin> gs_reads s" "case poll_lock L t l write (gs_proc s) of None \<Rightarrow> False | Some r \<Rightarrow> True"
  shows "lock_run L i (lock_next L t l write s)"
proof -
  obtain got p where r: "poll_lock L t l write (gs_proc s) = Some (got, p)" using assms(5) by (auto split: option.splits)
  from lock_run_step[OF assms(1) step_lock[OF assms(2-4) r]] show ?thesis by (simp add: lock_next_def r)
qed

definition sample_locked :: gstate where "sample_locked = lock_next sample_lock_abi 1 8 True (init_gstate sample_lock_abi)"
definition sample_waiting :: gstate where "sample_waiting = lock_next sample_lock_abi 2 8 True sample_locked"

lemma sample_locked_run: "lock_run sample_lock_abi (init_gstate sample_lock_abi) sample_locked"
  unfolding sample_locked_def by (rule lock_next_run[OF lock_run_none]) code_simp+

lemma sample_waiting_run: "lock_run sample_lock_abi (init_gstate sample_lock_abi) sample_waiting"
  unfolding sample_waiting_def by (rule lock_next_run[OF sample_locked_run]) code_simp+

lemma sample_waiting_state:
  "gs_writes sample_waiting = {(1, 8)}" "gs_waits sample_waiting 2 = Some (8, True, None)" "up_lock (gs_proc sample_waiting) 8 = 0xc0000001"
  by code_simp+



lemma word_held:
  assumes "word_ok L v W R" "low v \<noteq> 0"
  shows "\<exists>u. u \<in> W \<union> R"
proof (rule ccontr)
  assume "\<not> ?thesis"
  then have "W = {}" "R = {}" by auto
  with assms(1) have "unat (low v) = 0" by (simp add: word_ok_def split: if_splits)
  with assms(2) show False by (simp add: unat_eq_zero)
qed

text \<open>
  C14: No thread is forgotten. A thread that waits for a lock is in the queue of a condition
  variable whose word says so, or it is in a queue of the lock; then the lock is held by some
  thread and its word makes userland call the kernel to unlock it.
\<close>
theorem waiting_not_lost:
  assumes "lock_abi_ok L" "lock_run L (init_gstate L) s" "gs_waits s t = Some (l, write, c)"
  shows "(\<exists>d i. c = Some d \<and> get_userland_condvar_cv d (gs_proc s) = Some i \<and> cw_lock i = l \<and> t \<in> wk_tid ` set (cw_threads i) \<and>
            up_condvar (gs_proc s) d \<noteq> CONDVAR_HAS_NO_WAITERS L) \<or>
         (\<exists>i u. get_userland_lock_info l (gs_proc s) = Some i \<and> (if write then t \<in> wk_tid ` set (lw_writers i) else t \<in> set (lw_read_signaler i)) \<and>
            up_lock (gs_proc s) l AND LOCK_KERNEL_MANAGED L \<noteq> 0 \<and> (u, l) \<in> gs_writes s \<union> gs_reads s)"
proof -
  let ?p = "gs_proc s"
  note v = pinvD(2)[OF lock_runD(1)[OF assms(1,2)]]
  note placed = vinvD(3)[OF v assms(3)]
  show ?thesis
  proof (cases "\<exists>d. c = Some d \<and> t \<in> tids (threads_of ?p d)")
    case True
    then obtain d where d: "c = Some d" "t \<in> tids (threads_of ?p d)" by blast
    then have "threads_of ?p d \<noteq> []" by auto
    then obtain i where i: "get_userland_condvar_cv d ?p = Some i" using get_cv_views(2)[of d ?p] by (cases "get_userland_condvar_cv d ?p") auto
    have "up_condvar ?p d \<noteq> CONDVAR_HAS_NO_WAITERS L" using vinvD(2)[OF v, of d] d(2) by (auto simp: cv_ok_def)
    moreover have "cw_lock i = l" using placed d(1) get_cv_views(1)[OF i] by (simp add: placed_def)
    ultimately show ?thesis using d i get_cv_views(1)[OF i] by auto
  next
    case False
    then have q: "if write then t \<in> tids (writers_of ?p l) else t \<in> set (readers_of ?p l)" using placed by (auto simp: placed_def split: if_splits)
    then have ne: "writers_of ?p l \<noteq> [] \<or> readers_of ?p l \<noteq> []" by (auto split: if_splits)
    then obtain i where i: "get_userland_lock_info l ?p = Some i" using view_get_lock(2)[of l ?p] by (cases "get_userland_lock_info l ?p") auto
    have "count_of ?p l \<noteq> 0" if "readers_of ?p l \<noteq> []" using readers_bound(1)[OF v, of l] that by auto
    with ne have "low (up_lock ?p l) \<noteq> 0" "km L (up_lock ?p l)" using vinvD(1)[OF v, of l] by (auto simp: lock_ok_def)
    moreover have "word_ok L (up_lock ?p l) {u. (u, l) \<in> gs_writes s} {u. (u, l) \<in> gs_reads s}"
      using vinvD(1)[OF v, of l] by (simp add: lock_ok_def)
    from word_held[OF this calculation(1)] obtain u where "(u, l) \<in> gs_writes s \<union> gs_reads s" by blast
    ultimately show ?thesis using i q view_get_lock(1)[OF i] by (auto simp: km_def)
  qed
qed

theorem waiting_not_lost_witness:
  "gs_waits sample_waiting 2 = Some (8, True, None) \<and>
   (\<exists>i u. get_userland_lock_info 8 (gs_proc sample_waiting) = Some i \<and> 2 \<in> wk_tid ` set (lw_writers i) \<and>
      up_lock (gs_proc sample_waiting) 8 AND LOCK_KERNEL_MANAGED sample_lock_abi \<noteq> 0 \<and> (u, 8) \<in> gs_writes sample_waiting \<union> gs_reads sample_waiting)"
  using waiting_not_lost[OF sample_lock_abi_ok sample_waiting_run sample_waiting_state(2)] sample_waiting_state(2) by simp



lemma give_cvs: "give_to_writer L l i first rest p = Some p' \<Longrightarrow> get_userland_condvar_cv c p' = get_userland_condvar_cv c p"
  by (auto simp: give_to_writer_def notify_one_def Let_def split: if_splits)

lemma create_lock_cvs: "get_or_create_userland_lock_info l p = (i, q) \<Longrightarrow> get_userland_condvar_cv c q = get_userland_condvar_cv c p"
  by (drule get_or_create_lock) blast

lemma signal_keeps_entry:
  assumes "signal_userspace_cv L c n p = Some p'" "get_userland_condvar_cv c p = Some cv"
  shows "get_userland_condvar_cv c p' \<noteq> None"
proof -
  have key: "cw_condvar cv = c" by (rule get_condvar_key[OF assms(2)])
  from assms show ?thesis
    by (auto simp: signal_userspace_cv_def get_put_condvar_cv key Let_def create_lock_cvs dest!: give_cvs[where c = c]
        split: if_splits prod.splits list.splits)
qed

text \<open>
  C37: A signal that wakes the last waiter of a condition variable leaves a kernel in which the next
  signal of that variable fails an assertion: the list entry of the variable is never removed.
\<close>
theorem condvar_signal_again_panics:
  assumes "signal_userspace_cv L c n p = Some p'" "up_condvar p c \<noteq> CONDVAR_HAS_NO_WAITERS L" "up_condvar p' c = CONDVAR_HAS_NO_WAITERS L"
  shows "signal_userspace_cv L c m p' = None"
proof -
  obtain cv where "get_userland_condvar_cv c p = Some cv"
    using assms(1,2) by (cases "get_userland_condvar_cv c p") (auto simp: signal_userspace_cv_def)
  from signal_keeps_entry[OF assms(1) this] obtain cv' where "get_userland_condvar_cv c p' = Some cv'" by blast
  then show ?thesis using assms(3) by (simp add: signal_userspace_cv_def)
qed

definition sample_cv_waiting :: uproc where
  "sample_cv_waiting = the (poll_condvar sample_lock_abi 1 8 12 (gs_proc sample_locked))"

theorem condvar_signal_again_panics_witness:
  "\<exists>p'. signal_userspace_cv sample_lock_abi 12 1 sample_cv_waiting = Some p' \<and> signal_userspace_cv sample_lock_abi 12 1 p' = None"
proof -
  have "case signal_userspace_cv sample_lock_abi 12 1 sample_cv_waiting of None \<Rightarrow> False
      | Some p' \<Rightarrow> up_condvar p' 12 = CONDVAR_HAS_NO_WAITERS sample_lock_abi" by code_simp
  then obtain p' where p': "signal_userspace_cv sample_lock_abi 12 1 sample_cv_waiting = Some p'"
    "up_condvar p' 12 = CONDVAR_HAS_NO_WAITERS sample_lock_abi" by (auto split: option.splits)
  have "up_condvar sample_cv_waiting 12 \<noteq> CONDVAR_HAS_NO_WAITERS sample_lock_abi" by code_simp
  with p' condvar_signal_again_panics[OF p'(1) _ p'(2)] show ?thesis by blast
qed

end
