(* ===== verification/Unixsock.thy ===== *)
theory Unixsock
  imports Fd_Table "HOL-Library.Sublist"
begin

text \<open>
  Socket pairs, \<^verbatim>\<open>fd/unixsock.cpp\<close> and \<^verbatim>\<open>fd/sock.hpp\<close>, with the copying of buffer lists of
  \<^verbatim>\<open>oslibc/iovec.cpp\<close>. A socket is an entry of a store; the weak pointer to the other end is its
  number, and locking it fails once the entry is gone. A list of buffers is the list of their
  contents when it is read and the list of their lengths when it is written. The descriptors of
  the running process are its table. A receive that would wait changes nothing and is
  tried again when it wakes up. Allocations succeed.
\<close>

subsection \<open>Buffer lists\<close>

fun veccpy_to :: "u32 list \<Rightarrow> bytes \<Rightarrow> bytes list" where
  "veccpy_to [] src = []"
| "veccpy_to (len # lens) src =
     (if src = [] then []
      else let copy = min (unat len) (length src) in take copy src # veccpy_to lens (drop copy src))"

fun veccpy_from :: "nat \<Rightarrow> bytes list \<Rightarrow> bytes" where
  "veccpy_from dstlen [] = []"
| "veccpy_from dstlen (src # srcs) =
     (if dstlen = 0 then []
      else let copy = min (length src) dstlen in take copy src @ veccpy_from (dstlen - copy) srcs)"

subsection \<open>Sockets\<close>

datatype sockstatus = IDLE | CONNECTING | CONNECTED | SHUTDOWN

record unixsock_message =
  um_buf :: bytes
  um_stream_data_recv :: nat
  um_fd_list :: "fd_mapping list"

record unixsock =
  us_type :: filetype
  us_nonblock :: bool
  us_status :: sockstatus
  us_othersock :: "nat option"
  us_num_recv_bytes :: u32
  us_recv_messages :: "unixsock_message list"

type_synonym usocks = "nat \<Rightarrow> unixsock option"

definition MAX_SIZE_BUFFERS :: u32 where "MAX_SIZE_BUFFERS = 1024 * 1024"

definition new_unixsock :: "filetype \<Rightarrow> bool \<Rightarrow> unixsock" where
  "new_unixsock t nonblock = \<lparr>us_type = t, us_nonblock = nonblock, us_status = IDLE, us_othersock = None,
     us_num_recv_bytes = 0, us_recv_messages = []\<rparr>"

definition othersock :: "usocks \<Rightarrow> unixsock \<Rightarrow> unixsock option" where
  "othersock w s = Option.bind (us_othersock s) w"

definition is_shutdown :: "usocks \<Rightarrow> unixsock \<Rightarrow> bool" where
  "is_shutdown w s = (case othersock w s of None \<Rightarrow> True | Some other \<Rightarrow> us_status other = SHUTDOWN)"

definition is_readable :: "usocks \<Rightarrow> unixsock \<Rightarrow> bool" where
  "is_readable w s = (us_recv_messages s \<noteq> [] \<or> is_shutdown w s)"

definition is_writeable :: "usocks \<Rightarrow> unixsock \<Rightarrow> bool option" where
  "is_writeable w s =
     (if us_status s \<noteq> CONNECTED then Some False
      else do {
        other \<leftarrow> othersock w s;
        kassert (us_num_recv_bytes other \<le> MAX_SIZE_BUFFERS);
        Some (us_num_recv_bytes other \<noteq> MAX_SIZE_BUFFERS)
      })"

definition socketpair :: "nat \<Rightarrow> nat \<Rightarrow> usocks \<Rightarrow> usocks option" where
  "socketpair i j w =
     do {
       s \<leftarrow> w i;
       other \<leftarrow> w j;
       kassert (us_status s = IDLE);
       kassert (us_status other = IDLE);
       kassert (us_type s = us_type other);
       Some (w(i \<mapsto> s\<lparr>us_status := CONNECTED, us_othersock := Some j\<rparr>, j \<mapsto> other\<lparr>us_status := CONNECTED, us_othersock := Some i\<rparr>))
     }"

text \<open>Shutting down for reading shuts the other end down for writing.\<close>

definition shutdown_wr :: "nat \<Rightarrow> usocks \<Rightarrow> errno \<times> usocks" where
  "shutdown_wr i w =
     (case w i of
        None \<Rightarrow> (ENOTCONN, w)
      | Some s \<Rightarrow> if us_status s \<noteq> CONNECTED then (ENOTCONN, w) else (ESUCCESS, w(i \<mapsto> s\<lparr>us_status := SHUTDOWN\<rparr>)))"

definition unixsock_shutdown :: "nat \<Rightarrow> bool \<Rightarrow> bool \<Rightarrow> usocks \<Rightarrow> (errno \<times> usocks) option" where
  "unixsock_shutdown i rd wr w =
     do {
       s \<leftarrow> w i;
       if us_status s \<noteq> CONNECTED then Some (ENOTCONN, w)
       else let w1 = (if rd then (case us_othersock s of None \<Rightarrow> w | Some j \<Rightarrow> snd (shutdown_wr j w)) else w);
                w2 = (if wr then snd (shutdown_wr i w1) else w1)
            in Some (ESUCCESS, w2)
     }"

text \<open>The destructor. Messages that were not received go away with the socket.\<close>

definition unixsock_destroy :: "nat \<Rightarrow> usocks \<Rightarrow> usocks option" where
  "unixsock_destroy i w =
     do {
       s \<leftarrow> w i;
       kassert (us_status s = CONNECTED \<or> us_status s = SHUTDOWN);
       (e, w) \<leftarrow> unixsock_shutdown i True True w;
       Some (w(i := None))
     }"

subsection \<open>Sending\<close>

fun total_size :: "bytes list \<Rightarrow> u32" where
  "total_size [] = 0"
| "total_size (b # bs) = of_nat (length b) + total_size bs"

fun get_fds :: "fd_table \<Rightarrow> u32 list \<Rightarrow> errno + fd_mapping list" where
  "get_fds fds [] = Inr []"
| "get_fds fds (n # ns) =
     (case get_fd fds n 0 of
        Inl e \<Rightarrow> Inl e
      | Inr m \<Rightarrow> (case get_fds fds ns of Inl e \<Rightarrow> Inl e | Inr ms \<Rightarrow> Inr (m # ms)))"

definition unixsock_send :: "nat \<Rightarrow> fd_table \<Rightarrow> bytes list \<Rightarrow> u32 list \<Rightarrow> usocks \<Rightarrow> (errno \<times> u32 \<times> usocks) option" where
  "unixsock_send i fds si_data si_fds w =
     do {
       s \<leftarrow> w i;
       if us_status s = SHUTDOWN then Some (EPIPE, 0, w)
       else if us_status s \<noteq> CONNECTED then Some (ENOTCONN, 0, w)
       else do {
         other \<leftarrow> othersock w s;
         kassert (othersock w other \<noteq> None);
         kassert (us_type s = FT_SOCKET_DGRAM \<or> us_type s = FT_SOCKET_STREAM);
         let total = total_size si_data;
         writeable \<leftarrow> is_writeable w s;
         if \<not> writeable then Some (EAGAIN, 0, w)
         else do {
           let total = (if total + us_num_recv_bytes other > MAX_SIZE_BUFFERS then MAX_SIZE_BUFFERS - us_num_recv_bytes other else total);
           let buf = veccpy_from (unat total) si_data;
           kassert (of_nat (length buf) = total);
           case get_fds fds si_fds of
             Inl e \<Rightarrow> Some (e, 0, w)
           | Inr ms \<Rightarrow> do {
               let other = other\<lparr>us_recv_messages := us_recv_messages other @ [\<lparr>um_buf = buf, um_stream_data_recv = 0, um_fd_list = ms\<rparr>],
                                 us_num_recv_bytes := us_num_recv_bytes other + total\<rparr>;
               kassert (us_num_recv_bytes other \<le> MAX_SIZE_BUFFERS);
               Some (ESUCCESS, total, w(the (us_othersock s) \<mapsto> other))
             }
         }
       }
     }"

definition unixsock_write :: "nat \<Rightarrow> fd_table \<Rightarrow> bytes \<Rightarrow> usocks \<Rightarrow> (errno \<times> u32 \<times> usocks) option" where
  "unixsock_write i fds str w = unixsock_send i fds [str] [] w"

subsection \<open>Receiving\<close>

text \<open>What a receive asks for: the lengths of the buffers, the room for descriptors, and the two flags.\<close>

record recv_in =
  ri_data :: "u32 list"
  ri_fds_len :: nat
  ri_waitall :: bool
  ri_peek :: bool

record recv_out =
  ro_data :: "bytes list"
  ro_fds :: "nat list"
  ro_data_truncated :: bool
  ro_fds_truncated :: bool

definition empty_recv :: recv_out where
  "empty_recv = \<lparr>ro_data = [], ro_fds = [], ro_data_truncated = False, ro_fds_truncated = False\<rparr>"

definition ro_datalen :: "recv_out \<Rightarrow> nat" where
  "ro_datalen out = sum_list (map length (ro_data out))"

text \<open>Adding the descriptors of a message to the table of the process, as far as there is room for them.\<close>

fun recv_fds :: "nat \<Rightarrow> fd_mapping list \<Rightarrow> nat list \<Rightarrow> bool \<Rightarrow> fd_table \<Rightarrow> (nat list \<times> bool \<times> fd_table) option" where
  "recv_fds room [] nums truncated fds = Some (nums, truncated, fds)"
| "recv_fds room (m # ms) nums truncated fds =
     (if length nums < room
      then do {
        (n, fds) \<leftarrow> add_fd fds (map_fd m) (rights_base m) (rights_inheriting m);
        recv_fds room ms (nums @ [n]) truncated fds
      }
      else recv_fds room ms nums (truncated \<or> room > 0) fds)"

definition recv_dgram :: "recv_in \<Rightarrow> unixsock \<Rightarrow> fd_table \<Rightarrow> (recv_out \<times> unixsock \<times> fd_table) option" where
  "recv_dgram inp s fds =
     (case us_recv_messages s of
        [] \<Rightarrow> None
      | message # rest \<Rightarrow> do {
          let s = (if ri_peek inp then s else s\<lparr>us_recv_messages := rest\<rparr>);
          let data = veccpy_to (ri_data inp) (um_buf message);
          let copied = sum_list (map length data);
          (nums, truncated, fds) \<leftarrow> recv_fds (ri_fds_len inp) (um_fd_list message) [] False fds;
          let s = s\<lparr>us_num_recv_bytes := us_num_recv_bytes s - of_nat copied\<rparr>;
          Some (\<lparr>ro_data = data, ro_fds = nums, ro_data_truncated = copied < length (um_buf message), ro_fds_truncated = truncated\<rparr>, s, fds)
        })"

text \<open>
  The two loops of a stream receive: over the buffers, and over the messages for one buffer.
  \<open>sr_at\<close> is the place of \<^verbatim>\<open>recv_message\<close> in the list, which is also the number of messages consumed.
\<close>

record stream_recv =
  sr_messages :: "unixsock_message list"
  sr_at :: nat
  sr_stream_data_recv :: nat
  sr_next_message_read :: bool
  sr_fd_boundary :: bool
  sr_written :: bytes

definition more_messages :: "stream_recv \<Rightarrow> bool" where
  "more_messages r \<longleftrightarrow> sr_at r < length (sr_messages r) \<and> \<not> sr_fd_boundary r"

definition copy_part :: "bool \<Rightarrow> nat \<Rightarrow> stream_recv \<Rightarrow> stream_recv" where
  "copy_part peek buf_len r =
     (let body = sr_messages r ! sr_at r;
          remaining = length (um_buf body) - sr_stream_data_recv r;
          copy = min (buf_len - length (sr_written r)) remaining;
          received = sr_stream_data_recv r + copy
      in if remaining = 0 then r
         else r\<lparr>sr_written := sr_written r @ take copy (drop (sr_stream_data_recv r) (um_buf body)),
                sr_stream_data_recv := received,
                sr_messages := (if peek then sr_messages r else (sr_messages r)[sr_at r := body\<lparr>um_stream_data_recv := received\<rparr>]),
                sr_next_message_read := True\<rparr>)"

definition next_message :: "stream_recv \<Rightarrow> stream_recv" where
  "next_message r =
     (let at = sr_at r + 1;
          more = at < length (sr_messages r)
      in r\<lparr>sr_at := at,
           sr_stream_data_recv := (if more then um_stream_data_recv (sr_messages r ! at) else sr_stream_data_recv r),
           sr_next_message_read := False,
           sr_fd_boundary := (more \<and> um_fd_list (sr_messages r ! at) \<noteq> [])\<rparr>)"

definition recv_part :: "bool \<Rightarrow> nat \<Rightarrow> stream_recv \<Rightarrow> stream_recv" where
  "recv_part peek buf_len r =
     (let r' = copy_part peek buf_len r
      in if length (um_buf (sr_messages r ! sr_at r)) = sr_stream_data_recv r' then next_message r' else r')"

lemma copy_part_at [simp]: "sr_at (copy_part peek len r) = sr_at r" "length (sr_messages (copy_part peek len r)) = length (sr_messages r)"
  by (simp_all add: copy_part_def Let_def)

lemma copy_part_full:
  "sr_stream_data_recv (copy_part peek len r) \<noteq> length (um_buf (sr_messages r ! sr_at r)) \<Longrightarrow>
   sr_stream_data_recv r \<le> length (um_buf (sr_messages r ! sr_at r)) \<Longrightarrow> length (sr_written r) \<le> len \<Longrightarrow> length (sr_written (copy_part peek len r)) = len"
  by (auto simp: copy_part_def Let_def min_def split: if_splits)

lemma next_message_at [simp]: "sr_at (next_message r) = sr_at r + 1" "sr_messages (next_message r) = sr_messages r"
  by (simp_all add: next_message_def Let_def)

lemma recv_part_decreases:
  assumes "length (sr_written r) < len" "more_messages r" "sr_stream_data_recv r \<le> length (um_buf (sr_messages r ! sr_at r))"
  shows "length (sr_messages (recv_part peek len r)) - sr_at (recv_part peek len r) < length (sr_messages r) - sr_at r \<or>
    length (sr_messages (recv_part peek len r)) - sr_at (recv_part peek len r) = length (sr_messages r) - sr_at r \<and> length (sr_written (recv_part peek len r)) = len"
proof (cases "length (um_buf (sr_messages r ! sr_at r)) = sr_stream_data_recv (copy_part peek len r)")
  case True
  moreover have "sr_at r < length (sr_messages r)" using assms(2) by (simp add: more_messages_def)
  ultimately show ?thesis by (intro disjI1) (simp add: recv_part_def diff_less_mono2)
next
  case False
  with copy_part_full[of peek len r] assms show ?thesis by (simp add: recv_part_def)
qed

function recv_iovec :: "bool \<Rightarrow> nat \<Rightarrow> stream_recv \<Rightarrow> stream_recv option" where
  "recv_iovec peek buf_len r =
     (if length (sr_written r) < buf_len \<and> more_messages r
      then if length (um_buf (sr_messages r ! sr_at r)) < sr_stream_data_recv r then None
           else recv_iovec peek buf_len (recv_part peek buf_len r)
      else Some r)"
  by pat_completeness auto
termination
proof (relation "measures [\<lambda>(_, _, r). length (sr_messages r) - sr_at r, \<lambda>(_, len, r). len - length (sr_written r)]")
  fix peek len and r :: stream_recv
  assume "length (sr_written r) < len \<and> more_messages r" "\<not> length (um_buf (sr_messages r ! sr_at r)) < sr_stream_data_recv r"
  with recv_part_decreases[of r len peek]
  show "((peek, len, recv_part peek len r), (peek, len, r)) \<in> measures [\<lambda>(_, _, r). length (sr_messages r) - sr_at r, \<lambda>(_, len, r). len - length (sr_written r)]"
    by auto
qed simp

declare recv_iovec.simps [simp del]

fun recv_iovecs :: "bool \<Rightarrow> u32 list \<Rightarrow> stream_recv \<Rightarrow> (bytes list \<times> stream_recv) option" where
  "recv_iovecs peek [] r = Some ([], r)"
| "recv_iovecs peek (len # lens) r =
     (if more_messages r
      then do {
        r \<leftarrow> recv_iovec peek (unat len) (r\<lparr>sr_written := []\<rparr>);
        (data, r') \<leftarrow> recv_iovecs peek lens r;
        Some (sr_written r # data, r')
      }
      else Some ([], r))"

text \<open>
  The descriptors of the messages that were read: each round takes the list of the first message,
  which is empty after the first round unless the data are only looked at.
\<close>

fun recv_fd_rounds :: "bool \<Rightarrow> nat \<Rightarrow> nat \<Rightarrow> nat \<Rightarrow> unixsock_message list \<Rightarrow> nat list \<Rightarrow> bool \<Rightarrow> fd_table \<Rightarrow>
    (nat list \<times> bool \<times> unixsock_message list \<times> fd_table) option" where
  "recv_fd_rounds peek room 0 at ms nums truncated fds = Some (nums, truncated, ms, fds)"
| "recv_fd_rounds peek room (Suc k) at ms nums truncated fds =
     do {
       kassert (at < length ms);
       (nums, truncated, fds) \<leftarrow> recv_fds room (um_fd_list (hd ms)) nums truncated fds;
       recv_fd_rounds peek room k (at + 1) (if peek then ms else (hd ms)\<lparr>um_fd_list := []\<rparr> # tl ms) nums truncated fds
     }"

definition recv_stream :: "recv_in \<Rightarrow> unixsock \<Rightarrow> fd_table \<Rightarrow> (recv_out \<times> unixsock \<times> fd_table) option" where
  "recv_stream inp s fds =
     (case us_recv_messages s of
        [] \<Rightarrow> None
      | first # rest \<Rightarrow> do {
          (data, r) \<leftarrow> recv_iovecs (ri_peek inp) (ri_data inp)
             \<lparr>sr_messages = first # rest, sr_at = 0, sr_stream_data_recv = um_stream_data_recv first, sr_next_message_read = False,
              sr_fd_boundary = False, sr_written = []\<rparr>;
          (nums, truncated, ms, fds) \<leftarrow> recv_fd_rounds (ri_peek inp) (ri_fds_len inp)
             (sr_at r + (if sr_next_message_read r then 1 else 0)) 0 (sr_messages r) [] False fds;
          kassert (ri_peek inp \<or> sr_at r \<le> length ms);
          let ms = (if ri_peek inp then ms else drop (sr_at r) ms);
          let total = sum_list (map length data);
          Some (\<lparr>ro_data = data, ro_fds = nums, ro_data_truncated = False, ro_fds_truncated = truncated\<rparr>,
                s\<lparr>us_recv_messages := ms, us_num_recv_bytes := us_num_recv_bytes s - of_nat total\<rparr>, fds)
        })"

datatype recv_result = RecvWait | RecvDone errno recv_out

definition bytes_present :: "unixsock \<Rightarrow> u32" where
  "bytes_present s = (\<Sum>m \<leftarrow> us_recv_messages s. of_nat (length (um_buf m)) - of_nat (um_stream_data_recv m))"

definition unixsock_recv :: "nat \<Rightarrow> fd_table \<Rightarrow> recv_in \<Rightarrow> usocks \<Rightarrow> (recv_result \<times> fd_table \<times> usocks) option" where
  "unixsock_recv i fds inp w =
     do {
       s \<leftarrow> w i;
       if us_status s \<noteq> CONNECTED \<and> us_status s \<noteq> SHUTDOWN then Some (RecvDone ENOTCONN empty_recv, fds, w)
       else do {
         kassert (us_type s = FT_SOCKET_DGRAM \<or> us_type s = FT_SOCKET_STREAM);
         let waitall = (us_type s = FT_SOCKET_STREAM \<and> ri_waitall inp);
         let satisfied = (if waitall then bytes_present s \<ge> sum_list (ri_data inp) else us_recv_messages s \<noteq> []);
         if \<not> satisfied
         then (case othersock w s of
                 None \<Rightarrow> Some (RecvDone ESUCCESS empty_recv, fds, w)
               | Some other \<Rightarrow>
                   if us_status other = SHUTDOWN then Some (RecvDone ESUCCESS empty_recv, fds, w)
                   else do {
                     kassert (us_othersock other = Some i);
                     kassert (us_status other = CONNECTED \<or> us_status other = SHUTDOWN);
                     if us_nonblock s then Some (RecvDone EAGAIN empty_recv, fds, w) else Some (RecvWait, fds, w)
                   })
         else do {
           (out, s, fds) \<leftarrow> (if us_type s = FT_SOCKET_DGRAM then recv_dgram inp s fds else recv_stream inp s fds);
           Some (RecvDone ESUCCESS out, fds, w(i \<mapsto> s))
         }
       }
     }"

definition plain_recv :: "u32 \<Rightarrow> recv_in" where
  "plain_recv len = \<lparr>ri_data = [len], ri_fds_len = 0, ri_waitall = False, ri_peek = False\<rparr>"

definition unixsock_read :: "nat \<Rightarrow> fd_table \<Rightarrow> u32 \<Rightarrow> usocks \<Rightarrow> (recv_result \<times> fd_table \<times> usocks) option" where
  "unixsock_read i fds len w = unixsock_recv i fds (plain_recv len) w"

subsection \<open>System calls\<close>

text \<open>\<^verbatim>\<open>proc/syscall/sock_syscalls.cpp\<close>, for descriptors of socket pairs.\<close>

definition syscall_sock_recv :: "right_consts \<Rightarrow> u32 \<Rightarrow> recv_in \<Rightarrow> fd_table \<Rightarrow> usocks \<Rightarrow> (recv_result \<times> fd_table \<times> usocks) option" where
  "syscall_sock_recv R fdnum inp fds w =
     (case get_fd fds fdnum (R RIGHT_FD_READ) of
        Inl e \<Rightarrow> Some (RecvDone e empty_recv, fds, w)
      | Inr m \<Rightarrow> do { f \<leftarrow> map_fd m; unixsock_recv f fds inp w })"

definition syscall_sock_send :: "right_consts \<Rightarrow> u32 \<Rightarrow> bytes list \<Rightarrow> u32 list \<Rightarrow> fd_table \<Rightarrow> usocks \<Rightarrow> (errno \<times> u32 \<times> usocks) option" where
  "syscall_sock_send R fdnum si_data si_fds fds w =
     (case get_fd fds fdnum (R RIGHT_FD_WRITE) of
        Inl e \<Rightarrow> Some (e, 0, w)
      | Inr m \<Rightarrow> do { f \<leftarrow> map_fd m; unixsock_send f fds si_data si_fds w })"

definition syscall_sock_shutdown :: "right_consts \<Rightarrow> u32 \<Rightarrow> bool \<Rightarrow> bool \<Rightarrow> fd_table \<Rightarrow> usocks \<Rightarrow> (errno \<times> usocks) option" where
  "syscall_sock_shutdown R fdnum rd wr fds w =
     (case get_fd fds fdnum (R RIGHT_SOCK_SHUTDOWN) of
        Inl e \<Rightarrow> Some (e, w)
      | Inr m \<Rightarrow> do { f \<leftarrow> map_fd m; unixsock_shutdown f rd wr w })"

subsection \<open>What a receive takes from the messages\<close>

lemma veccpy_from_take: "veccpy_from n srcs = take n (concat srcs)"
  by (induction n srcs rule: veccpy_from.induct) (auto simp: Let_def min_def)

lemma veccpy_to_take: "concat (veccpy_to lens src) = take (sum_list (map unat lens)) src"
proof (induction lens src rule: veccpy_to.induct)
  case (2 len lens src)
  then show ?case
    by (cases "unat len \<le> length src") (auto simp: Let_def min_def take_add)
qed simp

lemma total_size_length: "total_size bs = of_nat (length (concat bs))"
  by (induction bs) auto

definition msg_ok :: "unixsock_message \<Rightarrow> bool" where
  "msg_ok m \<longleftrightarrow> um_stream_data_recv m \<le> length (um_buf m)"

definition content :: "unixsock_message list \<Rightarrow> bytes" where
  "content ms = concat (map (\<lambda>m. drop (um_stream_data_recv m) (um_buf m)) ms)"

lemma content_simps [simp]:
  "content [] = []" "content (m # ms) = drop (um_stream_data_recv m) (um_buf m) @ content ms" "content (ms @ ns) = content ms @ content ns"
  by (simp_all add: content_def)

text \<open>The state of a receive that takes data: the place in the current message is the one noted there.\<close>

definition recv_ok :: "stream_recv \<Rightarrow> bool" where
  "recv_ok r \<longleftrightarrow> list_all msg_ok (sr_messages r) \<and> sr_at r \<le> length (sr_messages r) \<and>
     (sr_at r < length (sr_messages r) \<longrightarrow> sr_stream_data_recv r = um_stream_data_recv (sr_messages r ! sr_at r)) \<and>
     (sr_next_message_read r \<longrightarrow> sr_at r < length (sr_messages r)) \<and>
     (sr_fd_boundary r \<longrightarrow> sr_at r < length (sr_messages r) \<and> um_fd_list (sr_messages r ! sr_at r) \<noteq> [])"

definition left :: "stream_recv \<Rightarrow> bytes" where
  "left r = content (drop (sr_at r) (sr_messages r))"

lemma left_split:
  "sr_at r < length (sr_messages r) \<Longrightarrow>
   left r = drop (um_stream_data_recv (sr_messages r ! sr_at r)) (um_buf (sr_messages r ! sr_at r)) @ content (drop (sr_at r + 1) (sr_messages r))"
  by (simp add: left_def Cons_nth_drop_Suc[symmetric])

lemma drop_part: "drop a xs = take c (drop a xs) @ drop (a + c) xs"
  using append_take_drop_id[of c "drop a xs"] by (simp add: add.commute)

lemma map_update_same: "i < length xs \<Longrightarrow> f y = f (xs ! i) \<Longrightarrow> map f (xs[i := y]) = map f xs"
  by (rule nth_equalityI) (auto simp: nth_list_update)

lemma copy_part_ok:
  assumes r: "recv_ok r" "more_messages r" "length (sr_written r) < len"
  shows "\<exists>d. sr_written (copy_part False len r) = sr_written r @ d \<and> left r = d @ left (copy_part False len r) \<and>
    length (sr_written r @ d) \<le> len \<and>
    (length (sr_written r @ d) = len \<or> sr_stream_data_recv (copy_part False len r) = length (um_buf (sr_messages r ! sr_at r))) \<and>
    recv_ok (copy_part False len r) \<and> sr_at (copy_part False len r) = sr_at r \<and>
    map um_fd_list (sr_messages (copy_part False len r)) = map um_fd_list (sr_messages r) \<and> sr_fd_boundary (copy_part False len r) = sr_fd_boundary r \<and>
    um_buf (sr_messages (copy_part False len r) ! sr_at r) = um_buf (sr_messages r ! sr_at r)"
proof -
  let ?m = "sr_messages r ! sr_at r"
  have at: "sr_at r < length (sr_messages r)" using r(2) by (simp add: more_messages_def)
  have sd: "sr_stream_data_recv r = um_stream_data_recv ?m" "um_stream_data_recv ?m \<le> length (um_buf ?m)"
    using r(1) at by (auto simp: recv_ok_def list_all_length msg_ok_def)
  show ?thesis
  proof (cases "length (um_buf ?m) = um_stream_data_recv ?m")
    case True
    then show ?thesis using r at sd by (intro exI[of _ "[]"]) (simp add: copy_part_def)
  next
    case False
    let ?c = "min (len - length (sr_written r)) (length (um_buf ?m) - um_stream_data_recv ?m)"
    let ?d = "take ?c (drop (um_stream_data_recv ?m) (um_buf ?m))"
    let ?m' = "?m\<lparr>um_stream_data_recv := um_stream_data_recv ?m + ?c\<rparr>"
    have c: "copy_part False len r = r\<lparr>sr_written := sr_written r @ ?d, sr_stream_data_recv := um_stream_data_recv ?m + ?c,
        sr_messages := (sr_messages r)[sr_at r := ?m'], sr_next_message_read := True\<rparr>"
      using False sd by (auto simp: copy_part_def Let_def)
    have "drop (um_stream_data_recv ?m) (um_buf ?m) = ?d @ drop (um_stream_data_recv ?m + ?c) (um_buf ?m)"
      by (rule drop_part)
    then have "left r = ?d @ left (copy_part False len r)"
      using at by (simp add: left_split c drop_update_cancel)
    moreover have "recv_ok (copy_part False len r)"
      using r(1) at sd by (auto simp: recv_ok_def c list_all_length msg_ok_def nth_list_update)
    moreover have "map um_fd_list ((sr_messages r)[sr_at r := ?m']) = map um_fd_list (sr_messages r)"
      by (rule map_update_same[OF at]) simp
    moreover have "length (sr_written r @ ?d) \<le> len" using r(3) by simp
    moreover have "length (sr_written r @ ?d) = len \<or> um_stream_data_recv ?m + ?c = length (um_buf ?m)" using r(3) sd(2) by (auto simp: min_def)
    ultimately show ?thesis using at by (intro exI[of _ ?d]) (simp add: c)
  qed
qed

lemma next_message_ok:
  assumes r: "recv_ok r" "sr_at r < length (sr_messages r)" and all: "um_stream_data_recv (sr_messages r ! sr_at r) = length (um_buf (sr_messages r ! sr_at r))"
  shows "recv_ok (next_message r)" "left (next_message r) = left r" "sr_written (next_message r) = sr_written r"
proof -
  show "recv_ok (next_message r)" using r by (simp add: recv_ok_def next_message_def Let_def)
  show "left (next_message r) = left r" using all by (simp add: left_split[OF r(2)]) (simp add: left_def)
  show "sr_written (next_message r) = sr_written r" by (simp add: next_message_def Let_def)
qed

lemma recv_part_ok:
  assumes r: "recv_ok r" "more_messages r" "length (sr_written r) < len"
  shows "\<exists>d. sr_written (recv_part False len r) = sr_written r @ d \<and> left r = d @ left (recv_part False len r) \<and>
    length (sr_written r @ d) \<le> len \<and> recv_ok (recv_part False len r) \<and>
    map um_fd_list (sr_messages (recv_part False len r)) = map um_fd_list (sr_messages r)"
proof -
  let ?r = "copy_part False len r"
  let ?b = "um_buf (sr_messages r ! sr_at r)"
  from copy_part_ok[OF r] obtain d where d: "sr_written ?r = sr_written r @ d" "left r = d @ left ?r" "length (sr_written r @ d) \<le> len"
    "recv_ok ?r" "map um_fd_list (sr_messages ?r) = map um_fd_list (sr_messages r)" "um_buf (sr_messages ?r ! sr_at r) = ?b" by blast
  show ?thesis
  proof (cases "length ?b = sr_stream_data_recv ?r")
    case True
    have at: "sr_at ?r < length (sr_messages ?r)" using r(2) by (simp add: more_messages_def)
    then have "um_stream_data_recv (sr_messages ?r ! sr_at ?r) = length (um_buf (sr_messages ?r ! sr_at ?r))"
      using d(4,6) True by (simp add: recv_ok_def)
    from next_message_ok[OF d(4) at this] d True show ?thesis by (intro exI[of _ d]) (simp add: recv_part_def)
  next
    case False
    with d show ?thesis by (intro exI[of _ d]) (simp add: recv_part_def)
  qed
qed

lemma recv_iovec_ok:
  "recv_ok r \<Longrightarrow> length (sr_written r) \<le> len \<Longrightarrow>
   \<exists>r' d. recv_iovec False len r = Some r' \<and> sr_written r' = sr_written r @ d \<and> left r = d @ left r' \<and> recv_ok r' \<and>
     length (sr_written r') \<le> len \<and> map um_fd_list (sr_messages r') = map um_fd_list (sr_messages r) \<and>
     (length (sr_written r') = len \<or> \<not> more_messages r')"
proof (induction False len r rule: recv_iovec.induct)
  case (1 len r)
  show ?case
  proof (cases "length (sr_written r) < len \<and> more_messages r")
    case True
    then have at: "sr_at r < length (sr_messages r)" by (simp add: more_messages_def)
    have nf: "\<not> length (um_buf (sr_messages r ! sr_at r)) < sr_stream_data_recv r"
      using 1(2) at by (auto simp: recv_ok_def list_all_length msg_ok_def)
    let ?r = "recv_part False len r"
    from recv_part_ok[of r len] 1(2) True obtain d where d: "sr_written ?r = sr_written r @ d" "left r = d @ left ?r"
      "length (sr_written r @ d) \<le> len" "recv_ok ?r" "map um_fd_list (sr_messages ?r) = map um_fd_list (sr_messages r)" by blast
    from 1(1)[OF True nf d(4)] d(1,3) obtain r' e where e: "recv_iovec False len ?r = Some r'" "sr_written r' = sr_written ?r @ e" "left ?r = e @ left r'"
      "recv_ok r'" "length (sr_written r') \<le> len" "map um_fd_list (sr_messages r') = map um_fd_list (sr_messages ?r)"
      "length (sr_written r') = len \<or> \<not> more_messages r'" by auto
    have "recv_iovec False len r = Some r'" using True nf e(1) by (subst recv_iovec.simps) simp
    with d e show ?thesis by (intro exI[of _ r'] exI[of _ "d @ e"]) simp
  next
    case False
    then have "recv_iovec False len r = Some r" by (subst recv_iovec.simps) (simp only: if_False)
    with False 1(2,3) show ?thesis by (intro exI[of _ r] exI[of _ "[]"]) auto
  qed
qed

lemma recv_iovecs_ok:
  "recv_ok r \<Longrightarrow>
   \<exists>data r'. recv_iovecs False lens r = Some (data, r') \<and> left r = concat data @ left r' \<and> recv_ok r' \<and>
     map um_fd_list (sr_messages r') = map um_fd_list (sr_messages r) \<and> length (concat data) \<le> sum_list (map unat lens) \<and>
     (length (concat data) = sum_list (map unat lens) \<or> \<not> more_messages r')"
proof (induction lens arbitrary: r)
  case Nil
  then show ?case by simp
next
  case (Cons len lens)
  show ?case
  proof (cases "more_messages r")
    case False
    with Cons.prems show ?thesis by (intro exI[of _ "[]"] exI[of _ r]) simp
  next
    case True
    let ?r = "r\<lparr>sr_written := []\<rparr>"
    have "recv_ok ?r" using Cons.prems by (simp add: recv_ok_def)
    from recv_iovec_ok[OF this, of "unat len"] obtain r1 d where r1: "recv_iovec False (unat len) ?r = Some r1" "sr_written r1 = d" "left ?r = d @ left r1"
      "recv_ok r1" "length d \<le> unat len" "map um_fd_list (sr_messages r1) = map um_fd_list (sr_messages r)" "length d = unat len \<or> \<not> more_messages r1" by auto
    from Cons.IH[OF r1(4)] obtain data r2 where r2: "recv_iovecs False lens r1 = Some (data, r2)" "left r1 = concat data @ left r2" "recv_ok r2"
      "map um_fd_list (sr_messages r2) = map um_fd_list (sr_messages r1)" "length (concat data) \<le> sum_list (map unat lens)"
      "length (concat data) = sum_list (map unat lens) \<or> \<not> more_messages r2" by blast
    have "\<not> more_messages r2" if "\<not> more_messages r1"
      using that r2(1) by (cases lens) auto
    with r1 r2 True show ?thesis by (intro exI[of _ "d # data"] exI[of _ r2]) (auto simp: left_def)
  qed
qed

text \<open>Descriptors in flight refer to objects.\<close>

definition fds_ok :: "unixsock_message list \<Rightarrow> bool" where
  "fds_ok ms \<longleftrightarrow> list_all (list_all (\<lambda>f. map_fd f \<noteq> None)) (map um_fd_list ms)"

definition no_fds :: "unixsock_message list \<Rightarrow> bool" where
  "no_fds ms \<longleftrightarrow> list_all (\<lambda>fs. fs = []) (map um_fd_list ms)"

lemma recv_fds_returns:
  "list_all (\<lambda>f. map_fd f \<noteq> None) ms \<Longrightarrow> \<exists>nums' truncated' fds'. recv_fds room ms nums truncated fds = Some (nums', truncated', fds')"
proof (induction room ms nums truncated fds rule: recv_fds.induct)
  case (2 room m ms nums truncated fds)
  then obtain f where f: "map_fd m = Some f" by auto
  with add_fd_correct[of fds f "rights_base m" "rights_inheriting m"] 2 show ?case by (auto simp: f)
qed simp

lemma recv_fd_rounds_ok:
  assumes "at + k \<le> length ms" "fds_ok ms"
  shows "\<exists>nums' truncated' ms' fds'. recv_fd_rounds False room k at ms nums truncated fds = Some (nums', truncated', ms', fds') \<and>
    length ms' = length ms \<and> map um_buf ms' = map um_buf ms \<and> map um_stream_data_recv ms' = map um_stream_data_recv ms \<and> fds_ok ms' \<and>
    (no_fds ms \<longrightarrow> no_fds ms')"
  using assms
proof (induction k arbitrary: at ms nums truncated fds)
  case 0
  then show ?case by simp
next
  case (Suc k)
  then obtain m rest where ms: "ms = m # rest" by (cases ms) auto
  with Suc.prems(2) have "list_all (\<lambda>f. map_fd f \<noteq> None) (um_fd_list m)" by (simp add: fds_ok_def)
  from recv_fds_returns[OF this, of room nums truncated fds] obtain n1 t1 f1 where r: "recv_fds room (um_fd_list m) nums truncated fds = Some (n1, t1, f1)" by blast
  let ?ms = "m\<lparr>um_fd_list := []\<rparr> # rest"
  have p: "at + 1 + k \<le> length ?ms" "fds_ok ?ms" using Suc.prems ms by (simp_all add: fds_ok_def)
  have "no_fds ms \<Longrightarrow> no_fds ?ms" using ms by (simp add: no_fds_def)
  with Suc.IH[OF p, of n1 t1 f1] r ms Suc.prems(1) show ?case by (auto simp: Let_def)
qed

lemma content_alt: "content ms = concat (map2 drop (map um_stream_data_recv ms) (map um_buf ms))"
  by (induction ms) simp_all

lemma msgs_ok_alt: "list_all msg_ok ms = list_all2 (\<lambda>d b. d \<le> length b) (map um_stream_data_recv ms) (map um_buf ms)"
  by (induction ms) (simp_all add: msg_ok_def)

lemma msgs_drop:
  "fds_ok ms \<Longrightarrow> fds_ok (drop n ms)" "no_fds ms \<Longrightarrow> no_fds (drop n ms)" "list_all msg_ok ms \<Longrightarrow> list_all msg_ok (drop n ms)"
  by (auto simp: fds_ok_def no_fds_def list_all_iff dest: in_set_dropD)

lemma recv_stream_ok:
  assumes s: "us_recv_messages s \<noteq> []" "list_all msg_ok (us_recv_messages s)" "fds_ok (us_recv_messages s)" and peek: "\<not> ri_peek inp"
  shows "\<exists>out s' fds'. recv_stream inp s fds = Some (out, s', fds') \<and> content (us_recv_messages s) = concat (ro_data out) @ content (us_recv_messages s') \<and>
    s' = s\<lparr>us_recv_messages := us_recv_messages s', us_num_recv_bytes := us_num_recv_bytes s - of_nat (length (concat (ro_data out)))\<rparr> \<and>
    list_all msg_ok (us_recv_messages s') \<and> fds_ok (us_recv_messages s') \<and>
    length (concat (ro_data out)) \<le> sum_list (map unat (ri_data inp)) \<and>
    (no_fds (us_recv_messages s) \<longrightarrow>
       no_fds (us_recv_messages s') \<and> concat (ro_data out) = take (sum_list (map unat (ri_data inp))) (content (us_recv_messages s)))"
proof -
  obtain first rest where ms: "us_recv_messages s = first # rest" using s(1) by (cases "us_recv_messages s") auto
  define r0 where "r0 = \<lparr>sr_messages = first # rest, sr_at = 0, sr_stream_data_recv = um_stream_data_recv first, sr_next_message_read = False,
     sr_fd_boundary = False, sr_written = []\<rparr>"
  have r0: "recv_ok r0" "left r0 = content (first # rest)" using s(2) ms by (simp_all add: r0_def recv_ok_def left_def)
  from recv_iovecs_ok[OF r0(1), of "ri_data inp"] obtain data r where r: "recv_iovecs False (ri_data inp) r0 = Some (data, r)"
    "left r0 = concat data @ left r" "recv_ok r" "map um_fd_list (sr_messages r) = map um_fd_list (sr_messages r0)"
    "length (concat data) \<le> sum_list (map unat (ri_data inp))" "length (concat data) = sum_list (map unat (ri_data inp)) \<or> \<not> more_messages r" by blast
  let ?k = "sr_at r + (if sr_next_message_read r then 1 else 0)"
  have k: "0 + ?k \<le> length (sr_messages r)" using r(3) by (auto simp: recv_ok_def)
  have "fds_ok (sr_messages r)" using s(3) ms r(4) by (simp add: fds_ok_def r0_def)
  from recv_fd_rounds_ok[OF k this, of "ri_fds_len inp" "[]" False fds] obtain nums truncated ms' fds' where
    f: "recv_fd_rounds False (ri_fds_len inp) ?k 0 (sr_messages r) [] False fds = Some (nums, truncated, ms', fds')"
    "length ms' = length (sr_messages r)" "map um_buf ms' = map um_buf (sr_messages r)" "map um_stream_data_recv ms' = map um_stream_data_recv (sr_messages r)"
    "fds_ok ms'" "no_fds (sr_messages r) \<Longrightarrow> no_fds ms'" by blast
  have at: "sr_at r \<le> length ms'" using r(3) f(2) by (simp add: recv_ok_def)
  let ?out = "\<lparr>ro_data = data, ro_fds = nums, ro_data_truncated = False, ro_fds_truncated = truncated\<rparr>"
  let ?s = "s\<lparr>us_recv_messages := drop (sr_at r) ms', us_num_recv_bytes := us_num_recv_bytes s - of_nat (sum_list (map length data))\<rparr>"
  have "recv_stream inp s fds = Some (?out, ?s, fds')"
    using r(1) f(1) at peek by (simp add: recv_stream_def ms r0_def Let_def)
  moreover have "content (drop (sr_at r) ms') = left r"
    unfolding left_def content_alt using f(3,4) by (simp add: drop_map[symmetric])
  moreover have "list_all msg_ok ms'" using r(3) f(3,4) by (simp add: recv_ok_def msgs_ok_alt)
  moreover have "no_fds (drop (sr_at r) ms') \<and> concat data = take (sum_list (map unat (ri_data inp))) (left r0)" if n: "no_fds (us_recv_messages s)"
  proof -
    have nr: "no_fds (sr_messages r)" using n ms r(4) by (simp add: no_fds_def r0_def)
    have "left r = []" if "\<not> more_messages r"
    proof -
      have "\<not> sr_fd_boundary r" using r(3) nr by (auto simp: recv_ok_def no_fds_def list_all_length)
      with that show ?thesis by (simp add: more_messages_def left_def)
    qed
    with r(2,5,6) have "concat data = take (sum_list (map unat (ri_data inp))) (left r0)" by auto
    with msgs_drop(2)[OF f(6)[OF nr]] show ?thesis by simp
  qed
  moreover have "length (concat data) = sum_list (map length data)" by (simp add: length_concat)
  ultimately show ?thesis using r0(2) r(2,5) ms msgs_drop(1)[OF f(5)] msgs_drop(3)
    by (intro exI[of _ ?out] exI[of _ ?s] exI[of _ fds']) simp
qed

subsection \<open>A socket pair is two queues of bytes\<close>

text \<open>
  The contract of a two-way channel. \<open>incoming e s\<close> is what end \<open>e\<close> can still receive. A send takes some
  first part of the data and a receive gives the oldest bytes; nothing else changes.
\<close>

datatype channel_event = Send bool bytes | Recv bool u32

fun channel_run :: "(bool \<Rightarrow> bytes \<Rightarrow> 's \<Rightarrow> (bytes \<times> 's) option) \<Rightarrow> (bool \<Rightarrow> u32 \<Rightarrow> 's \<Rightarrow> (bytes \<times> 's) option) \<Rightarrow> channel_event list \<Rightarrow>
    (bool \<Rightarrow> bytes) \<Rightarrow> (bool \<Rightarrow> bytes) \<Rightarrow> 's \<Rightarrow> ((bool \<Rightarrow> bytes) \<times> (bool \<Rightarrow> bytes) \<times> 's) option" where
  "channel_run send recv [] sent received s = Some (sent, received, s)"
| "channel_run send recv (Send e xs # es) sent received s =
     do { (ys, s) \<leftarrow> send e xs s; channel_run send recv es (sent(e := sent e @ ys)) received s }"
| "channel_run send recv (Recv e n # es) sent received s =
     do { (ys, s) \<leftarrow> recv e n s; channel_run send recv es sent (received(e := received e @ ys)) s }"

fun event_fits :: "nat \<Rightarrow> channel_event \<Rightarrow> bool" where
  "event_fits limit (Send e xs) = (length xs \<le> limit)"
| "event_fits limit (Recv e n) = True"

locale channel =
  fixes ok :: "'s \<Rightarrow> bool"
    and incoming :: "bool \<Rightarrow> 's \<Rightarrow> bytes"
    and send :: "bool \<Rightarrow> bytes \<Rightarrow> 's \<Rightarrow> (bytes \<times> 's) option"
    and recv :: "bool \<Rightarrow> u32 \<Rightarrow> 's \<Rightarrow> (bytes \<times> 's) option"
    and limit :: nat
  assumes send_law: "ok s \<Longrightarrow> length xs \<le> limit \<Longrightarrow> \<exists>ys s'. send e xs s = Some (ys, s') \<and> ok s' \<and> prefix ys xs \<and>
      incoming (\<not> e) s' = incoming (\<not> e) s @ ys \<and> incoming e s' = incoming e s"
    and recv_law: "ok s \<Longrightarrow> \<exists>s'. recv e n s = Some (take (unat n) (incoming e s), s') \<and> ok s' \<and>
      incoming e s' = drop (unat n) (incoming e s) \<and> incoming (\<not> e) s' = incoming (\<not> e) s"
begin

lemma channel_fifo:
  assumes "ok s" "list_all (event_fits limit) es" "\<And>e. received e @ incoming e s = sent (\<not> e)"
  shows "\<exists>sent' received' s'. channel_run send recv es sent received s = Some (sent', received', s') \<and> ok s' \<and>
    (\<forall>e. received' e @ incoming e s' = sent' (\<not> e))"
  using assms
proof (induction es arbitrary: sent received s)
  case Nil
  then show ?case by simp
next
  case (Cons ev es)
  show ?case
  proof (cases ev)
    case (Send e xs)
    with Cons.prems(2) have "length xs \<le> limit" by simp
    from send_law[OF Cons.prems(1) this, of e] obtain ys s1 where s1: "send e xs s = Some (ys, s1)" "ok s1"
      "incoming (\<not> e) s1 = incoming (\<not> e) s @ ys" "incoming e s1 = incoming e s" by blast
    have "received d @ incoming d s1 = (sent(e := sent e @ ys)) (\<not> d)" for d
      using Cons.prems(3)[of d] s1 by (cases "d = e") (auto simp flip: append_assoc)
    from Cons.IH[OF s1(2) _ this] Cons.prems(2) s1(1) Send show ?thesis by (simp add: fun_upd_def)
  next
    case (Recv e n)
    from recv_law[OF Cons.prems(1), of e n] obtain s1 where s1: "recv e n s = Some (take (unat n) (incoming e s), s1)" "ok s1"
      "incoming e s1 = drop (unat n) (incoming e s)" "incoming (\<not> e) s1 = incoming (\<not> e) s" by blast
    have "(received(e := received e @ take (unat n) (incoming e s))) d @ incoming d s1 = sent (\<not> d)" for d
      using Cons.prems(3)[of d] s1 by (cases "d = e") auto
    from Cons.IH[OF s1(2) _ this] Cons.prems(2) s1(1) Recv show ?thesis by (simp add: fun_upd_def)
  qed
qed

end

text \<open>The ends of a connected pair of stream sockets that no descriptors are sent over.\<close>

definition end_ok :: "nat \<Rightarrow> nat \<Rightarrow> usocks \<Rightarrow> bool" where
  "end_ok i j w \<longleftrightarrow> (case w i of None \<Rightarrow> False | Some s \<Rightarrow>
     us_type s = FT_SOCKET_STREAM \<and> us_status s = CONNECTED \<and> us_othersock s = Some j \<and>
     list_all msg_ok (us_recv_messages s) \<and> no_fds (us_recv_messages s) \<and>
     unat (us_num_recv_bytes s) = length (content (us_recv_messages s)) \<and> us_num_recv_bytes s \<le> MAX_SIZE_BUFFERS)"

definition pair_ok :: "nat \<Rightarrow> nat \<Rightarrow> usocks \<Rightarrow> bool" where
  "pair_ok i j w \<longleftrightarrow> i \<noteq> j \<and> end_ok i j w \<and> end_ok j i w"

definition to_receive :: "nat \<Rightarrow> usocks \<Rightarrow> bytes" where
  "to_receive i w = (case w i of None \<Rightarrow> [] | Some s \<Rightarrow> content (us_recv_messages s))"

definition pair_send :: "nat \<Rightarrow> nat \<Rightarrow> fd_table \<Rightarrow> bool \<Rightarrow> bytes \<Rightarrow> usocks \<Rightarrow> (bytes \<times> usocks) option" where
  "pair_send i j fds e xs w =
     do { (err, n, w) \<leftarrow> unixsock_write (if e then i else j) fds xs w; Some (take (unat n) xs, w) }"

definition pair_recv :: "nat \<Rightarrow> nat \<Rightarrow> fd_table \<Rightarrow> bool \<Rightarrow> u32 \<Rightarrow> usocks \<Rightarrow> (bytes \<times> usocks) option" where
  "pair_recv i j fds e n w =
     do { (r, fds, w) \<leftarrow> unixsock_read (if e then i else j) fds n w;
          Some (case r of RecvWait \<Rightarrow> [] | RecvDone err out \<Rightarrow> concat (ro_data out), w) }"

lemma pair_ok_sym: "pair_ok i j w = pair_ok j i w"
  by (auto simp: pair_ok_def)

lemma no_fds_ok: "no_fds ms \<Longrightarrow> fds_ok ms"
  by (auto simp: no_fds_def fds_ok_def list_all_iff)

lemma word_sub_nat: "k \<le> unat (a :: u32) \<Longrightarrow> unat (a - of_nat k) = unat a - k"
proof -
  assume k: "k \<le> unat a"
  have "k < 2 ^ LENGTH(32)" by (rule le_less_trans[OF k unsigned_less])
  then have "unat (of_nat k :: u32) = k" by (simp add: unat_of_nat)
  with k show ?thesis by (simp add: unat_sub word_le_nat_alt)
qed

lemma write_ok:
  assumes p: "pair_ok i j w" and xs: "length xs \<le> 0xc0000000"
  shows "\<exists>err n w'. unixsock_write i fds xs w = Some (err, n, w') \<and> pair_ok i j w' \<and>
    to_receive j w' = to_receive j w @ take (unat n) xs \<and> to_receive i w' = to_receive i w"
proof -
  from p obtain s t where s: "w i = Some s" "us_status s = CONNECTED" "us_othersock s = Some j" "us_type s = FT_SOCKET_STREAM" "i \<noteq> j"
    and t: "w j = Some t" "us_type t = FT_SOCKET_STREAM" "us_status t = CONNECTED" "us_othersock t = Some i" "list_all msg_ok (us_recv_messages t)"
      "no_fds (us_recv_messages t)" "unat (us_num_recv_bytes t) = length (content (us_recv_messages t))" "us_num_recv_bytes t \<le> MAX_SIZE_BUFFERS"
    by (auto simp: pair_ok_def end_ok_def split: option.splits)
  have o: "othersock w s = Some t" "othersock w t = Some s" using s t by (simp_all add: othersock_def)
  show ?thesis
  proof (cases "us_num_recv_bytes t = MAX_SIZE_BUFFERS")
    case True
    then have "unixsock_write i fds xs w = Some (EAGAIN, 0, w)"
      using s o by (simp add: unixsock_write_def unixsock_send_def is_writeable_def)
    with p show ?thesis by simp
  next
    case False
    define n where "n = us_num_recv_bytes t"
    define total where "total = (if of_nat (length xs) + n > MAX_SIZE_BUFFERS then MAX_SIZE_BUFFERS - n else of_nat (length xs))"
    have un: "unat n \<le> 1048576" using t(8) by (simp add: n_def MAX_SIZE_BUFFERS_def word_le_nat_alt)
    have ux: "unat (of_nat (length xs) :: u32) = length xs" using xs by (simp add: unat_of_nat)
    have sum: "unat (of_nat (length xs) + n) = length xs + unat n" using xs un by (simp add: unat_word_ariths ux)
    have ut: "unat total = min (length xs) (1048576 - unat n)"
      using un xs sum ux by (auto simp: total_def word_less_nat_alt MAX_SIZE_BUFFERS_def unat_sub word_le_nat_alt min_def)
    let ?m = "\<lparr>um_buf = take (unat total) xs, um_stream_data_recv = 0, um_fd_list = []\<rparr>"
    let ?t = "t\<lparr>us_recv_messages := us_recv_messages t @ [?m], us_num_recv_bytes := n + total\<rparr>"
    have un': "unat (n + total) = unat n + unat total" using ut un by (simp add: unat_word_ariths)
    then have le: "n + total \<le> MAX_SIZE_BUFFERS" using ut un by (simp add: word_le_nat_alt MAX_SIZE_BUFFERS_def)
    have "length (take (unat total) xs) = unat total" using ut by simp
    then have len: "of_nat (length (take (unat total) xs)) = total" by (simp only: of_nat_unat ucast_id)
    have e: "(if total_size [xs] + us_num_recv_bytes t > MAX_SIZE_BUFFERS then MAX_SIZE_BUFFERS - us_num_recv_bytes t else total_size [xs]) = total"
      by (simp add: total_def n_def)
    have "unixsock_write i fds xs w = Some (ESUCCESS, total, w(j \<mapsto> ?t))"
      unfolding unixsock_write_def unixsock_send_def s(1) bind.bind_lunit o(1) Let_def e
      using s o False t(8) le len by (simp add: is_writeable_def veccpy_from_take n_def)
    moreover have "pair_ok i j (w(j \<mapsto> ?t))"
      using p s t le un' ut by (auto simp: pair_ok_def end_ok_def msg_ok_def no_fds_def n_def[symmetric])
    ultimately show ?thesis using s t by (simp add: to_receive_def)
  qed
qed

lemma read_ok:
  assumes p: "pair_ok i j w"
  shows "\<exists>r fds' w'. unixsock_read i fds n w = Some (r, fds', w') \<and> pair_ok i j w' \<and>
    (case r of RecvWait \<Rightarrow> [] | RecvDone err out \<Rightarrow> concat (ro_data out)) = take (unat n) (to_receive i w) \<and>
    to_receive i w' = drop (unat n) (to_receive i w) \<and> to_receive j w' = to_receive j w"
proof -
  from p obtain s t where s: "w i = Some s" "us_status s = CONNECTED" "us_othersock s = Some j" "us_type s = FT_SOCKET_STREAM" "i \<noteq> j"
      "list_all msg_ok (us_recv_messages s)" "no_fds (us_recv_messages s)" "unat (us_num_recv_bytes s) = length (content (us_recv_messages s))"
      "us_num_recv_bytes s \<le> MAX_SIZE_BUFFERS"
    and t: "w j = Some t" "us_status t = CONNECTED" "us_othersock t = Some i"
    by (auto simp: pair_ok_def end_ok_def split: option.splits)
  have o: "othersock w s = Some t" using s t by (simp add: othersock_def)
  show ?thesis
  proof (cases "us_recv_messages s = []")
    case True
    then have "unixsock_read i fds n w = Some (if us_nonblock s then RecvDone EAGAIN empty_recv else RecvWait, fds, w)"
      using s o t by (simp add: unixsock_read_def plain_recv_def unixsock_recv_def)
    with p True s show ?thesis by (simp add: to_receive_def empty_recv_def)
  next
    case False
    have pk: "\<not> ri_peek (plain_recv n)" "sum_list (map unat (ri_data (plain_recv n))) = unat n" by (simp_all add: plain_recv_def)
    from recv_stream_ok[OF False s(6) no_fds_ok[OF s(7)] pk(1), of fds, unfolded pk(2)] s(7) obtain out s' fds' where
      r: "recv_stream (plain_recv n) s fds = Some (out, s', fds')" "content (us_recv_messages s) = concat (ro_data out) @ content (us_recv_messages s')"
        "s' = s\<lparr>us_recv_messages := us_recv_messages s', us_num_recv_bytes := us_num_recv_bytes s - of_nat (length (concat (ro_data out)))\<rparr>"
        "list_all msg_ok (us_recv_messages s')" "no_fds (us_recv_messages s')" "concat (ro_data out) = take (unat n) (content (us_recv_messages s))"
      by blast
    let ?c = "content (us_recv_messages s)"
    have c': "content (us_recv_messages s') = drop (unat n) ?c" using r(2,6) by (metis append_take_drop_id same_append_eq)
    have le: "length (concat (ro_data out)) \<le> unat (us_num_recv_bytes s)" using s(8) r(2) by simp
    have "us_num_recv_bytes s' = us_num_recv_bytes s - of_nat (length (concat (ro_data out)))" by (subst r(3)) simp
    with word_sub_nat[OF le] have num: "unat (us_num_recv_bytes s') = unat (us_num_recv_bytes s) - length (concat (ro_data out))" by simp
    have f: "us_status s' = CONNECTED" "us_othersock s' = Some j" "us_type s' = FT_SOCKET_STREAM" using s by (subst r(3), simp)+
    have "unixsock_read i fds n w = Some (RecvDone ESUCCESS out, fds', w(i \<mapsto> s'))"
      using s r(1) False by (simp add: unixsock_read_def unixsock_recv_def) (simp add: plain_recv_def)
    moreover have "pair_ok i j (w(i \<mapsto> s'))"
      using p s f num r(2,4,5) by (auto simp: pair_ok_def end_ok_def word_le_nat_alt)
    ultimately show ?thesis using s t r(6) c' by (simp add: to_receive_def)
  qed
qed

interpretation us: channel "pair_ok i j" "\<lambda>e. to_receive (if e then i else j)" "pair_send i j fds" "pair_recv i j fds" "0xc0000000" for i j fds
proof
  fix w e and xs :: bytes
  assume "pair_ok i j w" "length xs \<le> 0xc0000000"
  then have "\<exists>err n w'. unixsock_write (if e then i else j) fds xs w = Some (err, n, w') \<and> pair_ok i j w' \<and>
      to_receive (if \<not> e then i else j) w' = to_receive (if \<not> e then i else j) w @ take (unat n) xs \<and>
      to_receive (if e then i else j) w' = to_receive (if e then i else j) w"
    using write_ok[of i j w xs fds] write_ok[of j i w xs fds] by (cases e) (auto simp: pair_ok_sym[of j i])
  then show "\<exists>ys s'. pair_send i j fds e xs w = Some (ys, s') \<and> pair_ok i j s' \<and> prefix ys xs \<and>
      to_receive (if \<not> e then i else j) s' = to_receive (if \<not> e then i else j) w @ ys \<and>
      to_receive (if e then i else j) s' = to_receive (if e then i else j) w"
    by (force simp: pair_send_def take_is_prefix)
next
  fix w e and n :: u32
  assume "pair_ok i j w"
  then have "\<exists>r fds' w'. unixsock_read (if e then i else j) fds n w = Some (r, fds', w') \<and> pair_ok i j w' \<and>
      (case r of RecvWait \<Rightarrow> [] | RecvDone err out \<Rightarrow> concat (ro_data out)) = take (unat n) (to_receive (if e then i else j) w) \<and>
      to_receive (if e then i else j) w' = drop (unat n) (to_receive (if e then i else j) w) \<and>
      to_receive (if \<not> e then i else j) w' = to_receive (if \<not> e then i else j) w"
    using read_ok[of i j w fds n] read_ok[of j i w fds n] by (cases e) (auto simp: pair_ok_sym[of j i])
  then show "\<exists>s'. pair_recv i j fds e n w = Some (take (unat n) (to_receive (if e then i else j) w), s') \<and> pair_ok i j s' \<and>
      to_receive (if e then i else j) s' = drop (unat n) (to_receive (if e then i else j) w) \<and>
      to_receive (if \<not> e then i else j) s' = to_receive (if \<not> e then i else j) w"
    by (auto simp: pair_recv_def)
qed


definition sample_socks :: usocks where
  "sample_socks = (\<lambda>_. None)(0 \<mapsto> new_unixsock FT_SOCKET_STREAM False, 1 \<mapsto> new_unixsock FT_SOCKET_STREAM True)"


subsection \<open>Calls that halt the kernel\<close>

definition peek_recv :: "u32 \<Rightarrow> recv_in" where
  "peek_recv len = \<lparr>ri_data = [len], ri_fds_len = 0, ri_waitall = False, ri_peek = True\<rparr>"

lemma recv_one:
  assumes "us_recv_messages s = [\<lparr>um_buf = xs, um_stream_data_recv = 0, um_fd_list = []\<rparr>]" "unat n = length xs" "xs \<noteq> []"
  shows "recv_stream \<lparr>ri_data = [n], ri_fds_len = 0, ri_waitall = False, ri_peek = peek\<rparr> s fds =
    Some (\<lparr>ro_data = [xs], ro_fds = [], ro_data_truncated = False, ro_fds_truncated = False\<rparr>,
      s\<lparr>us_recv_messages := (if peek then us_recv_messages s else []), us_num_recv_bytes := us_num_recv_bytes s - of_nat (length xs)\<rparr>, fds)"
proof -
  let ?m = "\<lparr>um_buf = xs, um_stream_data_recv = 0, um_fd_list = []\<rparr>"
  let ?r = "\<lparr>sr_messages = [?m], sr_at = 0, sr_stream_data_recv = 0, sr_next_message_read = False, sr_fd_boundary = False, sr_written = []\<rparr>"
  let ?r' = "\<lparr>sr_messages = [?m\<lparr>um_stream_data_recv := if peek then 0 else length xs\<rparr>], sr_at = 1, sr_stream_data_recv = length xs,
     sr_next_message_read = False, sr_fd_boundary = False, sr_written = xs\<rparr>"
  have p: "recv_part peek (length xs) ?r = ?r'" using assms(3) by (simp add: recv_part_def copy_part_def next_message_def Let_def)
  have e: "recv_iovec peek (length xs) ?r' = Some ?r'" by (subst recv_iovec.simps) simp
  have "recv_iovec peek (length xs) ?r = Some ?r'"
    using p e assms(3) by (subst recv_iovec.simps) (simp add: more_messages_def)
  then have "recv_iovecs peek [n] ?r = Some ([xs], ?r')" using assms(2) by (simp add: more_messages_def)
  then show ?thesis using assms(1) by (simp add: recv_stream_def)
qed

lemma peek_panics:
  assumes w: "w i = Some s" "us_recv_messages s = []" and s: "us_status s = CONNECTED" "us_othersock s = Some j" "us_type s = FT_SOCKET_STREAM" "i \<noteq> j" "us_num_recv_bytes s = 0"
    and t: "w j = Some t" "us_type t = FT_SOCKET_STREAM" "us_status t = CONNECTED" "us_othersock t = Some i" and xs: "0 < length xs" "length xs \<le> 1048576"
  shows "\<exists>w1 w2 w3 r2 r3. unixsock_write j fds xs w = Some (ESUCCESS, of_nat (length xs), w1) \<and>
    unixsock_recv i fds (peek_recv (of_nat (length xs))) w1 = Some (r2, fds, w2) \<and>
    unixsock_read i fds (of_nat (length xs)) w2 = Some (r3, fds, w3) \<and> unixsock_write j fds ys w3 = None"
proof -
  let ?n = "of_nat (length xs) :: u32"
  have n: "unat ?n = length xs" using xs(2) by (simp add: unat_of_nat)
  let ?m = "\<lparr>um_buf = xs, um_stream_data_recv = 0, um_fd_list = []\<rparr>"
  let ?s1 = "s\<lparr>us_recv_messages := [?m], us_num_recv_bytes := ?n\<rparr>"
  let ?s2 = "?s1\<lparr>us_num_recv_bytes := 0\<rparr>"
  let ?s3 = "?s1\<lparr>us_recv_messages := [], us_num_recv_bytes := - ?n\<rparr>"
  have ne: "xs \<noteq> []" using xs(1) by auto
  have le: "?n \<le> MAX_SIZE_BUFFERS" using xs(2) n by (simp add: word_le_nat_alt MAX_SIZE_BUFFERS_def)
  have nl: "\<not> 1048576 < ?n" using le by (simp add: MAX_SIZE_BUFFERS_def linorder_not_less)
  have wr: "unixsock_write j fds xs w = Some (ESUCCESS, ?n, w(i \<mapsto> ?s1))"
    using w s t le n nl by (simp add: unixsock_write_def unixsock_send_def othersock_def is_writeable_def veccpy_from_take Let_def MAX_SIZE_BUFFERS_def)
  have "unixsock_recv i fds (peek_recv ?n) (w(i \<mapsto> ?s1)) = Some (RecvDone ESUCCESS \<lparr>ro_data = [xs], ro_fds = [], ro_data_truncated = False, ro_fds_truncated = False\<rparr>, fds, w(i \<mapsto> ?s2))"
    using s recv_one[of ?s1 xs ?n True fds] n ne by (simp add: unixsock_recv_def peek_recv_def)
  moreover have "unixsock_read i fds ?n (w(i \<mapsto> ?s2)) = Some (RecvDone ESUCCESS \<lparr>ro_data = [xs], ro_fds = [], ro_data_truncated = False, ro_fds_truncated = False\<rparr>, fds, w(i \<mapsto> ?s3))"
    using s recv_one[of ?s2 xs ?n False fds] n ne by (simp add: unixsock_read_def unixsock_recv_def plain_recv_def)
  moreover have "unixsock_write j fds ys (w(i \<mapsto> ?s3)) = None"
  proof -
    have "\<not> - ?n \<le> MAX_SIZE_BUFFERS"
    proof
      assume "- ?n \<le> MAX_SIZE_BUFFERS"
      then have "unat (- ?n) \<le> 1048576" by (simp add: word_le_nat_alt MAX_SIZE_BUFFERS_def)
      with n xs(2) have "(unat (- ?n) + unat ?n) mod 2 ^ LENGTH(32) = unat (- ?n) + length xs" by simp
      moreover have "(unat (- ?n) + unat ?n) mod 2 ^ LENGTH(32) = unat (- ?n + ?n)" by (simp only: unat_word_ariths)
      ultimately show False using xs(1) by simp
    qed
    then show ?thesis using s t by (simp add: unixsock_write_def unixsock_send_def othersock_def is_writeable_def)
  qed
  ultimately show ?thesis using wr by blast
qed

text \<open>
  C38: Three ways for a process to halt the kernel with a pair of stream sockets: sending to a socket
  whose other end was shut down and then closed; waiting for all data of an empty list of buffers;
  and looking at data before reading them, which counts them as read twice.
\<close>
theorem unixsock_calls_panic:
  assumes "pair_ok i j w" "w i = Some s" "us_recv_messages s = []" "0 < length xs" "length xs \<le> 1048576"
  shows "(\<exists>w1 w2. unixsock_shutdown i False True w = Some (ESUCCESS, w1) \<and> unixsock_destroy i w1 = Some w2 \<and> unixsock_write j fds ys w2 = None) \<and>
    unixsock_recv i fds \<lparr>ri_data = [], ri_fds_len = 0, ri_waitall = True, ri_peek = False\<rparr> w = None \<and>
    (\<exists>w1 w2 w3 r2 r3. unixsock_write j fds xs w = Some (ESUCCESS, of_nat (length xs), w1) \<and>
       unixsock_recv i fds (peek_recv (of_nat (length xs))) w1 = Some (r2, fds, w2) \<and>
       unixsock_read i fds (of_nat (length xs)) w2 = Some (r3, fds, w3) \<and> unixsock_write j fds ys w3 = None)"
proof -
  from assms(1,2) obtain t where s: "us_status s = CONNECTED" "us_othersock s = Some j" "us_type s = FT_SOCKET_STREAM" "i \<noteq> j" "us_num_recv_bytes s = 0"
    and t: "w j = Some t" "us_type t = FT_SOCKET_STREAM" "us_status t = CONNECTED" "us_othersock t = Some i"
    using assms(3) by (auto simp: pair_ok_def end_ok_def unat_eq_zero split: option.splits)
  have "\<exists>w1 w2. unixsock_shutdown i False True w = Some (ESUCCESS, w1) \<and> unixsock_destroy i w1 = Some w2 \<and> unixsock_write j fds ys w2 = None"
    using assms(2) s t by (simp add: unixsock_shutdown_def shutdown_wr_def unixsock_destroy_def unixsock_write_def unixsock_send_def othersock_def)
  moreover have "unixsock_recv i fds \<lparr>ri_data = [], ri_fds_len = 0, ri_waitall = True, ri_peek = False\<rparr> w = None"
    using assms(2,3) s by (simp add: unixsock_recv_def recv_stream_def)
  moreover have "\<exists>w1 w2 w3 r2 r3. unixsock_write j fds xs w = Some (ESUCCESS, of_nat (length xs), w1) \<and>
       unixsock_recv i fds (peek_recv (of_nat (length xs))) w1 = Some (r2, fds, w2) \<and>
       unixsock_read i fds (of_nat (length xs)) w2 = Some (r3, fds, w3) \<and> unixsock_write j fds ys w3 = None"
    by (rule peek_panics[OF assms(2,3) s t assms(4,5)])
  ultimately show ?thesis by blast
qed

definition sample_pair :: usocks where "sample_pair = the (socketpair 0 1 sample_socks)"

theorem unixsock_calls_panic_witness:
  "unixsock_recv 0 [] \<lparr>ri_data = [], ri_fds_len = 0, ri_waitall = True, ri_peek = False\<rparr> sample_pair = None \<and>
   (\<exists>w1 w2. unixsock_shutdown 0 False True sample_pair = Some (ESUCCESS, w1) \<and> unixsock_destroy 0 w1 = Some w2 \<and> unixsock_write 1 [] [5] w2 = None) \<and>
   (\<exists>w1 w2 w3 r2 r3. unixsock_write 1 [] [7, 8] sample_pair = Some (ESUCCESS, 2, w1) \<and> unixsock_recv 0 [] (peek_recv 2) w1 = Some (r2, [], w2) \<and>
      unixsock_read 0 [] 2 w2 = Some (r3, [], w3) \<and> unixsock_write 1 [] [5] w3 = None)"
proof -
  have p: "pair_ok 0 1 sample_pair"
    by (simp add: sample_pair_def socketpair_def sample_socks_def new_unixsock_def pair_ok_def end_ok_def no_fds_def MAX_SIZE_BUFFERS_def)
  have s: "sample_pair 0 = Some ((new_unixsock FT_SOCKET_STREAM False)\<lparr>us_status := CONNECTED, us_othersock := Some 1\<rparr>)"
    by (simp add: sample_pair_def socketpair_def sample_socks_def new_unixsock_def)
  from unixsock_calls_panic[OF p s, of "[7, 8]" "[]" "[5]"] show ?thesis by (simp add: new_unixsock_def)
qed

end
