(* ===== verification/Spec2Isabelle.thy ===== *)
theory Spec2Isabelle
  imports Linked_List Cstring Numeric Bitmap Address_Space File_Syscalls Tmpfs_Server Pseudo_Server Kernel_Objects Lock_Safety Unixsock
begin

text \<open>
  A verification library for Cosix, a CloudABI kernel for 32-bit x86 with its userland servers.

  \<^bold>\<open>The program and its model.\<close> A process calls the kernel through its table of file
  descriptors. A descriptor refers to an object of some class; a path is walked by calls of the
  methods of directories. Some classes live in the kernel (the binaries linked into it,
  information about it, the initial ram disk), others are served by a process in userland, to
  which the kernel sends requests over a socket; \<^verbatim>\<open>tmpfs\<close> is such a server. Beside this stack the
  library covers the address space of a process and the C library of the kernel.

  \<^item> \<^verbatim>\<open>Cosix_Prelude\<close>: machine words, \<open>kassert\<close>, facts about words, lists and options that all
    theories use. A failed assertion, a kernel panic, an access outside memory and a loop that
    does not end are the value \<^term>\<open>None\<close>; error numbers are a datatype.
  \<^item> \<^verbatim>\<open>Linked_List\<close>, \<^verbatim>\<open>Cstring\<close>, \<^verbatim>\<open>Numeric\<close>, \<^verbatim>\<open>Bitmap\<close>: \<^verbatim>\<open>src/oslibc\<close>. Lists are cells in a heap of
    addresses, strings are bytes in a partial memory. Each routine is shown to implement its
    mathematical counterpart (concatenation, filter, the first free run of bits, and so on), and
    printing and parsing numbers and UUIDs are inverse.
  \<^item> \<^verbatim>\<open>Mem_Mapping\<close>, \<^verbatim>\<open>Address_Space\<close>: \<^verbatim>\<open>src/fd/mem_mapping.cpp\<close> and the memory part of
    \<^verbatim>\<open>src/fd/process_fd.cpp\<close>. The specification is a function from pages to protections and backing;
    mapping, unmapping and protecting refine operations on it, the search for free space is sound
    and complete, and a page fault changes exactly one entry.
  \<^item> \<^verbatim>\<open>Cloudabi\<close>: what the code takes from the CloudABI headers, which are not in the repository, is
    the record \<open>cloudabi\<close>, a parameter. \<open>abi_ok\<close> states what is used of it: the numbers of errors and
    file types are distinct and the layout of a file status can be read back. \<open>sample_abi\<close> is an
    instance.
  \<^item> \<^verbatim>\<open>Fd\<close>, \<^verbatim>\<open>Fd_Table\<close>: \<^verbatim>\<open>src/fd/fd.hpp\<close> and the descriptor table of \<^verbatim>\<open>src/fd/process_fd.cpp\<close>. The table
    refines a finite map; seeking never wraps around.
  \<^item> \<^verbatim>\<open>Vfs\<close>: \<^verbatim>\<open>src/fd/vfs.cpp\<close>. The loop of \<^verbatim>\<open>traverse\<close> ends, because each round follows one more link,
    of which there are at most \<open>max_symlinks_followed\<close>, or shortens the path. The locale
    \<open>directory_server\<close> is the contract between the walk and the directories.
  \<^item> \<^verbatim>\<open>File_Syscalls\<close>: every \<^verbatim>\<open>fd_*\<close> and \<^verbatim>\<open>file_*\<close> call of \<^verbatim>\<open>src/proc/syscall\<close>, runs of a process as a step
    relation, and the capabilities derivable from a set of them.
  \<^item> \<^verbatim>\<open>Reverse_Proto\<close>, \<^verbatim>\<open>Pseudo_Fd\<close>, \<^verbatim>\<open>Pseudo_Server\<close>: the requests of \<^verbatim>\<open>src/fd/reverse_proto.hpp\<close>, the kernel's
    end in \<^verbatim>\<open>src/fd/pseudo_fd.cpp\<close>, the dispatcher of a server in \<^verbatim>\<open>src/userland/libpseudofd\<close>, and that the
    two together are transparent.
  \<^item> \<^verbatim>\<open>Std_Map\<close>, \<^verbatim>\<open>Tmpfs\<close>, \<^verbatim>\<open>Tmpfs_Server\<close>: \<^verbatim>\<open>src/userland/tmpfs\<close>. \<open>std::map\<close> is an association list with the
    interface \<open>ordered_map\<close>. The invariant \<open>tmpfs_ok\<close> is kept by every admissible request, and the
    server answers each of them.
  \<^item> \<^verbatim>\<open>Kernel_Fs\<close>, \<^verbatim>\<open>Initrdfs\<close>, \<^verbatim>\<open>Kernel_Objects\<close>: \<^verbatim>\<open>src/fd/memory_fd.cpp\<close>, \<^verbatim>\<open>bootfs.cpp\<close>, \<^verbatim>\<open>procfs.cpp\<close> and
    \<^verbatim>\<open>initrdfs.cpp\<close>, and the dispatch on the class of an object, which is the interpretation of
    \<open>directory_server\<close>. The walk over a ram disk is a partial function: it returns if the sizes in the
    archive do not wrap around, and a crafted size makes it run forever.

  This theory puts the parts together: capability safety of runs of system calls, confinement of
  paths, and the way of data from a system call through the dispatch, the requests and the
  dispatcher of the server to a file and back.

  \<^bold>\<open>Bounds.\<close> Integers have the width of the source; a theorem that needs a bound states it: a
  request carries at most 65535 bytes, a file of \<^verbatim>\<open>tmpfs\<close> and an offset in it are below 4 GiB. Loops
  that always end are total functions with a measure, the others are \<^theory_text>\<open>partial_function (option)\<close>, and
  where the code returns, that it returns is part of the theorem. No fuel is used.

  \<^bold>\<open>Not modelled.\<close> Device drivers and interrupt handling (input and output on ports), threads,
  the scheduler and polling, sockets, the network stack, the other servers, and messages to the
  console. Where the modelled code calls them they are parameters, such as \<open>rpc\<close> for a request
  over a socket.
\<close>

section \<open>The system calls over the file systems of the kernel\<close>

text \<open>
  A kernel with the binary \<^verbatim>\<open>init\<close> and a process that holds the two root directories, with the
  right to open files and to pass on reading.
\<close>

definition sample_kernel :: "unit kworld kernel" where
  "sample_kernel = \<lparr>k_abi = sample_abi, k_class = kernel_class sample_abi (\<lambda>_ _ _ _. None) sample_junk, k_past = (\<lambda>_. 0),
     k_junk = sample_fdstat, k_get_shm = (\<lambda>_. None), k_socketpair = (\<lambda>_ _. None)\<rparr>"

definition sample_proc :: "unit kworld proc" where
  "sample_proc = \<lparr>proc_fds = [Some \<lparr>map_fd = Some 0, rights_base = RIGHT sample_abi RIGHT_FILE_OPEN, rights_inheriting = RIGHT sample_abi RIGHT_FD_READ\<rparr>,
       Some \<lparr>map_fd = Some 1, rights_base = RIGHT sample_abi RIGHT_FILE_OPEN, rights_inheriting = RIGHT sample_abi RIGHT_FD_READ\<rparr>],
     proc_world = sample_kworld\<rparr>"

text \<open>The process opens \<^verbatim>\<open>init\<close> for reading.\<close>

definition sample_open :: "(unit, unit kworld) syscall" where
  "sample_open = syscall_file_open sample_kernel 0 0 [0x69, 0x6e, 0x69, 0x74, 0] 4 0
     \<lparr>fs_filetype = FT_UNKNOWN, fs_flags = 0, fs_rights_base = RIGHT sample_abi RIGHT_FD_READ, fs_rights_inheriting = 0\<rparr>"

lemma sample_wf: "table_wf (proc_fds sample_proc)"
  by (auto simp: table_wf_def table_map_def sample_proc_def less_Suc_eq)

lemma sample_run:
  obtains q where "fd_run sample_kernel sample_proc q" "table_map (proc_fds q) 2 = Some \<lparr>map_fd = Some 2, rights_base = 2, rights_inheriting = 0\<rparr>"
proof -
  have "case sample_open sample_proc of None \<Rightarrow> False
    | Some (e, r, u, q) \<Rightarrow> table_map (proc_fds q) 2 = Some \<lparr>map_fd = Some 2, rights_base = 2, rights_inheriting = 0\<rparr>"
    by code_simp
  then obtain e r u q where o: "sample_open sample_proc = Some (e, r, u, q)"
    and q: "table_map (proc_fds q) 2 = Some \<lparr>map_fd = Some 2, rights_base = 2, rights_inheriting = 0\<rparr>"
    by (auto split: option.splits)
  from o have "fd_step sample_kernel sample_proc q" unfolding sample_open_def by (rule step_file_open)
  with q show thesis using that run_step[OF run_none] by blast
qed






text \<open>The path \<^verbatim>\<open>kernel/../kernel/uptime\<close>.\<close>

definition sample_path :: bytes where
  "sample_path = kernel_str @ [slash] @ dotdot @ [slash] @ kernel_str @ [slash] @ uptime_str @ [0]"

definition sample_traverse where
  "sample_traverse = traverse sample_abi (k_class sample_kernel) (\<lambda>_. 0) 1 sample_path (length sample_path - 1) 0 0 sample_fdstat sample_kworld"


section \<open>From a system call to a server and back\<close>

text \<open>
  The descriptors of a process, the dispatch on the class of a descriptor, the requests and the
  dispatcher of the server are put together here. \<open>q\<close> is a descriptor of a server \<open>h\<close>.
\<close>

lemma get_obj_set_flags [simp]:
  "get_obj w f = Some ob \<Longrightarrow> get_obj (set_flags_at f fl w) g = (if g = f then Some (ob_set_flags fl ob) else get_obj w g)"
  by (auto simp: set_flags_at_def get_obj_def put_obj_def split: if_splits)

lemma get_obj_set_pos [simp]:
  "get_obj w f = Some ob \<Longrightarrow> get_obj (set_pos_at f x w) g = (if g = f then Some (ob_set_pos x ob) else get_obj w g)"
  by (auto simp: set_pos_at_def get_obj_def put_obj_def split: if_splits)

lemma kw_server_set [simp]: "kw_server (set_flags_at f fl w) = kw_server w" "kw_server (set_pos_at f x w) = kw_server w"
  "kw_server (put_obj f ob w) = kw_server w"
  by (simp_all add: set_flags_at_def set_pos_at_def put_obj_def split: option.splits)

lemma get_obj_server [simp]: "get_obj (w\<lparr>kw_server := s\<rparr>) f = get_obj w f"
  by (simp add: get_obj_def)

lemma get_obj_put_obj [simp]:
  "get_obj w f = Some ob' \<Longrightarrow> get_obj (put_obj f ob w) g = (if g = f then Some ob else get_obj w g)"
  by (auto simp: get_obj_def put_obj_def split: if_splits)

definition same_file :: "pfd \<Rightarrow> pfd \<Rightarrow> bool" where
  "same_file q r \<longleftrightarrow> pf_id r = pf_id q \<and> pf_reverse r = pf_reverse q \<and> pf_pos r = pf_pos q"

text \<open>What a call leaves: the same objects, the descriptor at its old position, a new state of the server.\<close>

definition only_server :: "fdref \<Rightarrow> pfd \<Rightarrow> 's kworld \<Rightarrow> 's kworld \<Rightarrow> bool" where
  "only_server f q w w' \<longleftrightarrow> (\<exists>r. get_obj w' f = Some (Pseudo r) \<and> same_file q r) \<and> (\<forall>g. g \<noteq> f \<longrightarrow> get_obj w' g = get_obj w g)"

lemma kernel_pwrite_pseudo:
  assumes A: "abi_ok A" and q: "get_obj w f = Some (Pseudo q)" "uint (pf_pos q) < 2 ^ 63"
    and d: "length d < 2 ^ 16" and s: "h_pwrite h (pf_id q) (ucast off) d (kw_server w) = Some (Inr (), s')"
  shows "\<exists>w'. op_pwrite (kernel_class A (server_rpc A h) junk) f d off w = Some (ESUCCESS, of_nat (length d), w') \<and>
    kw_server w' = s' \<and> only_server f q w w'"
proof -
  let ?fl = "pf_flags q AND NOT (FILE_CONST A FDFLAG_APPEND)"
  let ?q = "q\<lparr>pf_pos := ucast off, pf_flags := ?fl\<rparr>"
  have fl: "pf_flags ?q AND FILE_CONST A FDFLAG_APPEND = 0" by (simp add: and.assoc)
  have o: "uint (ucast off :: u64) < 2 ^ 63" by (rule ucast_32_small)
  have e: "proper_errors (h_pwrite h (pf_id ?q) (pf_pos ?q) d) (kw_server w)" using s by (simp add: proper_errors_def)
  have "outcome (h_pwrite h (pf_id ?q) (pf_pos ?q) d) (of_nat (length d)) (\<lambda>_. of_nat (length d))
      (\<lambda>_. ?q\<lparr>pf_pos := pf_pos ?q + of_nat (length d)\<rparr>) ?q (kw_server w)
    = Some (ESUCCESS, of_nat (length d), ?q\<lparr>pf_pos := pf_pos ?q + of_nat (length d)\<rparr>, s')"
    using s by (simp add: outcome_def)
  with pseudo_write_server[OF A d fl e]
  have pw: "pseudo_write A (server_rpc A h) d ?q (kw_server w)
    = Some (ESUCCESS, of_nat (length d), ?q\<lparr>pf_pos := pf_pos ?q + of_nat (length d)\<rparr>, s')" by simp
  show ?thesis using q o pw
    by (auto simp: kernel_class_def seekable_pwrite_def seekable_seek_set kernel_write_def invoke_def ob_seekable_def
        pos_at_def ob_pos_def ob_set_pos_def ob_set_flags_def ob_flags_def Let_def only_server_def same_file_def)
qed

lemma kernel_pread_pseudo:
  assumes A: "abi_ok A" and q: "get_obj w f = Some (Pseudo q)" "uint (pf_pos q) < 2 ^ 63"
    and n: "unat n < 2 ^ 16" and s: "h_pread h (pf_id q) (ucast off) n (kw_server w) = Some (Inr d, s')" "length d \<le> unat n"
  shows "\<exists>w'. op_pread (kernel_class A (server_rpc A h) junk) f n off w = Some (ESUCCESS, d, w') \<and>
    kw_server w' = s' \<and> only_server f q w w'"
proof -
  let ?q = "q\<lparr>pf_pos := ucast off\<rparr>"
  have o: "uint (ucast off :: u64) < 2 ^ 63" by (rule ucast_32_small)
  have "proper_errors (h_pread h (pf_id ?q) (pf_pos ?q) n) (kw_server w)" using s by (simp add: proper_errors_def)
  with pseudo_read_server[OF A n this] s
  have "pseudo_read A (server_rpc A h) n ?q (kw_server w)
    = Some (ESUCCESS, d, ?q\<lparr>pf_pos := pf_pos ?q + of_nat (length d)\<rparr>, s')" by (simp add: outcome_def)
  then show ?thesis using q o
    by (auto simp: kernel_class_def seekable_pread_def seekable_seek_set kernel_read_def invoke_def ob_seekable_def
        pos_at_def ob_pos_def ob_set_pos_def Let_def only_server_def same_file_def)
qed

lemma get_fd_fewer:
  "get_fd fds n r = Inr m \<Longrightarrow> within r' r \<Longrightarrow> get_fd fds n r' = Inr m"
  by (auto simp: get_fd_table_map within_bits split: option.splits if_splits)

text \<open>
  C2: A process that holds a descriptor of a regular file of the temporary file system, with the
  rights to read, write and seek, writes a buffer with \<^verbatim>\<open>fd_pwrite\<close> and reads it back with \<^verbatim>\<open>fd_pread\<close>.
  The file in the server holds the buffer at the offset. The table of the process, the position
  of the descriptor and all other descriptors of the kernel stay as they are.
\<close>

theorem syscall_pwrite_pread:
  assumes A: "abi_ok A" and K: "k_abi K = A" "k_class K = kernel_class A (server_rpc A (tmpfs_handler A E)) junk"
    and m: "get_fd (proc_fds p) n (RIGHT A RIGHT_FD_READ OR RIGHT A RIGHT_FD_WRITE OR RIGHT A RIGHT_FD_SEEK) = Inr m" "map_fd m = Some f"
    and q: "get_obj (proc_world p) f = Some (Pseudo q)" "uint (pf_pos q) < 2 ^ 63"
    and c: "file_of (kw_server (proc_world p)) (pf_id q) = Some c" "te_type c = FT_REGULAR_FILE" "length (te_contents c) < 2 ^ 32"
    and b: "length buf < 2 ^ 16" "unat off + length buf < 2 ^ 32"
  shows "\<exists>p1 p2 c'. syscall_fd_pwrite K n [buf] off p = Some (ESUCCESS, of_nat (length buf), (), p1) \<and>
    syscall_fd_pread K n [of_nat (length buf)] off p1 = Some (ESUCCESS, of_nat (length buf), [buf], p2) \<and>
    file_of (kw_server (proc_world p1)) (pf_id q) = Some c' \<and> te_contents c' = write_at (unat off) buf (te_contents c) \<and>
    proc_fds p2 = proc_fds p \<and> only_server f q (proc_world p) (proc_world p1)"
proof -
  let ?w = "proc_world p" and ?o = "ucast off :: u64"
  have o: "unat ?o = unat off" by (simp add: unsigned_ucast_eq take_bit_nat_eq_self less_trans[OF unat_u32_less])
  have l: "unat (of_nat (length buf) :: u32) = length buf" using b(1) by (simp add: unat_of_nat take_bit_nat_eq_self)
  let ?c = "c\<lparr>te_contents := write_at (unat off) buf (te_contents c), te_content_time := now E 0\<rparr>"
  obtain i where i: "tm_pseudo_fds (kw_server ?w) (pf_id q) = Some i" using file_of_cases[OF c(1)] .
  let ?s = "(kw_server ?w)\<lparr>tm_inodes := (tm_inodes (kw_server ?w))(i \<mapsto> ?c)\<rparr>"
  have pw: "tmpfs_pwrite E (pf_id q) ?o buf (kw_server ?w) = Some (Inr (), ?s)"
    using pwrite_result[OF c(1,2), of ?o buf E] b i o by simp
  have c1: "file_of ?s (pf_id q) = Some ?c" using i by (simp add: file_of_def)
  obtain s2 where pr: "tmpfs_pread E (pf_id q) ?o (of_nat (length buf)) ?s = Some (Inr buf, s2)"
    using pread_result[OF c1, of ?o E "of_nat (length buf)"] c(2,3) b(2) by (simp add: o l take_drop_write_at)
  from kernel_pwrite_pseudo[OF A q b(1), of "tmpfs_handler A E" off ?s junk] pw obtain w1 where
    w1: "op_pwrite (k_class K) f buf off ?w = Some (ESUCCESS, of_nat (length buf), w1)" "kw_server w1 = ?s" "only_server f q ?w w1"
    by (auto simp: K)
  from w1(3) obtain r where r: "get_obj w1 f = Some (Pseudo r)" "same_file q r" by (auto simp: only_server_def)
  from kernel_pread_pseudo[OF A r(1), of "of_nat (length buf)" "tmpfs_handler A E" off buf s2 junk] pr r(2) q(2) b(1) l w1(2)
  obtain w2 where w2: "op_pread (k_class K) f (of_nat (length buf)) off w1 = Some (ESUCCESS, buf, w2)"
    by (auto simp: K same_file_def)
  have g: "get_fd (proc_fds p) n (krights K RIGHT_FD_WRITE OR krights K RIGHT_FD_SEEK) = Inr m"
    "get_fd (proc_fds p) n (krights K RIGHT_FD_READ OR krights K RIGHT_FD_SEEK) = Inr m"
    by (rule get_fd_fewer[OF m(1)], auto simp: K within_bits bit_simps)+
  let ?p1 = "p\<lparr>proc_world := w1\<rparr>" and ?p2 = "p\<lparr>proc_world := w2\<rparr>"
  have u: "ucast (ucast off :: u64) = off" by (rule bit_word_eqI) (simp add: bit_simps)
  have "syscall_fd_pwrite K n [buf] off p = Some (ESUCCESS, of_nat (length buf), (), ?p1)"
    using g(1) m(2) w1(1) by (simp add: syscall_fd_pwrite_def with_fd_def u)
  moreover have "ucast (of_nat (length buf) :: u32) = (of_nat (length buf) :: u64)"
    using b(1) by (simp add: word_eq_iff_unsigned unsigned_ucast_eq unsigned_of_nat take_bit_nat_eq_self)
  then have "syscall_fd_pread K n [of_nat (length buf)] off ?p1 = Some (ESUCCESS, of_nat (length buf), [buf], ?p2)"
    using g(2) m(2) w2 by (simp add: syscall_fd_pread_def with_fd_def)
  ultimately show ?thesis using w1 c1 by (intro exI[of _ ?p1] exI[of _ ?p2] exI[of _ ?c]) simp
qed

definition sample_tmpfs_kernel :: "tmpfs kworld kernel" where
  "sample_tmpfs_kernel = \<lparr>k_abi = sample_abi,
     k_class = kernel_class sample_abi (server_rpc sample_abi (tmpfs_handler sample_abi sample_env)) sample_junk,
     k_past = (\<lambda>_. 0), k_junk = sample_fdstat, k_get_shm = (\<lambda>_. None), k_socketpair = (\<lambda>_ _. None)\<rparr>"

definition sample_tmpfs_proc :: "tmpfs kworld proc" where
  "sample_tmpfs_proc = \<lparr>proc_fds = [Some \<lparr>map_fd = Some 0, rights_base = all_rights, rights_inheriting = 0\<rparr>],
     proc_world = \<lparr>kw_objs = [Pseudo sample_pfd],
       kw_env = \<lparr>ke_binaries = [], ke_cmdline = None, ke_uptime = 0, ke_memory = (\<lambda>_. 0)\<rparr>, kw_server = sample_tmpfs\<rparr>\<rparr>"

theorem syscall_pwrite_pread_witness:
  "\<exists>p1 p2. syscall_fd_pwrite sample_tmpfs_kernel 0 [[8, 9]] 5 sample_tmpfs_proc = Some (ESUCCESS, 2, (), p1) \<and>
    syscall_fd_pread sample_tmpfs_kernel 0 [2] 5 p1 = Some (ESUCCESS, 2, [[8, 9]], p2)"
proof -
  let ?m = "\<lparr>map_fd = Some 0, rights_base = all_rights, rights_inheriting = 0\<rparr>"
  have K: "k_abi sample_tmpfs_kernel = sample_abi"
    "k_class sample_tmpfs_kernel = kernel_class sample_abi (server_rpc sample_abi (tmpfs_handler sample_abi sample_env)) sample_junk"
    by (simp_all add: sample_tmpfs_kernel_def)
  have "get_fd [Some \<lparr>map_fd = Some 0, rights_base = all_rights, rights_inheriting = 0\<rparr>] 0
      (RIGHT sample_abi RIGHT_FD_READ OR RIGHT sample_abi RIGHT_FD_WRITE OR RIGHT sample_abi RIGHT_FD_SEEK) = Inr ?m"
    by code_simp
  then have m: "get_fd (proc_fds sample_tmpfs_proc) 0
      (RIGHT sample_abi RIGHT_FD_READ OR RIGHT sample_abi RIGHT_FD_WRITE OR RIGHT sample_abi RIGHT_FD_SEEK) = Inr ?m"
    by (simp add: sample_tmpfs_proc_def)
  have q: "get_obj (proc_world sample_tmpfs_proc) 0 = Some (Pseudo sample_pfd)" "uint (pf_pos sample_pfd) < 2 ^ 63"
    by (simp_all add: sample_tmpfs_proc_def get_obj_def sample_pfd_def new_pseudo_fd_def)
  obtain c where "file_of sample_tmpfs 9 = Some c" "te_type c = FT_REGULAR_FILE" "te_contents c = [1, 2, 3]"
    using sample_files by auto
  then have c: "file_of (kw_server (proc_world sample_tmpfs_proc)) (pf_id sample_pfd) = Some c" "te_type c = FT_REGULAR_FILE"
    "length (te_contents c) < 2 ^ 32"
    by (simp_all add: sample_tmpfs_proc_def sample_pfd_def new_pseudo_fd_def)
  from syscall_pwrite_pread[OF abi_ok_sample K m _ q c, of "[8, 9]" 5] show ?thesis by auto
qed

end
